(* ===== verification/Yael_Prelude.thy ===== *)
theory Yael_Prelude
  imports Main "HOL-Library.Word"
begin

unbundle bit_operations_syntax

text \<open>
  The shared ground of the development: the machine types of the C++ code, its
  exceptions as values, raw memory accesses with their bounds, and the generic
  lemmas on words, lists and little-endian encodings that the components use.

  Every operation of the model that can throw returns a pair of a result and the
  state it leaves behind, because a C++ exception does not undo the assignments
  made before the throw.  Undefined behaviour (an access outside an array) is the
  value \<open>MemoryFault\<close>, and a process that dies in \<open>LOG(FATAL)\<close> is the value
  \<open>Fatal\<close>, so that their absence is something to prove.
\<close>

section \<open>Machine types\<close>

type_synonym byte = "8 word"
type_synonym u16 = "16 word"
type_synonym u32 = "32 word"
type_synonym u64 = "64 word"

type_synonym i32 = "32 word"
  \<comment> \<open>\<open>int32_t\<close>: the same bits as \<open>u32\<close>, read with \<open>sint\<close>\<close>

section \<open>Exceptions and results\<close>

datatype error =
    SocketError string        \<comment> \<open>\<open>network::socket_error\<close>\<close>
  | RuntimeError string       \<comment> \<open>\<open>std::runtime_error\<close>\<close>
  | InvalidArgument string    \<comment> \<open>\<open>std::invalid_argument\<close>\<close>
  | SendQueueFull             \<comment> \<open>\<open>network::send_queue_full\<close>\<close>
  | Fatal string              \<comment> \<open>\<open>LOG(FATAL)\<close>: the process aborts\<close>
  | MemoryFault               \<comment> \<open>an access outside the bounds of an object\<close>

type_synonym ('s, 'a) outcome = "(error + 'a) \<times> 's"

section \<open>Named collections\<close>

named_theorems wire_simps \<open>facts about the bytes that travel on a connection\<close>
named_theorems inv_intros \<open>preservation of the components' invariants\<close>

section \<open>Lists\<close>

lemma take_append_drop_take [simp]:
  "take n xs @ take m (drop n xs) = take (n + m) xs"
  by (simp add: take_add)

lemma take_drop_take_le:
  "n \<le> m \<Longrightarrow> take n xs @ take (m - n) (drop n xs) = take m xs"
  by simp

lemma concat_snoc [simp]: "concat (xs @ [x]) = concat xs @ x"
  by simp

lemma sum_list_snoc [simp]: "sum_list (xs @ [x]) = sum_list xs + (x :: 'a :: comm_monoid_add)"
  by simp

section \<open>Memory\<close>

text \<open>
  \<open>mem_read xs i n\<close> is what \<open>memcpy\<close> reads from \<open>&xs[i]\<close>; \<open>mem_write xs i ys\<close>
  is the array after \<open>memcpy(&xs[i], ys, length ys)\<close>.  Both are \<open>None\<close> where the
  access leaves the array.
\<close>

definition mem_read :: "'a list \<Rightarrow> nat \<Rightarrow> nat \<Rightarrow> 'a list option" where
  "mem_read xs i n = (if i + n \<le> length xs then Some (take n (drop i xs)) else None)"

definition mem_write :: "'a list \<Rightarrow> nat \<Rightarrow> 'a list \<Rightarrow> 'a list option" where
  "mem_write xs i ys =
     (if i + length ys \<le> length xs
      then Some (take i xs @ ys @ drop (i + length ys) xs) else None)"

text \<open>
  The contents of a fresh \<open>new uint8_t[n]\<close> are indeterminate in C++.  The code
  overwrites every byte before it hands the array out, so the model fills it with 0.
\<close>

definition new_array :: "nat \<Rightarrow> byte list" where
  "new_array n = replicate n 0"

lemma length_new_array [simp]: "length (new_array n) = n"
  by (simp add: new_array_def)

lemma mem_readI: "i + n \<le> length xs \<Longrightarrow> mem_read xs i n = Some (take n (drop i xs))"
  by (simp add: mem_read_def)

lemma mem_writeI:
  "i + length ys \<le> length xs \<Longrightarrow>
   mem_write xs i ys = Some (take i xs @ ys @ drop (i + length ys) xs)"
  by (simp add: mem_write_def)

lemma mem_write_length: "mem_write xs i ys = Some zs \<Longrightarrow> length zs = length xs"
  by (auto simp: mem_write_def split: if_splits)

lemma mem_write_take:
  "mem_write xs i ys = Some zs \<Longrightarrow> take (i + length ys) zs = take i xs @ ys"
  by (auto simp: mem_write_def split: if_splits)

section \<open>Words\<close>

lemma sint_small: "unat (w :: i32) < 2 ^ 31 \<Longrightarrow> sint w = int (unat w)"
proof -
  assume "unat w < 2 ^ 31"
  then have "unat w < 2147483648" by simp
  moreover have "uint w = int (unat w)" by simp
  ultimately have "uint w < 2147483648" by linarith
  then have "signed_take_bit 31 (uint w) = uint w"
    by (intro signed_take_bit_int_eq_self) (simp_all add: order_trans [OF _ uint_ge_0])
  then show ?thesis by (simp add: sint_uint)
qed

lemma unat_u32_bound: "unat (w :: u32) < 2 ^ 32"
  using unsigned_less [of w, where ?'a = nat] by simp

lemma unat_add_small32: "unat a + unat b < 2 ^ 32 \<Longrightarrow> unat ((a :: u32) + b) = unat a + unat b"
  by (simp add: unat_word_ariths)

lemma unat_sub_small: "unat b \<le> unat a \<Longrightarrow> unat ((a :: 'a::len word) - b) = unat a - unat b"
  by (simp add: unat_sub word_le_nat_alt)

lemma unat_of_nat_small32: "n < 2 ^ 32 \<Longrightarrow> unat (of_nat n :: u32) = n"
  by (simp add: unat_of_nat)

section \<open>Little-endian encoding of \<open>uint32_t\<close>\<close>

text \<open>
  The object representation of a \<open>uint32_t\<close> on the little-endian hosts the
  library runs on, and its inverse: the value of the word whose bytes \<open>memcpy\<close>
  has filled in.
\<close>

definition le_bytes :: "u32 \<Rightarrow> byte list" where
  "le_bytes w = map (\<lambda>i. ucast (drop_bit (8 * i) w)) [0, 1, 2, 3]"

fun of_le :: "byte list \<Rightarrow> u32" where
  "of_le [] = 0"
| "of_le (b # bs) = ucast b OR push_bit 8 (of_le bs)"

lemma length_le_bytes [simp]: "length (le_bytes w) = 4"
  by (simp add: le_bytes_def)

lemma of_le_le_bytes [simp, wire_simps]: "of_le (le_bytes w) = w"
proof (rule bit_word_eqI)
  fix n
  assume "n < LENGTH(32)"
  then consider "n < 8" | "8 \<le> n" "n < 16" | "16 \<le> n" "n < 24" | "24 \<le> n" "n < 32"
    by fastforce
  then show "bit (of_le (le_bytes w)) n = bit w n"
    by cases (auto simp: le_bytes_def bit_simps)
qed

lemma bit_byte_ge: "8 \<le> n \<Longrightarrow> \<not> bit (b :: byte) n"
  by (auto dest: bit_imp_le_length)

lemma le_bytes_of_le4: "le_bytes (of_le [a, b, c, d]) = [a, b, c, d]"
  unfolding le_bytes_def by (auto intro!: bit_word_eqI simp: bit_simps bit_byte_ge)

lemma le_bytes_of_le [wire_simps]: "length bs = 4 \<Longrightarrow> le_bytes (of_le bs) = bs"
proof -
  assume "length bs = 4"
  then obtain a b c d where "bs = [a, b, c, d]"
    by (auto simp: eval_nat_numeral length_Suc_conv)
  then show ?thesis by (simp only: le_bytes_of_le4)
qed

end
