(* ===== verification/Address.thy ===== *)
theory Address
  imports Yael_Prelude
begin

text \<open>
  \<open>Address\<close> (\<open>include/yael/network/Address.h\<close>, \<open>src/network/Address.cpp\<close>): IP address and port of
  a peer, the conversions from and to socket addresses, and the resolution of host names.
  The C library functions behind the conversions (\<open>inet_ntop\<close>, \<open>inet_pton\<close>, \<open>getaddrinfo\<close>) are
  parameters, collected in the record \<open>inet\<close>.
\<close>

section \<open>Socket addresses\<close>

text \<open>
  A field that a failed \<open>inet_pton\<close> leaves unwritten is indeterminate, written \<open>None\<close>.
  Ports of socket addresses are in network byte order.
\<close>

datatype family = AF_INET | AF_INET6 | AF_OTHER nat

record sockaddr_in =
  sin_addr :: "u32 option"
  sin_port :: u16

record sockaddr_in6 =
  sin6_addr :: "byte list option"
  sin6_port :: u16

datatype sockaddr = SA4 sockaddr_in | SA6 sockaddr_in6

text \<open>An entry of the list \<open>getaddrinfo\<close> returns: its family and its address in that family.\<close>

record addrinfo =
  ai_family :: family
  ai_addr4 :: sockaddr_in
  ai_addr6 :: sockaddr_in6

record inet =
  inet_ntop4 :: "u32 option \<Rightarrow> nat \<Rightarrow> string option"
  inet_ntop6 :: "byte list option \<Rightarrow> nat \<Rightarrow> string option"
  inet_pton4 :: "string \<Rightarrow> u32 option"
  inet_pton6 :: "string \<Rightarrow> byte list option"
  getaddrinfo :: "string \<Rightarrow> string + addrinfo list"

text \<open>Conversion between host and network order on a little-endian host.\<close>

definition htons :: "u16 \<Rightarrow> u16" where
  "htons w = push_bit 8 w OR drop_bit 8 w"

definition ntohs :: "u16 \<Rightarrow> u16" where
  "ntohs w = htons w"

lemma htons_htons [simp]: "htons (htons w) = w"
  unfolding htons_def by (rule bit_word_eqI) (auto simp: bit_simps)

section \<open>The structure\<close>

definition InvalidPort :: u16 where
  "InvalidPort = 0"

record Address =
  IP :: string
  PortNumber :: u16
  IPv6 :: bool

definition address_new :: Address where
  "address_new = \<lparr>IP = [], PortNumber = InvalidPort, IPv6 = False\<rparr>"

definition address_valid :: "Address \<Rightarrow> bool" where
  "address_valid a \<longleftrightarrow> IP a \<noteq> [] \<and> PortNumber a \<noteq> 0"

definition address_equals :: "Address \<Rightarrow> Address \<Rightarrow> bool" where
  "address_equals a other =
     (if PortNumber other \<noteq> PortNumber a then False
      else if IPv6 other \<noteq> IPv6 a then False
      else if IP other \<noteq> IP a then False
      else True)"

definition address_reset :: "Address \<Rightarrow> Address" where
  "address_reset a = a\<lparr>IP := [], PortNumber := InvalidPort\<rparr>"

definition address_of_sockaddr_in6 :: "inet \<Rightarrow> sockaddr_in6 \<Rightarrow> error + Address" where
  "address_of_sockaddr_in6 net addr =
     (case inet_ntop6 net (sin6_addr addr) 25 of
        None \<Rightarrow> Inl (RuntimeError ''invalid sock address'')
      | Some ip \<Rightarrow> Inr \<lparr>IP = ip, PortNumber = ntohs (sin6_port addr), IPv6 = True\<rparr>)"

definition address_of_sockaddr_in :: "inet \<Rightarrow> sockaddr_in \<Rightarrow> error + Address" where
  "address_of_sockaddr_in net addr =
     (case inet_ntop4 net (sin_addr addr) 16 of
        None \<Rightarrow> Inl (RuntimeError ''invalid sock address'')
      | Some ip \<Rightarrow> Inr \<lparr>IP = ip, PortNumber = ntohs (sin_port addr), IPv6 = False\<rparr>)"

definition get_sock_address6 :: "inet \<Rightarrow> Address \<Rightarrow> sockaddr_in6 \<Rightarrow> bool \<times> sockaddr_in6" where
  "get_sock_address6 net a addr =
     (if \<not> IPv6 a then (False, addr)
      else (True, addr\<lparr>sin6_addr := (case inet_pton6 net (IP a) of
                                        None \<Rightarrow> sin6_addr addr | Some x \<Rightarrow> Some x),
                       sin6_port := htons (PortNumber a)\<rparr>))"

definition get_sock_address :: "inet \<Rightarrow> Address \<Rightarrow> sockaddr_in \<Rightarrow> bool \<times> sockaddr_in" where
  "get_sock_address net a addr =
     (if IPv6 a then (False, addr)
      else (True, addr\<lparr>sin_addr := (case inet_pton4 net (IP a) of
                                       None \<Rightarrow> sin_addr addr | Some x \<Rightarrow> Some x),
                       sin_port := htons (PortNumber a)\<rparr>))"

section \<open>Name resolution\<close>

text \<open>The loop over the results: the first entry of the wanted family decides.\<close>

fun resolve_hosts :: "inet \<Rightarrow> bool \<Rightarrow> addrinfo list \<Rightarrow> error + Address" where
  "resolve_hosts net v6 [] = Inr address_new"
| "resolve_hosts net v6 (hosti # rest) =
     (if v6 \<and> ai_family hosti \<noteq> AF_INET6 \<or> \<not> v6 \<and> ai_family hosti = AF_INET6
      then resolve_hosts net v6 rest
      else if v6 then address_of_sockaddr_in6 net (ai_addr6 hosti)
      else address_of_sockaddr_in net (ai_addr4 hosti))"

definition resolve_URL :: "inet \<Rightarrow> string \<Rightarrow> u16 \<Rightarrow> bool \<Rightarrow> error + Address" where
  "resolve_URL net url port_number v6 =
     (case getaddrinfo net url of
        Inl txt \<Rightarrow> Inl (RuntimeError (''Error getting address: '' @ txt))
      | Inr hosts \<Rightarrow>
        (case resolve_hosts net v6 hosts of
           Inl e \<Rightarrow> Inl e
         | Inr address \<Rightarrow> Inr (address\<lparr>PortNumber := port_number\<rparr>)))"

section \<open>Lemmas\<close>

lemma address_equals_iff: "address_equals a b \<longleftrightarrow> a = b"
  by (auto simp: address_equals_def)

lemma resolve_hosts_eq:
  "resolve_hosts net v6 hosts =
     (case find (\<lambda>h. v6 = (ai_family h = AF_INET6)) hosts of
        None \<Rightarrow> Inr address_new
      | Some h \<Rightarrow> if v6 then address_of_sockaddr_in6 net (ai_addr6 h)
                  else address_of_sockaddr_in net (ai_addr4 h))"
  by (induction hosts) auto

lemma resolve_hosts_family:
  "resolve_hosts net v6 hosts = Inr a \<Longrightarrow> v6 = IPv6 a \<or> a = address_new"
  by (auto simp: resolve_hosts_eq address_of_sockaddr_in6_def address_of_sockaddr_in_def
      split: option.splits if_splits)

section \<open>Properties\<close>


definition loopback_inet :: inet where
  "loopback_inet =
     \<lparr>inet_ntop4 = (\<lambda>x n. if x = Some 16777343 \<and> 9 < n then Some ''127.0.0.1'' else None),
      inet_ntop6 = (\<lambda>x n. None),
      inet_pton4 = (\<lambda>s. if s = ''127.0.0.1'' then Some 16777343 else None),
      inet_pton6 = (\<lambda>s. None),
      getaddrinfo = (\<lambda>s. Inr [\<lparr>ai_family = AF_INET6, ai_addr4 = \<lparr>sin_addr = None, sin_port = 0\<rparr>,
                                ai_addr6 = \<lparr>sin6_addr = Some [], sin6_port = 0\<rparr>\<rparr>,
                               \<lparr>ai_family = AF_INET, ai_addr4 = \<lparr>sin_addr = Some 16777343, sin_port = 0\<rparr>,
                                ai_addr6 = \<lparr>sin6_addr = None, sin6_port = 0\<rparr>\<rparr>])\<rparr>"


text \<open>
  \<open>resolve_URL\<close> returns the first entry of \<open>getaddrinfo\<close> whose family is the wanted one, with
  the caller's port; without such an entry it returns an empty IPv4 address instead of an error.
\<close>

theorem resolve_URL_first_match:
  assumes "getaddrinfo net url = Inr hosts"
  shows "resolve_URL net url port_number v6 =
    (case find (\<lambda>h. v6 = (ai_family h = AF_INET6)) hosts of
       None \<Rightarrow> Inr \<lparr>IP = [], PortNumber = port_number, IPv6 = False\<rparr>
     | Some h \<Rightarrow> map_sum id (\<lambda>a. a\<lparr>PortNumber := port_number\<rparr>)
                   (if v6 then address_of_sockaddr_in6 net (ai_addr6 h)
                    else address_of_sockaddr_in net (ai_addr4 h)))"
  using assms
  by (auto simp: resolve_URL_def resolve_hosts_eq address_new_def split: option.splits sum.splits)

theorem resolve_URL_first_match_witness:
  "resolve_URL loopback_inet ''localhost'' 80 False =
     Inr \<lparr>IP = ''127.0.0.1'', PortNumber = 80, IPv6 = False\<rparr>"
proof -
  obtain hosts where h: "getaddrinfo loopback_inet ''localhost'' = Inr hosts"
    by (simp add: loopback_inet_def)
  from resolve_URL_first_match [OF h, of 80 False] h show ?thesis
    by (auto simp: loopback_inet_def address_of_sockaddr_in_def ntohs_def htons_def)
qed

text \<open>
  The constructor for IPv6 socket addresses passes 25 as the size of its text buffer, so with an
  \<open>inet_ntop\<close> that reports a buffer too small for the text and its terminator, every address whose
  text has 25 or more characters is rejected, although the buffer has room for all 46.
\<close>

lemma address_ipv6_truncated:
  assumes "\<And>x n. inet_ntop6 net x n = (if length (ntext x) < n then Some (ntext x) else None)"
    and "25 \<le> length (ntext (sin6_addr addr))"
  shows "address_of_sockaddr_in6 net addr = Inl (RuntimeError ''invalid sock address'')"
  using assms(2) by (simp add: address_of_sockaddr_in6_def assms(1))

end
