(* ===== verification/System.thy ===== *)
theory System
  imports Address
begin

text \<open>
  The operating system as the sockets see it.  The kernel is not part of the program: its answers
  are a parameter \<open>os\<close>, a record of functions that map the history of the calls a socket has made
  to the answer of the next call.  Quantifying over \<open>os\<close> is quantifying over everything the kernel
  and the peer can do.  The history itself, a list of \<open>sysevent\<close>, is the trace of the program's
  system calls, in order, and the observations below read the bytes sent and received off it.
\<close>

section \<open>Answers\<close>

datatype errno = EAGAIN | ECONNRESET | EPIPE | ENOTCONN | EOTHER nat

text \<open>\<open>recv\<close>: the bytes (none at the end of the stream) or an error.\<close>

datatype recv_res = RecvData "byte list" | RecvErr errno

text \<open>\<open>write\<close>: the number of bytes taken or an error.\<close>

datatype write_res = WriteN nat | WriteErr errno

datatype sysevent =
    SysSocket bool int
  | SysSetsockopt int string
  | SysSetNonblock int bool
  | SysBind int sockaddr int
  | SysListen int u32 int
  | SysConnect int sockaddr int
  | SysAccept int "errno + int"
  | SysShutdown int "errno option"
  | SysClose int
  | SysRecv int recv_res
  | SysWrite int "byte list" write_res
  | SysNotifyAll    \<comment> \<open>\<open>m_send_queue_cond.notify_all()\<close>, kept in the same order\<close>

type_synonym history = "sysevent list"

record os =
  os_socket :: "history \<Rightarrow> bool \<Rightarrow> int"
  os_bind :: "history \<Rightarrow> int \<Rightarrow> sockaddr \<Rightarrow> int"
  os_listen :: "history \<Rightarrow> int \<Rightarrow> u32 \<Rightarrow> int"
  os_connect :: "history \<Rightarrow> int \<Rightarrow> sockaddr \<Rightarrow> int"
  os_accept :: "history \<Rightarrow> int \<Rightarrow> errno + int"
  os_getsockname_port :: "history \<Rightarrow> int \<Rightarrow> u16"
  os_getpeername :: "history \<Rightarrow> int \<Rightarrow> sockaddr_in option"
  os_stack_junk :: "history \<Rightarrow> sockaddr_in \<times> string"
    \<comment> \<open>what uninitialised stack variables happen to hold\<close>
  os_shutdown :: "history \<Rightarrow> int \<Rightarrow> errno option"
  os_recv :: "history \<Rightarrow> int \<Rightarrow> nat \<Rightarrow> recv_res"
  os_write :: "history \<Rightarrow> int \<Rightarrow> byte list \<Rightarrow> write_res"

section \<open>What POSIX promises\<close>

text \<open>\<open>write\<close> never takes more bytes than it is given.\<close>

definition write_bounded :: "os \<Rightarrow> bool" where
  "write_bounded os \<longleftrightarrow> (\<forall>h fd bs n. os_write os h fd bs = WriteN n \<longrightarrow> n \<le> length bs)"

text \<open>\<open>recv\<close> never returns more bytes than the buffer holds.\<close>

definition recv_bounded :: "os \<Rightarrow> bool" where
  "recv_bounded os \<longleftrightarrow> (\<forall>h fd k bs. os_recv os h fd k = RecvData bs \<longrightarrow> length bs \<le> k)"

text \<open>A descriptor that the kernel hands out is positive: the three standard streams are open.\<close>

definition fds_positive :: "os \<Rightarrow> bool" where
  "fds_positive os \<longleftrightarrow> (\<forall>h v6. os_socket os h v6 \<noteq> 0) \<and> (\<forall>h fd. os_accept os h fd \<noteq> Inr 0) \<and>
     (\<forall>h fd n. os_accept os h fd = Inr n \<longrightarrow> 0 \<le> n)"

text \<open>\<open>shutdown\<close> of a connected socket fails only because the peer has closed the connection already.\<close>

definition shutdown_ok :: "os \<Rightarrow> bool" where
  "shutdown_ok os \<longleftrightarrow> (\<forall>h fd e. os_shutdown os h fd = Some e \<longrightarrow> e = ENOTCONN)"

text \<open>The peer has put at most \<open>k\<close> non-empty chunks in the receive queue of this history.\<close>

fun data_event :: "sysevent \<Rightarrow> bool" where
  "data_event (SysRecv fd (RecvData bs)) \<longleftrightarrow> bs \<noteq> []"
| "data_event _ \<longleftrightarrow> False"

definition recv_finite :: "os \<Rightarrow> nat \<Rightarrow> bool" where
  "recv_finite os k \<longleftrightarrow> (\<forall>h fd n bs. k \<le> length (filter data_event h) \<longrightarrow>
     os_recv os h fd n = RecvData bs \<longrightarrow> bs = [])"

text \<open>At most \<open>k\<close> connections arrive at the listening socket of this history.\<close>

fun accepted_by :: "sysevent \<Rightarrow> int list" where
  "accepted_by (SysAccept fd (Inr n)) = [n]"
| "accepted_by _ = []"

definition fds_accepted :: "history \<Rightarrow> int list" where
  "fds_accepted h = concat (map accepted_by h)"

definition accept_finite :: "os \<Rightarrow> nat \<Rightarrow> bool" where
  "accept_finite os k \<longleftrightarrow> (\<forall>h fd n. k \<le> length (fds_accepted h) \<longrightarrow> os_accept os h fd \<noteq> Inr n)"

lemma fds_accepted_append [simp]: "fds_accepted (h @ h') = fds_accepted h @ fds_accepted h'"
  and fds_accepted_Nil [simp]: "fds_accepted [] = []"
  and fds_accepted_single [simp]: "fds_accepted [e] = accepted_by e"
  by (simp_all add: fds_accepted_def)

section \<open>Observations\<close>

fun sent_by :: "sysevent \<Rightarrow> byte list" where
  "sent_by (SysWrite fd bs (WriteN n)) = take n bs"
| "sent_by _ = []"

definition bytes_sent :: "history \<Rightarrow> byte list" where
  "bytes_sent h = concat (map sent_by h)"

fun received_by :: "sysevent \<Rightarrow> byte list" where
  "received_by (SysRecv fd (RecvData bs)) = bs"
| "received_by _ = []"

definition bytes_received :: "history \<Rightarrow> byte list" where
  "bytes_received h = concat (map received_by h)"

lemma bytes_sent_append [simp, wire_simps]: "bytes_sent (h @ h') = bytes_sent h @ bytes_sent h'"
  and bytes_sent_Nil [simp]: "bytes_sent [] = []"
  and bytes_sent_single [simp]: "bytes_sent [e] = sent_by e"
  by (simp_all add: bytes_sent_def)

lemma bytes_received_append [simp, wire_simps]:
    "bytes_received (h @ h') = bytes_received h @ bytes_received h'"
  and bytes_received_Nil [simp]: "bytes_received [] = []"
  and bytes_received_single [simp]: "bytes_received [e] = received_by e"
  by (simp_all add: bytes_received_def)

lemma write_boundedD: "write_bounded os \<Longrightarrow> os_write os h fd bs = WriteN n \<Longrightarrow> n \<le> length bs"
  by (auto simp: write_bounded_def)

lemma recv_boundedD: "recv_bounded os \<Longrightarrow> os_recv os h fd k = RecvData bs \<Longrightarrow> length bs \<le> k"
  by (auto simp: recv_bounded_def)

end
