(* ===== verification/Buffer.thy ===== *)
theory Buffer
  imports Yael_Prelude
begin

text \<open>
  \<open>buffer_t\<close> (\<open>include/yael/network/buffer.h\<close>): the fixed array between \<open>recv\<close>
  and the message slicers, with its read position and its fill size.  The
  invariant \<open>buffer_inv\<close> is what the operations keep; \<open>unread\<close> is the part of the
  array that a slicer has still to consume.
\<close>

section \<open>The structure and its operations\<close>

definition MAX_SIZE :: nat where
  "MAX_SIZE = 4096"

record buffer_t =
  m_data :: "byte list"
  m_position :: i32
  m_size :: u32

definition buffer_reset :: "buffer_t \<Rightarrow> buffer_t" where
  "buffer_reset b = b\<lparr>m_size := 0, m_position := - 1\<rparr>"

definition buffer_new :: buffer_t where
  "buffer_new = buffer_reset \<lparr>m_data = new_array MAX_SIZE, m_position = 0, m_size = 0\<rparr>"

definition buffer_is_valid :: "buffer_t \<Rightarrow> bool" where
  "buffer_is_valid b \<longleftrightarrow> m_size b > 0"

definition buffer_at_end :: "buffer_t \<Rightarrow> bool" where
  "buffer_at_end b \<longleftrightarrow> sint (m_position b) \<ge> sint (m_size b)"

definition buffer_size :: "buffer_t \<Rightarrow> u32" where
  "buffer_size b = m_size b"

definition buffer_position :: "buffer_t \<Rightarrow> i32" where
  "buffer_position b = m_position b"

definition buffer_is_empty :: "buffer_t \<Rightarrow> bool" where
  "buffer_is_empty b \<longleftrightarrow> m_size b = 0"

definition buffer_data :: "buffer_t \<Rightarrow> byte list" where
  "buffer_data b = m_data b"

definition advance_position :: "i32 \<Rightarrow> buffer_t \<Rightarrow> buffer_t" where
  "advance_position advanceby b = b\<lparr>m_position := m_position b + advanceby\<rparr>"

definition set_position :: "i32 \<Rightarrow> buffer_t \<Rightarrow> buffer_t" where
  "set_position newpos b = b\<lparr>m_position := newpos\<rparr>"

definition set_size :: "u32 \<Rightarrow> buffer_t \<Rightarrow> buffer_t" where
  "set_size newsize b = b\<lparr>m_size := newsize\<rparr>"

text \<open>
  \<open>buffer_read b i n\<close> is the source of a \<open>memcpy(_, &b.data()[i], n)\<close> whose count is
  an \<open>int32_t\<close>: a negative index is outside the array, and a negative count becomes a
  huge \<open>size_t\<close>.
\<close>

definition buffer_read :: "buffer_t \<Rightarrow> i32 \<Rightarrow> i32 \<Rightarrow> byte list option" where
  "buffer_read b i n =
     (if sint i < 0 then None
      else mem_read (buffer_data b) (nat (sint i)) (unat (scast n :: u64)))"

lemmas buffer_defs =
  buffer_is_valid_def buffer_at_end_def buffer_size_def buffer_position_def
  buffer_is_empty_def buffer_data_def advance_position_def set_position_def set_size_def
  buffer_reset_def buffer_new_def

section \<open>Invariant and abstraction\<close>

definition buffer_inv :: "buffer_t \<Rightarrow> bool" where
  "buffer_inv b \<longleftrightarrow> length (m_data b) = MAX_SIZE \<and>
     (if m_size b = 0 then m_position b = - 1
      else unat (m_size b) \<le> MAX_SIZE \<and> unat (m_position b) \<le> unat (m_size b))"

definition unread :: "buffer_t \<Rightarrow> byte list" where
  "unread b = (if m_size b = 0 then []
     else take (unat (m_size b) - unat (m_position b)) (drop (unat (m_position b)) (m_data b)))"

text \<open>The bytes a slicer may still take, plus one for a buffer that has not been reset.\<close>

definition buffer_measure :: "buffer_t \<Rightarrow> nat" where
  "buffer_measure b = (if buffer_is_valid b then Suc (length (unread b)) else 0)"

lemma buffer_inv_new [simp, inv_intros]: "buffer_inv buffer_new"
  by (simp add: buffer_inv_def buffer_defs)

lemma buffer_inv_reset [inv_intros]: "buffer_inv b \<Longrightarrow> buffer_inv (buffer_reset b)"
  by (simp add: buffer_inv_def buffer_defs)

lemma unread_new [simp]: "unread buffer_new = []"
  by (simp add: unread_def buffer_defs)

lemma unread_reset [simp]: "unread (buffer_reset b) = []"
  by (simp add: unread_def buffer_defs)

lemma not_valid_reset [simp]: "\<not> buffer_is_valid (buffer_reset b)"
  by (simp add: buffer_defs)

lemma buffer_is_valid_iff: "buffer_is_valid b \<longleftrightarrow> m_size b \<noteq> 0"
  by (simp add: buffer_is_valid_def word_gt_0)

lemma buffer_is_empty_iff [simp]: "buffer_is_empty b \<longleftrightarrow> \<not> buffer_is_valid b"
  by (simp add: buffer_is_valid_iff buffer_is_empty_def)

lemma unread_not_valid: "\<not> buffer_is_valid b \<Longrightarrow> unread b = []"
  by (simp add: unread_def buffer_is_valid_iff)

lemma length_unread:
  "buffer_inv b \<Longrightarrow> buffer_is_valid b \<Longrightarrow>
   length (unread b) = unat (m_size b) - unat (m_position b)"
  by (auto simp: unread_def buffer_inv_def buffer_defs split: if_splits)

lemma length_unread_le: "buffer_inv b \<Longrightarrow> length (unread b) \<le> MAX_SIZE"
  by (auto simp: unread_def buffer_inv_def)

lemma buffer_measure_reset [simp]: "buffer_measure (buffer_reset b) = 0"
  by (simp add: buffer_measure_def)

section \<open>Bounds of the position arithmetic\<close>

lemma buffer_valid_bounds:
  assumes "buffer_inv b" and "buffer_is_valid b"
  shows "unat (m_position b) \<le> unat (m_size b)" and "unat (m_size b) \<le> 4096"
    and "sint (m_position b) = int (unat (m_position b))"
    and "sint (m_size b) = int (unat (m_size b))"
proof -
  show pos: "unat (m_position b) \<le> unat (m_size b)" and size: "unat (m_size b) \<le> 4096"
    using assms by (auto simp: buffer_inv_def buffer_defs MAX_SIZE_def split: if_splits)
  from pos size show "sint (m_position b) = int (unat (m_position b))"
    by (intro sint_small) simp
  from size show "sint (m_size b) = int (unat (m_size b))"
    by (intro sint_small) simp
qed

lemma unat_size_minus_position:
  "buffer_inv b \<Longrightarrow> buffer_is_valid b \<Longrightarrow>
   unat (buffer_size b - buffer_position b) = length (unread b)"
  using buffer_valid_bounds(1) [of b]
  by (simp add: length_unread unat_sub_small buffer_defs)

lemma buffer_at_end_iff:
  assumes b: "buffer_inv b" "buffer_is_valid b"
  shows "buffer_at_end b \<longleftrightarrow> unread b = []"
proof -
  have "buffer_at_end b \<longleftrightarrow> unat (m_size b) \<le> unat (m_position b)"
    by (simp only: buffer_at_end_def buffer_valid_bounds(3,4) [OF b] of_nat_le_iff)
  also have "\<dots> \<longleftrightarrow> length (unread b) = 0"
    using length_unread [OF b] by simp
  finally show ?thesis by simp
qed

lemma buffer_advance:
  assumes b: "buffer_inv b" "buffer_is_valid b" and k: "unat k \<le> length (unread b)"
  shows "buffer_inv (advance_position k b)" and "buffer_is_valid (advance_position k b)"
    and "unread (advance_position k b) = drop (unat k) (unread b)"
proof -
  note bnd = buffer_valid_bounds(1,2) [OF b] length_unread [OF b]
  have nz: "m_size b \<noteq> 0" and len: "length (m_data b) = MAX_SIZE"
    using b by (simp_all add: buffer_is_valid_iff buffer_inv_def)
  have pos: "unat (m_position b + k) = unat (m_position b) + unat k"
    using bnd k by (intro unat_add_small32) simp
  show "buffer_inv (advance_position k b)"
    using nz len k bnd pos by (simp add: buffer_inv_def advance_position_def MAX_SIZE_def)
  show "buffer_is_valid (advance_position k b)"
    using nz by (simp add: buffer_is_valid_iff advance_position_def)
  show "unread (advance_position k b) = drop (unat k) (unread b)"
    using nz pos by (simp add: unread_def advance_position_def drop_take add.commute)
qed

lemma scast_small_u64: "unat (k :: i32) < 2 ^ 31 \<Longrightarrow> unat (scast k :: u64) = unat k"
proof -
  assume "unat k < 2 ^ 31"
  then have "sint k = int (unat k)" and "unat k < 2 ^ 64"
    by (auto simp: sint_small)
  then have "(scast k :: u64) = of_nat (unat k)"
    by (metis of_int_of_nat_eq of_int_sint)
  with \<open>unat k < 2 ^ 64\<close> show ?thesis by (simp only: unat_of_nat) simp
qed

lemma buffer_read_unread:
  assumes b: "buffer_inv b" "buffer_is_valid b" and k: "unat k \<le> length (unread b)"
  shows "buffer_read b (buffer_position b) k = Some (take (unat k) (unread b))"
proof -
  note bnd = buffer_valid_bounds [OF b] length_unread [OF b]
  have k64: "unat (scast k :: u64) = unat k"
    using k bnd by (intro scast_small_u64) simp
  have "length (m_data b) = 4096" "m_size b \<noteq> 0"
    using b by (simp_all add: buffer_inv_def buffer_is_valid_iff MAX_SIZE_def)
  with bnd k show ?thesis
    by (simp add: buffer_read_def buffer_data_def buffer_position_def k64 mem_read_def unread_def
        min_absorb1)
qed

section \<open>Filling the buffer\<close>

text \<open>
  The sequence with which \<open>TcpSocket::receive_data\<close> and
  \<open>TlsContext::tls_record_received\<close> load a buffer: the bytes go to the front of the
  array, then \<open>set_size\<close> and \<open>set_position(0)\<close>.
\<close>

definition buffer_fill :: "byte list \<Rightarrow> buffer_t \<Rightarrow> buffer_t" where
  "buffer_fill bs b =
     set_position 0 (set_size (of_nat (length bs))
       (b\<lparr>m_data := bs @ drop (length bs) (m_data b)\<rparr>))"

lemma buffer_fill:
  assumes "length (m_data b) = MAX_SIZE" and "bs \<noteq> []" and "length bs \<le> MAX_SIZE"
  shows "buffer_inv (buffer_fill bs b)" and "buffer_is_valid (buffer_fill bs b)"
    and "unread (buffer_fill bs b) = bs"
proof -
  have sz: "unat (of_nat (length bs) :: u32) = length bs"
    using assms(3) by (intro unat_of_nat_small32) (simp add: MAX_SIZE_def)
  then have nz: "(of_nat (length bs) :: u32) \<noteq> 0"
    using assms(2) by (metis length_0_conv unat_0)
  show "buffer_inv (buffer_fill bs b)"
    using assms sz nz by (simp add: buffer_inv_def buffer_fill_def buffer_defs)
  show "buffer_is_valid (buffer_fill bs b)"
    using nz by (simp add: buffer_is_valid_iff buffer_fill_def set_position_def set_size_def)
  show "unread (buffer_fill bs b) = bs"
    using nz sz by (simp add: unread_def buffer_fill_def buffer_defs)
qed

text \<open>A buffer as the sockets leave it: empty, or loaded and not yet read from.\<close>

definition buffer_fresh :: "buffer_t \<Rightarrow> bool" where
  "buffer_fresh b \<longleftrightarrow> buffer_inv b \<and> (buffer_is_valid b \<longrightarrow> m_position b = 0)"

lemma buffer_fresh_fill:
  "length (m_data b) = MAX_SIZE \<Longrightarrow> bs \<noteq> [] \<Longrightarrow> length bs \<le> MAX_SIZE \<Longrightarrow> buffer_fresh (buffer_fill bs b)"
  using buffer_fill [of b bs] by (simp add: buffer_fresh_def buffer_fill_def set_position_def)

lemma buffer_fresh_reset: "buffer_inv b \<Longrightarrow> buffer_fresh (buffer_reset b)"
  by (simp add: buffer_fresh_def buffer_inv_reset)

lemma buffer_fresh_new: "buffer_fresh buffer_new"
  by (simp add: buffer_fresh_def) (simp add: buffer_defs)

end
