(* ===== verification/Message_Slicer.thy ===== *)
theory Message_Slicer
  imports Buffer
begin

text \<open>
  \<open>MessageSlicer\<close> (\<open>include/yael/network/MessageSlicer.h\<close>): the interface between the
  sockets and the two ways of cutting a byte stream into messages.  The abstract class
  becomes the locale \<open>slicer_contract\<close>; its laws are what \<open>TcpSocket\<close> and
  \<open>TlsContext\<close> rely on, and every slicer of the model interprets it.
\<close>

section \<open>Data\<close>

datatype MessageMode = Datagram | Stream

record message_in_t =
  mi_data :: "byte list"
  mi_length :: u32

section \<open>The interface\<close>

text \<open>
  \<open>msgs\<close> is the queue of complete payloads, \<open>pending\<close> the bytes of the message in
  progress, and \<open>wire m\<close> the bytes that carry the payload \<open>m\<close>.
\<close>

locale slicer_contract =
  fixes buffer :: "'s \<Rightarrow> buffer_t"
    and set_buffer :: "buffer_t \<Rightarrow> 's \<Rightarrow> 's"
    and process_buffer :: "'s \<Rightarrow> ('s, unit) outcome"
    and has_messages :: "'s \<Rightarrow> bool"
    and get_message :: "'s \<Rightarrow> message_in_t option \<times> 's"
    and inv :: "'s \<Rightarrow> bool"
    and msgs :: "'s \<Rightarrow> byte list list"
    and pending :: "'s \<Rightarrow> byte list"
    and wire :: "byte list \<Rightarrow> byte list"
  assumes buffer_ok: "inv s \<Longrightarrow> buffer_inv (buffer s)"
    and inv_set_buffer: "inv s \<Longrightarrow> buffer_fresh b \<Longrightarrow> inv (set_buffer b s)"
    and buffer_set_buffer: "buffer (set_buffer b s) = b"
    and msgs_set_buffer: "msgs (set_buffer b s) = msgs s"
    and pending_set_buffer: "pending (set_buffer b s) = pending s"
    and process_inv: "inv s \<Longrightarrow> buffer_is_valid (buffer s) \<Longrightarrow> inv (snd (process_buffer s))"
    and process_progress: "inv s \<Longrightarrow> buffer_is_valid (buffer s) \<Longrightarrow>
      buffer_measure (buffer (snd (process_buffer s))) < buffer_measure (buffer s)"
    and process_bytes: "inv s \<Longrightarrow> buffer_is_valid (buffer s) \<Longrightarrow>
      process_buffer s = (Inr (), s') \<Longrightarrow>
      concat (map wire (msgs s')) @ pending s' @ unread (buffer s') =
      concat (map wire (msgs s)) @ pending s @ unread (buffer s)"
    and process_error: "inv s \<Longrightarrow> buffer_is_valid (buffer s) \<Longrightarrow>
      process_buffer s = (Inl e, s') \<Longrightarrow> \<exists>txt. e = RuntimeError txt"
    and has_messages_iff: "inv s \<Longrightarrow> has_messages s \<longleftrightarrow> msgs s \<noteq> []"
    and get_message_Nil: "inv s \<Longrightarrow> msgs s = [] \<Longrightarrow> get_message s = (None, s)"
    and get_message_Cons: "inv s \<Longrightarrow> msgs s = m # ms \<Longrightarrow>
      \<exists>s'. get_message s = (Some \<lparr>mi_data = m, mi_length = of_nat (length m)\<rparr>, s') \<and>
           inv s' \<and> msgs s' = ms \<and> pending s' = pending s \<and> buffer s' = buffer s"
begin

text \<open>No call on a loaded buffer leaves the array or aborts the process.\<close>

lemma process_safe:
  assumes "inv s" and "buffer_is_valid (buffer s)"
  shows "fst (process_buffer s) \<noteq> Inl MemoryFault"
    and "fst (process_buffer s) \<noteq> Inl (Fatal txt)"
  using process_error [OF assms] by (cases "process_buffer s"; force)+

text \<open>Loading received bytes puts them behind everything the slicer already holds.\<close>

lemma fill_buffer:
  assumes "inv s" and "\<not> buffer_is_valid (buffer s)" and "bs \<noteq> []" and "length bs \<le> MAX_SIZE"
  defines "s' \<equiv> set_buffer (buffer_fill bs (buffer s)) s"
  shows "inv s'" and "buffer_is_valid (buffer s')" and "unread (buffer s') = bs"
    and "msgs s' = msgs s" and "pending s' = pending s"
proof -
  have len: "length (m_data (buffer s)) = MAX_SIZE"
    using buffer_ok [OF assms(1)] by (simp add: buffer_inv_def)
  note fill = buffer_fill [OF len assms(3,4)]
  show "inv s'" "buffer_is_valid (buffer s')" "unread (buffer s') = bs"
    using fill assms(1) buffer_fresh_fill [OF len assms(3,4)]
    by (simp_all add: s'_def buffer_set_buffer inv_set_buffer)
  show "msgs s' = msgs s" "pending s' = pending s"
    by (simp_all add: s'_def msgs_set_buffer pending_set_buffer)
qed

text \<open>Reading messages out never changes what is being assembled.\<close>

lemma get_message_frame:
  assumes "inv s" and "get_message s = (r, s')"
  shows "inv s'" and "pending s' = pending s" and "buffer s' = buffer s"
    and "msgs s = (case r of None \<Rightarrow> [] | Some m \<Rightarrow> [mi_data m]) @ msgs s'"
  using assms get_message_Nil [of s] get_message_Cons [of s]
  by (cases "msgs s"; fastforce)+

end

end
