(* ===== verification/Framing.thy ===== *)
theory Framing
  imports Yael_Prelude "HOL-Library.Sublist"
begin

text \<open>
  The wire format of datagram mode, as the comment of
  \<open>DatagramMessageSlicer\<close> describes it, stated on byte streams without buffers or
  machine words: \<open>frame\<close> puts a little-endian length in front of a payload and \<open>parse\<close>
  cuts a stream back into payloads and an incomplete rest.  A header that announces no
  payload is skipped, which is what the socket does when the slicer rejects it.
  The slicer and the sockets refine these functions.
\<close>

section \<open>Encoding and decoding\<close>

definition frame :: "byte list \<Rightarrow> byte list" where
  "frame m = le_bytes (of_nat (length m + 4)) @ m"

definition valid_payload :: "byte list \<Rightarrow> bool" where
  "valid_payload m \<longleftrightarrow> m \<noteq> [] \<and> length m + 4 < 2 ^ 32"

definition frame_length :: "byte list \<Rightarrow> nat" where
  "frame_length bs = unat (of_le (take 4 bs))"

function parse :: "byte list \<Rightarrow> byte list list \<times> byte list" where
  "parse bs =
     (if length bs < 4 then ([], bs)
      else if frame_length bs \<le> 4 then parse (drop 4 bs)
      else if length bs < frame_length bs then ([], bs)
      else (drop 4 (take (frame_length bs) bs) # fst (parse (drop (frame_length bs) bs)),
            snd (parse (drop (frame_length bs) bs))))"
  by pat_completeness auto
termination
  by (relation "measure length") auto

declare parse.simps [simp del]

section \<open>Equations for the cases of the parser\<close>

lemma length_frame [simp]: "length (frame m) = length m + 4"
  by (simp add: frame_def)

lemma frame_length_frame:
  "valid_payload m \<Longrightarrow> frame_length (frame m @ bs) = length m + 4"
  unfolding frame_length_def frame_def valid_payload_def
  by (simp add: unat_of_nat_small32 del: of_nat_add)

lemma frame_length_append [simp]:
  "4 \<le> length a \<Longrightarrow> frame_length (a @ b) = frame_length a"
  by (simp add: frame_length_def)

lemma parse_short: "length bs < 4 \<Longrightarrow> parse bs = ([], bs)"
  by (simp add: parse.simps)

lemma parse_invalid:
  "4 \<le> length bs \<Longrightarrow> frame_length bs \<le> 4 \<Longrightarrow> parse bs = parse (drop 4 bs)"
  by (simp add: parse.simps [of bs])

lemma parse_partial:
  "4 \<le> length bs \<Longrightarrow> 4 < frame_length bs \<Longrightarrow> length bs < frame_length bs \<Longrightarrow>
   parse bs = ([], bs)"
  by (simp add: parse.simps [of bs])

lemma parse_whole:
  "4 < frame_length bs \<Longrightarrow> frame_length bs \<le> length bs \<Longrightarrow>
   parse bs = (drop 4 (take (frame_length bs) bs) # fst (parse (drop (frame_length bs) bs)),
               snd (parse (drop (frame_length bs) bs)))"
  by (simp add: parse.simps [of bs])

lemma parse_Nil [simp]: "parse [] = ([], [])"
  by (simp add: parse_short)

text \<open>A complete frame at the front of a stream is the frame of its payload.\<close>

lemma frame_of_prefix:
  assumes "4 < frame_length w" and "frame_length w \<le> length w"
  shows "frame (drop 4 (take (frame_length w) w)) = take (frame_length w) w"
proof -
  have "le_bytes (of_nat (frame_length w)) = take 4 w"
    using assms by (simp add: frame_length_def le_bytes_of_le)
  moreover have "take 4 w @ drop 4 (take (frame_length w) w) = take (frame_length w) w"
    using assms(1) append_take_drop_id [of 4 "take (frame_length w) w"] by (simp add: min_def)
  ultimately show ?thesis using assms by (simp add: frame_def)
qed

section \<open>The parser is independent of the fragmentation of the stream\<close>

lemma parse_append:
  "parse (a @ b) =
     (fst (parse a) @ fst (parse (snd (parse a) @ b)), snd (parse (snd (parse a) @ b)))"
proof (induction a rule: parse.induct)
  case (1 a)
  consider "length a < 4" | "4 \<le> length a" "frame_length a \<le> 4"
    | "4 \<le> length a" "4 < frame_length a" "length a < frame_length a"
    | "4 < frame_length a" "frame_length a \<le> length a"
    by linarith
  then show ?case
  proof cases
    case 2
    then have "parse (a @ b) = parse (drop 4 a @ b)"
      using parse_invalid [of "a @ b"] by simp
    with 2 1 show ?thesis by (simp add: parse_invalid [of a])
  next
    case 4
    then have "parse (a @ b) =
      (drop 4 (take (frame_length a) a) # fst (parse (drop (frame_length a) a @ b)),
       snd (parse (drop (frame_length a) a @ b)))"
      using parse_whole [of "a @ b"] by simp
    with 4 1 show ?thesis by (simp add: parse_whole [of a])
  qed (simp_all add: parse_short parse_partial)
qed

lemma parse_rest: "parse (snd (parse a)) = ([], snd (parse a))"
  using parse_append [of a "[]"] by (simp add: prod_eq_iff)

text \<open>Feeding chunks one after the other is parsing their concatenation.\<close>

fun feed :: "byte list \<Rightarrow> byte list list \<Rightarrow> byte list list \<times> byte list" where
  "feed p [] = ([], p)"
| "feed p (c # cs) =
     (fst (parse (p @ c)) @ fst (feed (snd (parse (p @ c))) cs),
      snd (feed (snd (parse (p @ c))) cs))"

lemma feed_parse: "parse p = ([], p) \<Longrightarrow> feed p cs = parse (p @ concat cs)"
proof (induction cs arbitrary: p)
  case Nil
  then show ?case by simp
next
  case (Cons c cs)
  have "feed (snd (parse (p @ c))) cs = parse (snd (parse (p @ c)) @ concat cs)"
    by (rule Cons.IH) (rule parse_rest)
  then show ?case
    using parse_append [of "p @ c" "concat cs"] by simp
qed

section \<open>Round trip\<close>

lemma parse_frame:
  assumes "valid_payload m"
  shows "parse (frame m @ bs) = (m # fst (parse bs), snd (parse bs))"
proof -
  have len: "frame_length (frame m @ bs) = length m + 4"
    using assms by (rule frame_length_frame)
  have "m \<noteq> []" using assms by (simp add: valid_payload_def)
  then have "parse (frame m @ bs) =
      (drop 4 (take (length m + 4) (frame m @ bs)) # fst (parse (drop (length m + 4) (frame m @ bs))),
       snd (parse (drop (length m + 4) (frame m @ bs))))"
    using parse_whole [of "frame m @ bs"] by (simp add: len)
  then show ?thesis by (simp add: frame_def)
qed

lemma parse_frames:
  "list_all valid_payload ms \<Longrightarrow>
   parse (concat (map frame ms) @ bs) = (ms @ fst (parse bs), snd (parse bs))"
  by (induction ms) (simp_all add: parse_frame)

lemma parse_all_frames: "list_all valid_payload ms \<Longrightarrow> parse (concat (map frame ms)) = (ms, [])"
  using parse_frames [of ms "[]"] by simp

lemma parse_prefix: "prefix a b \<Longrightarrow> prefix (fst (parse a)) (fst (parse b))"
  by (auto simp: prefix_def parse_append [of a])

end
