(* ===== verification/Datagram_Slicer.thy ===== *)
theory Datagram_Slicer
  imports Message_Slicer Framing
begin

text \<open>
  \<open>DatagramMessageSlicer\<close> (\<open>src/network/DatagramMessageSlicer.h\<close>): the slicer that
  reassembles length-prefixed messages from the receive buffer.  The definitions follow
  \<open>process_buffer\<close> statement by statement on machine words; the lemmas show that it
  implements one step of the abstract parser, keeps its invariant, makes progress and
  never leaves an array.
\<close>

section \<open>State\<close>

definition HEADER_SIZE :: u32 where
  "HEADER_SIZE = 4"

record dg_message_in =
  dm_length :: u32
  dm_read_pos :: u32
  dm_data :: "byte list option"

record dg_slicer =
  dg_messages :: "dg_message_in list"
  dg_buffer :: buffer_t
  dg_has_current_message :: bool
  dg_current_message :: dg_message_in

definition dg_message_new :: dg_message_in where
  "dg_message_new = \<lparr>dm_length = 0, dm_read_pos = 0, dm_data = None\<rparr>"

definition dg_new :: dg_slicer where
  "dg_new = \<lparr>dg_messages = [], dg_buffer = buffer_new, dg_has_current_message = False,
             dg_current_message = dg_message_new\<rparr>"

section \<open>Sending: the header\<close>

text \<open>\<open>realloc\<close> keeps the common prefix; what it adds is indeterminate.\<close>

definition realloc :: "byte list \<Rightarrow> nat \<Rightarrow> byte list" where
  "realloc xs n = take n xs @ new_array (n - length xs)"

definition dg_prepare_message_raw :: "byte list \<Rightarrow> u32 \<Rightarrow> error + (byte list \<times> u32)" where
  "dg_prepare_message_raw cptr len =
     (let payload_length = len;
          len = len + 4;
          cptr = realloc cptr (unat len)
      in case mem_read cptr 0 (unat payload_length) of None \<Rightarrow> Inl MemoryFault | Some payload \<Rightarrow>
         (case mem_write cptr 4 payload of None \<Rightarrow> Inl MemoryFault | Some cptr \<Rightarrow>
          (case mem_write cptr 0 (le_bytes len) of None \<Rightarrow> Inl MemoryFault | Some cptr \<Rightarrow>
           Inr (cptr, len))))"

definition dg_prepare_message :: "byte list \<Rightarrow> u32 \<Rightarrow> error + (byte list \<times> u32)" where
  "dg_prepare_message ptr len = dg_prepare_message_raw ptr len"

section \<open>Receiving\<close>

definition dg_has_messages :: "dg_slicer \<Rightarrow> bool" where
  "dg_has_messages s \<longleftrightarrow> dg_messages s \<noteq> []"

definition dg_get_message :: "dg_slicer \<Rightarrow> message_in_t option \<times> dg_slicer" where
  "dg_get_message s =
     (case dg_messages s of
        [] \<Rightarrow> (None, s)
      | it # rest \<Rightarrow>
          (Some \<lparr>mi_data = (case dm_data it of None \<Rightarrow> [] | Some d \<Rightarrow> d),
                 mi_length = dm_length it - HEADER_SIZE\<rparr>,
           s\<lparr>dg_messages := rest\<rparr>))"

text \<open>\<open>msg = std::move(m_current_message)\<close>: the member is left empty.\<close>

definition dg_take_current :: "dg_slicer \<Rightarrow> dg_message_in \<times> dg_slicer" where
  "dg_take_current s =
     (if dg_has_current_message s
      then (dg_current_message s,
            s\<lparr>dg_current_message := dg_message_new, dg_has_current_message := False\<rparr>)
      else (dg_message_new, s))"

text \<open>\<open>std::min<int32_t>\<close> compares signed, \<open>std::min\<close> on \<open>uint32_t\<close> unsigned.\<close>

definition min_i32 :: "i32 \<Rightarrow> i32 \<Rightarrow> i32" where
  "min_i32 a b = (if sint b < sint a then b else a)"

definition min_u32 :: "u32 \<Rightarrow> u32 \<Rightarrow> u32" where
  "min_u32 a b = (if b < a then b else a)"

definition dg_read_header ::
    "dg_message_in \<Rightarrow> buffer_t \<Rightarrow> (error + dg_message_in) \<times> buffer_t" where
  "dg_read_header msg b =
     (if dm_read_pos msg < HEADER_SIZE then
        let readlength = min_i32 (HEADER_SIZE - dm_read_pos msg) (buffer_size b - buffer_position b)
        in case buffer_read b (buffer_position b) readlength of
             None \<Rightarrow> (Inl MemoryFault, b)
           | Some src \<Rightarrow>
             (case mem_write (le_bytes (dm_length msg)) (unat (dm_read_pos msg)) src of
                None \<Rightarrow> (Inl MemoryFault, b)
              | Some hdr \<Rightarrow>
                (let msg = msg\<lparr>dm_length := of_le hdr, dm_read_pos := dm_read_pos msg + readlength\<rparr>;
                     b = advance_position readlength b
                 in if dm_read_pos msg = HEADER_SIZE then
                      (if dm_length msg \<le> HEADER_SIZE
                       then (Inl (RuntimeError ''Not a valid message''), b)
                       else (Inr (msg\<lparr>dm_data := Some (new_array (unat (dm_length msg - HEADER_SIZE)))\<rparr>), b))
                    else (Inr msg, b)))
      else (Inr msg, b))"

definition dg_read_payload ::
    "dg_message_in \<Rightarrow> buffer_t \<Rightarrow> (error + dg_message_in) \<times> buffer_t" where
  "dg_read_payload msg b =
     (let readlength = min_u32 (dm_length msg - dm_read_pos msg) (buffer_size b - buffer_position b)
      in if sint readlength > 0 then
           (case dm_data msg of
              None \<Rightarrow> (Inl (SocketError ''Invalid state: message buffer not allocated''), b)
            | Some d \<Rightarrow>
              (case buffer_read b (buffer_position b) readlength of
                 None \<Rightarrow> (Inl MemoryFault, b)
               | Some src \<Rightarrow>
                 (case mem_write d (unat (dm_read_pos msg - HEADER_SIZE)) src of
                    None \<Rightarrow> (Inl MemoryFault, b)
                  | Some d' \<Rightarrow>
                    (Inr (msg\<lparr>dm_data := Some d', dm_read_pos := dm_read_pos msg + readlength\<rparr>),
                     advance_position readlength b))))
         else (Inr msg, b))"

definition dg_finish :: "dg_message_in \<Rightarrow> bool \<Rightarrow> dg_slicer \<Rightarrow> (dg_slicer, unit) outcome" where
  "dg_finish msg received_full_msg s =
     (let s1 = (if received_full_msg then s\<lparr>dg_messages := dg_messages s @ [msg]\<rparr>
                else s\<lparr>dg_current_message := msg, dg_has_current_message := True\<rparr>)
      in (Inr (), if buffer_at_end (dg_buffer s1)
                  then s1\<lparr>dg_buffer := buffer_reset (dg_buffer s1)\<rparr> else s1))"

definition dg_after_header :: "dg_message_in \<Rightarrow> buffer_t \<Rightarrow> dg_slicer \<Rightarrow> (dg_slicer, unit) outcome" where
  "dg_after_header msg b s =
     (case dg_read_payload msg b of
        (Inl e, b) \<Rightarrow> (Inl e, s\<lparr>dg_buffer := b\<rparr>)
      | (Inr msg, b) \<Rightarrow>
        if dm_read_pos msg > dm_length msg
        then (Inl (SocketError ''Invalid message length''), s\<lparr>dg_buffer := b\<rparr>)
        else dg_finish msg (dm_read_pos msg = dm_length msg) (s\<lparr>dg_buffer := b\<rparr>))"

definition dg_process_buffer :: "dg_slicer \<Rightarrow> (dg_slicer, unit) outcome" where
  "dg_process_buffer s =
     (case dg_take_current s of (msg, s) \<Rightarrow>
      (case dg_read_header msg (dg_buffer s) of
         (Inl e, b) \<Rightarrow> (Inl e, s\<lparr>dg_buffer := b\<rparr>)
       | (Inr msg, b) \<Rightarrow>
         if dm_read_pos msg \<ge> HEADER_SIZE then dg_after_header msg b s
         else dg_finish msg False (s\<lparr>dg_buffer := b\<rparr>)))"

section \<open>Invariant and abstraction\<close>

definition dg_msg_inv :: "dg_message_in \<Rightarrow> bool" where
  "dg_msg_inv m \<longleftrightarrow>
     (if unat (dm_read_pos m) < 4 then True
      else 4 < unat (dm_length m) \<and> unat (dm_read_pos m) \<le> unat (dm_length m) \<and>
           (\<exists>d. dm_data m = Some d \<and> length d + 4 = unat (dm_length m)))"

definition dg_msg_bytes :: "dg_message_in \<Rightarrow> byte list" where
  "dg_msg_bytes m =
     (if unat (dm_read_pos m) < 4 then take (unat (dm_read_pos m)) (le_bytes (dm_length m))
      else le_bytes (dm_length m) @
           take (unat (dm_read_pos m) - 4) (case dm_data m of None \<Rightarrow> [] | Some d \<Rightarrow> d))"

definition dg_payload :: "dg_message_in \<Rightarrow> byte list" where
  "dg_payload m = (case dm_data m of None \<Rightarrow> [] | Some d \<Rightarrow> d)"

definition dg_inv :: "dg_slicer \<Rightarrow> bool" where
  "dg_inv s \<longleftrightarrow> buffer_inv (dg_buffer s) \<and>
     (\<forall>m \<in> set (dg_messages s). dg_msg_inv m \<and> 4 < unat (dm_length m) \<and> dm_read_pos m = dm_length m) \<and>
     (dg_has_current_message s \<longrightarrow> dg_msg_inv (dg_current_message s) \<and>
        (4 \<le> unat (dm_read_pos (dg_current_message s)) \<longrightarrow>
         unat (dm_read_pos (dg_current_message s)) < unat (dm_length (dg_current_message s))))"

definition dg_msgs :: "dg_slicer \<Rightarrow> byte list list" where
  "dg_msgs s = map dg_payload (dg_messages s)"

definition dg_pending :: "dg_slicer \<Rightarrow> byte list" where
  "dg_pending s = (if dg_has_current_message s then dg_msg_bytes (dg_current_message s) else [])"

definition dg_set_buffer :: "buffer_t \<Rightarrow> dg_slicer \<Rightarrow> dg_slicer" where
  "dg_set_buffer b s = s\<lparr>dg_buffer := b\<rparr>"

section \<open>Lemmas on one message\<close>

lemma length_dg_msg_bytes: "dg_msg_inv m \<Longrightarrow> length (dg_msg_bytes m) = unat (dm_read_pos m)"
  by (auto simp: dg_msg_inv_def dg_msg_bytes_def split: if_splits)

lemma dg_msg_new [simp]: "dg_msg_inv dg_message_new" "dg_msg_bytes dg_message_new = []"
  by (simp_all add: dg_msg_inv_def dg_msg_bytes_def dg_message_new_def)

lemma unat_HEADER_SIZE [simp]: "unat HEADER_SIZE = 4"
  by (simp add: HEADER_SIZE_def)

lemma less_HEADER_SIZE [simp]: "w < HEADER_SIZE \<longleftrightarrow> unat w < 4"
  by (simp add: word_less_nat_alt)

lemma HEADER_SIZE_le [simp]: "HEADER_SIZE \<le> w \<longleftrightarrow> 4 \<le> unat w"
  by (simp add: word_le_nat_alt)

lemma le_HEADER_SIZE [simp]: "w \<le> HEADER_SIZE \<longleftrightarrow> unat w \<le> 4"
  by (simp add: word_le_nat_alt)

lemma eq_HEADER_SIZE [simp]: "w = HEADER_SIZE \<longleftrightarrow> unat w = 4"
  by (simp add: word_unat_eq_iff)

lemma unat_min_u32: "unat (min_u32 a b) = min (unat a) (unat b)"
  by (simp add: min_u32_def word_less_nat_alt)

lemma unat_min_i32:
  "unat a < 2 ^ 31 \<Longrightarrow> unat b < 2 ^ 31 \<Longrightarrow> unat (min_i32 a b) = min (unat a) (unat b)"
  by (simp only: min_i32_def sint_small of_nat_less_iff) simp

text \<open>A message whose header is complete starts with its own length.\<close>

lemma frame_length_msg_bytes:
  "dg_msg_inv m \<Longrightarrow> 4 \<le> unat (dm_read_pos m) \<Longrightarrow>
   frame_length (dg_msg_bytes m @ bs) = unat (dm_length m)"
  by (simp add: frame_length_def dg_msg_bytes_def)

section \<open>Reading the header\<close>

text \<open>The number of header bytes one call copies.\<close>

definition header_take :: "dg_message_in \<Rightarrow> buffer_t \<Rightarrow> nat" where
  "header_take m b = min (4 - unat (dm_read_pos m)) (length (unread b))"

abbreviation header_readlength :: "dg_message_in \<Rightarrow> buffer_t \<Rightarrow> i32" where
  "header_readlength m b \<equiv>
     min_i32 (HEADER_SIZE - dm_read_pos m) (buffer_size b - buffer_position b)"

lemma unat_header_readlength:
  assumes "unat (dm_read_pos m) < 4" and b: "buffer_inv b" "buffer_is_valid b"
  shows "unat (header_readlength m b) = header_take m b"
proof -
  have "length (unread b) < 2 ^ 31"
    using length_unread_le [OF b(1)] by (simp add: MAX_SIZE_def)
  moreover have "unat (HEADER_SIZE - dm_read_pos m) = 4 - unat (dm_read_pos m)"
    using assms(1) by (subst unat_sub_small) simp_all
  ultimately show ?thesis
    by (subst unat_min_i32) (simp_all add: unat_size_minus_position [OF b] header_take_def)
qed

lemma header_take_le: "header_take m b \<le> length (unread b)"
  and header_take_4: "unat (dm_read_pos m) < 4 \<Longrightarrow> unat (dm_read_pos m) + header_take m b \<le> 4"
  by (auto simp: header_take_def)

text \<open>The bytes of the length field after the copy.\<close>

lemma header_memcpy:
  assumes m: "dg_msg_inv m" "unat (dm_read_pos m) < 4"
  obtains h where
    "mem_write (le_bytes (dm_length m)) (unat (dm_read_pos m)) (take (header_take m b) (unread b)) = Some h"
    "length h = 4"
    "take (unat (dm_read_pos m) + header_take m b) h =
       dg_msg_bytes m @ take (header_take m b) (unread b)"
proof -
  let ?src = "take (header_take m b) (unread b)"
  have len: "length ?src = header_take m b" using header_take_le [of m b] by simp
  obtain h where h: "mem_write (le_bytes (dm_length m)) (unat (dm_read_pos m)) ?src = Some h"
    using header_take_4 [OF m(2)] mem_writeI [of "unat (dm_read_pos m)" ?src "le_bytes (dm_length m)"]
    by (simp only: len length_le_bytes)
  have "dg_msg_bytes m = take (unat (dm_read_pos m)) (le_bytes (dm_length m))"
    using m(2) by (simp add: dg_msg_bytes_def)
  then have "take (unat (dm_read_pos m) + header_take m b) h = dg_msg_bytes m @ ?src"
    using mem_write_take [OF h] by (simp only: len)
  with h mem_write_length [OF h] show thesis by (intro that) simp_all
qed

lemma dg_read_header_eq:
  assumes m: "unat (dm_read_pos m) < 4" and b: "buffer_inv b" "buffer_is_valid b"
    and h: "mem_write (le_bytes (dm_length m)) (unat (dm_read_pos m)) (take (header_take m b) (unread b)) = Some h"
  defines "m' \<equiv> m\<lparr>dm_length := of_le h, dm_read_pos := dm_read_pos m + header_readlength m b\<rparr>"
  shows "dg_read_header m b =
     (if unat (dm_read_pos m) + header_take m b = 4 then
        if unat (of_le h) \<le> 4 then Inl (RuntimeError ''Not a valid message'')
        else Inr (m'\<lparr>dm_data := Some (new_array (unat (of_le h) - 4))\<rparr>)
      else Inr m', advance_position (header_readlength m b) b)"
    and "unat (dm_read_pos m') = unat (dm_read_pos m) + header_take m b"
proof -
  note rl = unat_header_readlength [OF m b]
  have rd: "buffer_read b (buffer_position b) (header_readlength m b) = Some (take (header_take m b) (unread b))"
    using buffer_read_unread [OF b, of "header_readlength m b"] by (simp add: rl header_take_le)
  show rp: "unat (dm_read_pos m') = unat (dm_read_pos m) + header_take m b"
    using header_take_4 [OF m, of b] m by (simp add: m'_def rl unat_add_small32)
  have sub: "4 < unat (of_le h) \<Longrightarrow> unat (of_le h - HEADER_SIZE) = unat (of_le h) - 4"
    by (subst unat_sub_small) simp_all
  show "dg_read_header m b =
     (if unat (dm_read_pos m) + header_take m b = 4 then
        if unat (of_le h) \<le> 4 then Inl (RuntimeError ''Not a valid message'')
        else Inr (m'\<lparr>dm_data := Some (new_array (unat (of_le h) - 4))\<rparr>)
      else Inr m', advance_position (header_readlength m b) b)"
    using m rp sub by (simp add: dg_read_header_def rd h m'_def Let_def)
qed

lemma dg_read_header_cases:
  assumes m: "dg_msg_inv m" "unat (dm_read_pos m) < 4"
    and b: "buffer_inv b" "buffer_is_valid b"
  defines "hdr \<equiv> dg_msg_bytes m @ take (header_take m b) (unread b)"
  obtains (short) m' where "length hdr < 4" "dm_read_pos m' < HEADER_SIZE"
      "dg_read_header m b = (Inr m', advance_position (header_readlength m b) b)"
      "dg_msg_inv m'" "dg_msg_bytes m' = hdr"
    | (invalid) "length hdr = 4" "frame_length hdr \<le> 4"
      "dg_read_header m b =
         (Inl (RuntimeError ''Not a valid message''), advance_position (header_readlength m b) b)"
    | (full) m' where "length hdr = 4" "4 < frame_length hdr" "dm_read_pos m' = HEADER_SIZE"
      "dg_read_header m b = (Inr m', advance_position (header_readlength m b) b)"
      "dg_msg_inv m'" "dg_msg_bytes m' = hdr"
proof -
  obtain h where h: "mem_write (le_bytes (dm_length m)) (unat (dm_read_pos m))
        (take (header_take m b) (unread b)) = Some h"
    and lh: "length h = 4" and th: "take (unat (dm_read_pos m) + header_take m b) h = hdr"
    using header_memcpy [OF m] unfolding hdr_def by blast
  note eq = dg_read_header_eq [OF m(2) b h] and bh = le_bytes_of_le [OF lh]
  have len: "length hdr = unat (dm_read_pos m) + header_take m b"
    using header_take_le [of m b] by (simp add: hdr_def length_dg_msg_bytes m(1))
  let ?m = "m\<lparr>dm_length := of_le h, dm_read_pos := dm_read_pos m + header_readlength m b\<rparr>"
  consider (s) "length hdr < 4" | (f) "length hdr = 4"
    using header_take_4 [OF m(2), of b] len by linarith
  then show thesis
  proof cases
    case s
    then show thesis
      using eq bh th by (intro short [of ?m]) (simp_all add: len dg_msg_inv_def dg_msg_bytes_def)
  next
    case f
    then have four: "unat (dm_read_pos m) + header_take m b = 4" using len by simp
    then have hdr: "hdr = h" using th lh by simp
    have fl: "frame_length h = unat (of_le h)" using lh by (simp add: frame_length_def)
    show thesis
    proof (cases "unat (of_le h) \<le> 4")
      case True
      then show thesis using f eq four by (intro invalid) (simp_all add: hdr fl)
    next
      case False
      let ?m' = "?m\<lparr>dm_data := Some (new_array (unat (of_le h) - 4))\<rparr>"
      show thesis
        using f False eq bh four
        by (intro full [of ?m']) (simp_all add: hdr fl dg_msg_inv_def dg_msg_bytes_def)
    qed
  qed
qed

section \<open>Reading the payload\<close>

lemma dg_read_payload_step:
  assumes m: "dg_msg_inv m" "4 \<le> unat (dm_read_pos m)"
    and b: "buffer_inv b" "buffer_is_valid b"
  defines "k \<equiv> min (unat (dm_length m) - unat (dm_read_pos m)) (length (unread b))"
  obtains m' b' where "dg_read_payload m b = (Inr m', b')" "dg_msg_inv m'"
    "dm_length m' = dm_length m" "unat (dm_read_pos m') = unat (dm_read_pos m) + k"
    "dg_msg_bytes m' = dg_msg_bytes m @ take k (unread b)"
    "buffer_inv b'" "buffer_is_valid b'" "unread b' = drop k (unread b)"
proof -
  let ?rl = "min_u32 (dm_length m - dm_read_pos m) (buffer_size b - buffer_position b)"
  obtain d where d: "dm_data m = Some d" "length d + 4 = unat (dm_length m)"
    and le: "4 < unat (dm_length m)" "unat (dm_read_pos m) \<le> unat (dm_length m)"
    using m by (auto simp: dg_msg_inv_def)
  have rl: "unat ?rl = k"
    using le by (simp add: unat_min_u32 unat_sub_small unat_size_minus_position [OF b] k_def)
  have kle: "unat ?rl \<le> length (unread b)" by (simp only: rl) (simp add: k_def)
  have k31: "k < 2 ^ 31"
    using kle length_unread_le [OF b(1)] by (simp add: rl MAX_SIZE_def)
  have srl: "sint ?rl > 0 \<longleftrightarrow> 0 < k"
    using k31 rl sint_small [of ?rl] by simp
  have off: "unat (dm_read_pos m - HEADER_SIZE) = unat (dm_read_pos m) - 4"
    using m(2) by (subst unat_sub_small) simp_all
  show thesis
  proof (cases "0 < k")
    case False
    with srl d show thesis by (intro that [of m b]) (use m b in \<open>simp_all add: dg_read_payload_def\<close>)
  next
    case True
    have room: "unat (dm_read_pos m) - 4 + length (take k (unread b)) \<le> length d"
      using d m(2) le by (simp add: k_def)
    let ?d = "take (unat (dm_read_pos m) - 4) d @ take k (unread b) @
              drop (unat (dm_read_pos m) - 4 + length (take k (unread b))) d"
    let ?m = "m\<lparr>dm_data := Some ?d, dm_read_pos := dm_read_pos m + ?rl\<rparr>"
    have wr: "mem_write d (unat (dm_read_pos m) - 4) (take k (unread b)) = Some ?d"
      using room by (rule mem_writeI)
    have kk: "length (take k (unread b)) = k" using kle rl by simp
    have rp: "unat (dm_read_pos m + ?rl) = unat (dm_read_pos m) + k"
      using le rl unat_u32_bound [of "dm_length m"] by (subst unat_add_small32) (simp_all add: k_def)
    have "dg_read_payload m b = (Inr ?m, advance_position ?rl b)"
      using True srl d buffer_read_unread [OF b kle]
      by (simp add: dg_read_payload_def Let_def off rl wr)
    moreover have "dg_msg_inv ?m"
      using m le d rp kk mem_write_length [OF wr] by (simp add: dg_msg_inv_def k_def)
    moreover have "dg_msg_bytes ?m = dg_msg_bytes m @ take k (unread b)"
      using m(2) d rp kk mem_write_take [OF wr]
      by (simp add: dg_msg_bytes_def)
    ultimately show thesis
      using buffer_advance [OF b kle] rl rp by (intro that) simp_all
  qed
qed

section \<open>One call of \<open>process_buffer\<close> is one step of the parser\<close>

lemma dg_pending_incomplete:
  assumes "dg_inv s"
  obtains "length (dg_pending s) < 4"
    | "4 \<le> length (dg_pending s)" "4 < frame_length (dg_pending s)"
      "length (dg_pending s) < frame_length (dg_pending s)"
proof (cases "dg_has_current_message s")
  case True
  let ?m = "dg_current_message s"
  have m: "dg_msg_inv ?m" using assms True by (simp add: dg_inv_def)
  show thesis
  proof (cases "unat (dm_read_pos ?m) < 4")
    case False
    then show thesis
      using assms True m frame_length_msg_bytes [OF m, of "[]"]
      by (intro that(2)) (auto simp: dg_inv_def dg_pending_def length_dg_msg_bytes dg_msg_inv_def)
  qed (use True m that(1) in \<open>simp add: dg_pending_def length_dg_msg_bytes\<close>)
qed (use that(1) in \<open>simp add: dg_pending_def\<close>)

text \<open>The result of \<open>dg_finish\<close>, with the buffer reset once it is used up.\<close>

lemma dg_finish_buffer:
  assumes "buffer_inv (dg_buffer s)" "buffer_is_valid (dg_buffer s)"
  shows "buffer_inv (dg_buffer (snd (dg_finish m full s)))"
    and "unread (dg_buffer (snd (dg_finish m full s))) = unread (dg_buffer s)"
    and "buffer_is_valid (dg_buffer (snd (dg_finish m full s))) \<longleftrightarrow> unread (dg_buffer s) \<noteq> []"
  using assms buffer_at_end_iff [OF assms]
  by (auto simp: dg_finish_def Let_def buffer_inv_reset)

lemma dg_take_current:
  assumes "dg_inv s"
  obtains m s' where "dg_take_current s = (m, s')" "dg_msg_inv m" "dg_msg_bytes m = dg_pending s"
    "dg_inv s'" "dg_messages s' = dg_messages s" "dg_buffer s' = dg_buffer s"
    "\<not> dg_has_current_message s'"
    "4 \<le> unat (dm_read_pos m) \<Longrightarrow> unat (dm_read_pos m) < unat (dm_length m)"
proof (cases "dg_has_current_message s")
  case True
  with assms show thesis
    by (intro that [of "dg_current_message s"
          "s\<lparr>dg_current_message := dg_message_new, dg_has_current_message := False\<rparr>"])
      (simp_all add: dg_take_current_def dg_inv_def dg_pending_def)
next
  case False
  have "unat (dm_read_pos dg_message_new) = 0" by (simp add: dg_message_new_def)
  with False assms show thesis
    by (intro that [of dg_message_new s])
      (simp_all add: dg_take_current_def dg_pending_def)
qed

lemma dg_finish_partial:
  assumes "dg_inv s" "buffer_is_valid (dg_buffer s)" "unread (dg_buffer s) = []"
    and "dg_msg_inv m" "4 \<le> unat (dm_read_pos m) \<Longrightarrow> unat (dm_read_pos m) < unat (dm_length m)"
  obtains s' where "dg_finish m False s = (Inr (), s')" "dg_inv s'" "dg_msgs s' = dg_msgs s"
    "dg_pending s' = dg_msg_bytes m" "\<not> buffer_is_valid (dg_buffer s')"
proof
  let ?s = "snd (dg_finish m False s)"
  have b: "buffer_inv (dg_buffer s)" using assms(1) by (simp add: dg_inv_def)
  note buf = dg_finish_buffer [OF b assms(2), of m False]
  show "dg_finish m False s = (Inr (), ?s)" by (simp add: dg_finish_def Let_def)
  show "dg_inv ?s"
    using assms(1,4,5) buf(1) by (auto simp: dg_inv_def dg_finish_def Let_def)
  show "dg_msgs ?s = dg_msgs s" "dg_pending ?s = dg_msg_bytes m"
    by (simp_all add: dg_finish_def Let_def dg_msgs_def dg_pending_def)
  show "\<not> buffer_is_valid (dg_buffer ?s)" using buf(3) assms(3) by simp
qed

lemma dg_finish_full:
  assumes "dg_inv s" "buffer_is_valid (dg_buffer s)" "\<not> dg_has_current_message s"
    and "dg_msg_inv m" "4 < unat (dm_length m)" "dm_read_pos m = dm_length m"
  obtains s' where "dg_finish m True s = (Inr (), s')" "dg_inv s'"
    "dg_msgs s' = dg_msgs s @ [drop 4 (dg_msg_bytes m)]" "dg_pending s' = []"
    "unread (dg_buffer s') = unread (dg_buffer s)"
    "buffer_is_valid (dg_buffer s') \<longleftrightarrow> unread (dg_buffer s) \<noteq> []"
proof
  let ?s = "snd (dg_finish m True s)"
  have b: "buffer_inv (dg_buffer s)" using assms(1) by (simp add: dg_inv_def)
  note buf = dg_finish_buffer [OF b assms(2), of m True]
  have pay: "dg_payload m = drop 4 (dg_msg_bytes m)"
    using assms(4,5,6) by (auto simp: dg_payload_def dg_msg_bytes_def dg_msg_inv_def)
  show "dg_finish m True s = (Inr (), ?s)" by (simp add: dg_finish_def Let_def)
  show "dg_inv ?s"
    using assms buf(1) by (auto simp: dg_inv_def dg_finish_def Let_def)
  show "dg_msgs ?s = dg_msgs s @ [drop 4 (dg_msg_bytes m)]" "dg_pending ?s = []"
    using assms(3) by (simp_all add: dg_finish_def Let_def dg_msgs_def dg_pending_def pay)
  show "unread (dg_buffer ?s) = unread (dg_buffer s)" by (rule buf(2))
  show "buffer_is_valid (dg_buffer ?s) \<longleftrightarrow> unread (dg_buffer s) \<noteq> []" by (rule buf(3))
qed

lemma dg_after_header_cases:
  assumes m: "dg_msg_inv m" "4 \<le> unat (dm_read_pos m)" "unat (dm_read_pos m) < unat (dm_length m)"
    and s: "dg_inv s" "\<not> dg_has_current_message s"
    and b: "buffer_inv b" "buffer_is_valid b"
  defines "w \<equiv> dg_msg_bytes m @ unread b" and "n \<equiv> unat (dm_length m)"
  obtains (partial) s' where "length w < n" "dg_after_header m b s = (Inr (), s')" "dg_inv s'"
      "dg_msgs s' = dg_msgs s" "dg_pending s' = w" "\<not> buffer_is_valid (dg_buffer s')"
    | (message) s' where "n \<le> length w" "dg_after_header m b s = (Inr (), s')" "dg_inv s'"
      "dg_msgs s' = dg_msgs s @ [drop 4 (take n w)]" "dg_pending s' = []"
      "unread (dg_buffer s') = drop n w"
      "buffer_is_valid (dg_buffer s') \<longleftrightarrow> drop n w \<noteq> []"
proof -
  define k where "k = min (n - unat (dm_read_pos m)) (length (unread b))"
  obtain m' b' where pay: "dg_read_payload m b = (Inr m', b')" and m': "dg_msg_inv m'"
      "dm_length m' = dm_length m" and rp: "unat (dm_read_pos m') = unat (dm_read_pos m) + k"
    and mb: "dg_msg_bytes m' = dg_msg_bytes m @ take k (unread b)"
    and b': "buffer_inv b'" "buffer_is_valid b'" "unread b' = drop k (unread b)"
    using dg_read_payload_step [OF m(1,2) b] unfolding k_def n_def by metis
  have lw: "length w = unat (dm_read_pos m) + length (unread b)"
    by (simp add: w_def length_dg_msg_bytes m(1))
  have si: "dg_inv (s\<lparr>dg_buffer := b'\<rparr>)" using s(1) b'(1) by (simp add: dg_inv_def)
  have bound: "\<not> dm_length m' < dm_read_pos m'"
    using m(3) rp by (simp add: m' word_less_nat_alt k_def n_def)
  have full: "dm_read_pos m' = dm_length m' \<longleftrightarrow> n \<le> length w"
    using m(3) by (auto simp: word_unat_eq_iff m' rp k_def lw n_def)
  have eq: "dg_after_header m b s = dg_finish m' (n \<le> length w) (s\<lparr>dg_buffer := b'\<rparr>)"
    using bound full by (simp add: dg_after_header_def pay)
  show thesis
  proof (cases "n \<le> length w")
    case True
    then have k: "k = n - unat (dm_read_pos m)" by (simp add: k_def lw)
    have take_w: "dg_msg_bytes m' = take n w" and drop_w: "unread b' = drop n w"
      using m(3) by (simp_all add: mb b'(3) w_def k length_dg_msg_bytes m(1) n_def)
    show thesis
      using dg_finish_full [OF si _ _ m'(1), of thesis] message True eq full b'(2) s(2) m(2,3) m'(2)
      by (simp add: dg_msgs_def take_w drop_w)
  next
    case False
    then have k: "k = length (unread b)" by (simp add: k_def lw)
    show thesis
      using dg_finish_partial [OF si _ _ m'(1), of thesis] partial False eq b' rp m'(2)
        length_dg_msg_bytes [OF m(1)]
      by (simp add: mb k w_def dg_msgs_def lw n_def)
  qed
qed

text \<open>
  What one call must do with the stream \<open>w\<close> that it sees (the pending bytes followed by the
  unread ones): hold an incomplete message back, deliver exactly one message, or reject a
  header that announces no payload.
\<close>

definition dg_step_spec :: "byte list \<Rightarrow> byte list list \<Rightarrow> (dg_slicer, unit) outcome \<Rightarrow> bool" where
  "dg_step_spec w ms r \<longleftrightarrow> (case r of (res, s') \<Rightarrow> dg_inv s' \<and>
     (if length w < 4 \<or> 4 < frame_length w \<and> length w < frame_length w then
        res = Inr () \<and> dg_msgs s' = ms \<and> dg_pending s' = w \<and> \<not> buffer_is_valid (dg_buffer s')
      else if 4 < frame_length w then
        res = Inr () \<and> dg_msgs s' = ms @ [drop 4 (take (frame_length w) w)] \<and> dg_pending s' = [] \<and>
        unread (dg_buffer s') = drop (frame_length w) w \<and>
        (buffer_is_valid (dg_buffer s') \<longleftrightarrow> drop (frame_length w) w \<noteq> [])
      else
        res = Inl (RuntimeError ''Not a valid message'') \<and> dg_msgs s' = ms \<and> dg_pending s' = [] \<and>
        unread (dg_buffer s') = drop 4 w))"

lemma dg_after_header_spec:
  assumes m: "dg_msg_inv m" "4 \<le> unat (dm_read_pos m)" "unat (dm_read_pos m) < unat (dm_length m)"
    and s: "dg_inv s" "\<not> dg_has_current_message s"
    and b: "buffer_inv b" "buffer_is_valid b"
  shows "dg_step_spec (dg_msg_bytes m @ unread b) (dg_msgs s) (dg_after_header m b s)"
proof -
  have n: "frame_length (dg_msg_bytes m @ unread b) = unat (dm_length m)"
    using m(1,2) by (rule frame_length_msg_bytes)
  have n4: "4 < unat (dm_length m)" using m(2,3) by simp
  from m s b show ?thesis
  proof (cases rule: dg_after_header_cases)
    case (partial s')
    then show ?thesis using n4 by (simp add: dg_step_spec_def n)
  next
    case (message s')
    then show ?thesis using n4 by (simp add: dg_step_spec_def n)
  qed
qed

lemma dg_header_spec:
  assumes m: "dg_msg_inv m" "unat (dm_read_pos m) < 4"
    and s: "dg_inv s" "\<not> dg_has_current_message s" "buffer_is_valid (dg_buffer s)"
  shows "dg_step_spec (dg_msg_bytes m @ unread (dg_buffer s)) (dg_msgs s)
     (case dg_read_header m (dg_buffer s) of
        (Inl e, b) \<Rightarrow> (Inl e, s\<lparr>dg_buffer := b\<rparr>)
      | (Inr msg, b) \<Rightarrow>
        if dm_read_pos msg \<ge> HEADER_SIZE then dg_after_header msg b s
        else dg_finish msg False (s\<lparr>dg_buffer := b\<rparr>))"
    (is "dg_step_spec ?w _ ?r")
proof -
  let ?b = "dg_buffer s"
  have b: "buffer_inv ?b" using s(1) by (simp add: dg_inv_def)
  let ?k = "header_take m ?b" and ?b1 = "advance_position (header_readlength m ?b) ?b"
  have rl: "unat (header_readlength m ?b) = ?k" using m(2) b s(3) by (rule unat_header_readlength)
  then have "unat (header_readlength m ?b) \<le> length (unread ?b)" by (simp add: header_take_le)
  from buffer_advance [OF b s(3) this] have b1: "buffer_inv ?b1" "buffer_is_valid ?b1"
    and u1: "unread ?b1 = drop ?k (unread ?b)" by (simp_all only: rl)
  define hdr where "hdr = dg_msg_bytes m @ take ?k (unread ?b)"
  have w: "?w = hdr @ unread ?b1" by (simp add: u1 hdr_def)
  have s1: "dg_inv (s\<lparr>dg_buffer := ?b1\<rparr>)" using s(1) b1(1) by (simp add: dg_inv_def)
  from m b s(3) show ?thesis
  proof (cases rule: dg_read_header_cases)
    case (short m')
    then have "?k = length (unread ?b)"
      using m by (simp add: length_dg_msg_bytes header_take_def split: if_splits)
    then have u0: "unread ?b1 = []" by (simp add: u1)
    with short b1 obtain s' where "?r = (Inr (), s')" "dg_inv s'" "dg_msgs s' = dg_msgs s"
        "dg_pending s' = dg_msg_bytes m'" "\<not> buffer_is_valid (dg_buffer s')"
      using dg_finish_partial [OF s1, of m'] by (auto simp: dg_msgs_def)
    then show ?thesis using short u0 by (simp add: dg_step_spec_def w hdr_def)
  next
    case invalid
    note hdr = invalid [folded hdr_def]
    then have "?r = (Inl (RuntimeError ''Not a valid message''), s\<lparr>dg_buffer := ?b1\<rparr>)" by simp
    then show ?thesis
      unfolding w using hdr s(2) s1 by (simp add: dg_step_spec_def dg_msgs_def dg_pending_def)
  next
    case (full m')
    then have "4 < unat (dm_length m')"
      using frame_length_msg_bytes [of m' "[]"] by simp
    with full have "dg_step_spec (dg_msg_bytes m' @ unread ?b1) (dg_msgs s) (dg_after_header m' ?b1 s)"
      using s(1,2) b1 by (intro dg_after_header_spec) simp_all
    with full [folded hdr_def] show ?thesis unfolding w by simp
  qed
qed

lemma dg_process_buffer_spec:
  assumes s: "dg_inv s" "buffer_is_valid (dg_buffer s)"
  shows "dg_step_spec (dg_pending s @ unread (dg_buffer s)) (dg_msgs s) (dg_process_buffer s)"
proof -
  obtain m s1 where tc: "dg_take_current s = (m, s1)" and m: "dg_msg_inv m"
    and mb: "dg_msg_bytes m = dg_pending s" and s1: "dg_inv s1" "\<not> dg_has_current_message s1"
    and ms: "dg_messages s1 = dg_messages s" and buf: "dg_buffer s1 = dg_buffer s"
    and rp: "4 \<le> unat (dm_read_pos m) \<Longrightarrow> unat (dm_read_pos m) < unat (dm_length m)"
    using dg_take_current [OF s(1)] by metis
  have b: "buffer_inv (dg_buffer s)" using s(1) by (simp add: dg_inv_def)
  have msgs: "dg_msgs s1 = dg_msgs s" by (simp add: dg_msgs_def ms)
  show ?thesis
  proof (cases "unat (dm_read_pos m) < 4")
    case True
    then show ?thesis
      using dg_header_spec [OF m True s1] s(2) by (simp add: dg_process_buffer_def tc buf mb msgs)
  next
    case False
    then show ?thesis
      using dg_after_header_spec [OF m _ _ s1 b s(2)] rp
      by (simp add: dg_process_buffer_def dg_read_header_def tc buf mb msgs)
  qed
qed

lemma dg_process_buffer_cases:
  assumes s: "dg_inv s" "buffer_is_valid (dg_buffer s)"
  defines "w \<equiv> dg_pending s @ unread (dg_buffer s)"
  obtains (partial) s' where "length w < 4 \<or> 4 < frame_length w \<and> length w < frame_length w"
      "dg_process_buffer s = (Inr (), s')" "dg_inv s'"
      "dg_msgs s' = dg_msgs s" "dg_pending s' = w" "\<not> buffer_is_valid (dg_buffer s')"
    | (message) s' where "4 < frame_length w" "frame_length w \<le> length w"
      "dg_process_buffer s = (Inr (), s')" "dg_inv s'"
      "dg_msgs s' = dg_msgs s @ [drop 4 (take (frame_length w) w)]" "dg_pending s' = []"
      "unread (dg_buffer s') = drop (frame_length w) w"
      "buffer_is_valid (dg_buffer s') \<longleftrightarrow> drop (frame_length w) w \<noteq> []"
    | (rejected) s' where "4 \<le> length w" "frame_length w \<le> 4"
      "dg_process_buffer s = (Inl (RuntimeError ''Not a valid message''), s')" "dg_inv s'"
      "dg_msgs s' = dg_msgs s" "dg_pending s' = []" "unread (dg_buffer s') = drop 4 w"
  using dg_process_buffer_spec [OF s, folded w_def] that
  by (cases "dg_process_buffer s")
    (auto simp: dg_step_spec_def not_less simp del: drop_append take_append split: if_splits)

section \<open>Consequences\<close>

lemma dg_pending_short:
  assumes "dg_inv s"
  shows "frame_length (dg_pending s @ u) \<le> 4 \<Longrightarrow> length (dg_pending s) < 4"
    and "4 < frame_length (dg_pending s @ u) \<Longrightarrow> length (dg_pending s) < frame_length (dg_pending s @ u)"
  using assms by (cases rule: dg_pending_incomplete; simp)+

text \<open>
  The messages a slicer has delivered or will deliver from what it already holds, and the
  incomplete rest: no call of \<open>process_buffer\<close> changes this view.
\<close>

definition dg_view :: "dg_slicer \<Rightarrow> byte list list \<times> byte list" where
  "dg_view s = (let (ms, r) = parse (dg_pending s @ unread (dg_buffer s)) in (dg_msgs s @ ms, r))"

lemma dg_process_view:
  assumes "dg_inv s" and "buffer_is_valid (dg_buffer s)"
  shows "dg_view (snd (dg_process_buffer s)) = dg_view s"
  using assms
proof (cases rule: dg_process_buffer_cases)
  case (partial s')
  then show ?thesis by (simp add: dg_view_def unread_not_valid)
next
  case (message s')
  let ?w = "dg_pending s @ unread (dg_buffer s)"
  show ?thesis
    using message parse_whole [of ?w] by (simp add: dg_view_def split_beta del: drop_append take_append)
next
  case (rejected s')
  let ?w = "dg_pending s @ unread (dg_buffer s)"
  show ?thesis
    using rejected parse_invalid [of ?w] by (simp add: dg_view_def split_beta del: drop_append)
qed

lemma dg_view_idle:
  "dg_inv s \<Longrightarrow> \<not> buffer_is_valid (dg_buffer s) \<Longrightarrow> dg_view s = (dg_msgs s, dg_pending s)"
  by (erule dg_pending_incomplete)
    (simp_all add: dg_view_def unread_not_valid parse_short parse_partial split_beta)

lemma dg_process_progress:
  assumes s: "dg_inv s" "buffer_is_valid (dg_buffer s)"
  shows "buffer_measure (dg_buffer (snd (dg_process_buffer s))) < buffer_measure (dg_buffer s)"
  using s
proof (cases rule: dg_process_buffer_cases)
  case (partial s')
  then show ?thesis using s(2) by (simp add: buffer_measure_def)
next
  case (message s')
  then show ?thesis
    using s(2) dg_pending_short(2) [OF s(1), of "unread (dg_buffer s)"]
    by (auto simp: buffer_measure_def)
next
  case (rejected s')
  then show ?thesis
    using s(2) dg_pending_short(1) [OF s(1), of "unread (dg_buffer s)"]
    by (auto simp: buffer_measure_def)
qed

lemma dg_process_bytes:
  assumes s: "dg_inv s" "buffer_is_valid (dg_buffer s)" and ok: "dg_process_buffer s = (Inr (), s')"
  shows "concat (map frame (dg_msgs s')) @ dg_pending s' @ unread (dg_buffer s') =
         concat (map frame (dg_msgs s)) @ dg_pending s @ unread (dg_buffer s)"
  using s
proof (cases rule: dg_process_buffer_cases)
  case (partial s'')
  then show ?thesis using ok by (simp add: unread_not_valid)
next
  case (message s'')
  let ?w = "dg_pending s @ unread (dg_buffer s)"
  have "frame (drop 4 (take (frame_length ?w) ?w)) @ drop (frame_length ?w) ?w = ?w"
    using frame_of_prefix [OF message(1,2)] by (simp only: append_take_drop_id)
  then show ?thesis using ok message by (simp del: drop_append take_append)
qed (use ok in simp)

lemma dg_get_message_Cons:
  assumes "dg_inv s" and "dg_msgs s = m # ms"
  shows "\<exists>s'. dg_get_message s = (Some \<lparr>mi_data = m, mi_length = of_nat (length m)\<rparr>, s') \<and>
    dg_inv s' \<and> dg_msgs s' = ms \<and> dg_pending s' = dg_pending s \<and> dg_buffer s' = dg_buffer s"
proof -
  obtain it rest where it: "dg_messages s = it # rest" "dg_payload it = m" "map dg_payload rest = ms"
    using assms(2) by (auto simp: dg_msgs_def)
  obtain d where d: "dm_data it = Some d" "length d + 4 = unat (dm_length it)"
    using assms(1) it by (auto simp: dg_inv_def dg_msg_inv_def)
  have "unat (dm_length it - HEADER_SIZE) = length d"
    using d by (subst unat_sub_small) simp_all
  then have "dm_length it - HEADER_SIZE = of_nat (length d)" by (metis word_unat_eq_iff unat_of_nat_small32 unat_u32_bound)
  moreover have "dg_inv (s\<lparr>dg_messages := rest\<rparr>)" using assms(1) it by (auto simp: dg_inv_def)
  ultimately show ?thesis
    using it d by (auto simp: dg_get_message_def dg_payload_def dg_msgs_def dg_pending_def)
qed

section \<open>The contract holds\<close>

interpretation dg: slicer_contract dg_buffer dg_set_buffer dg_process_buffer dg_has_messages
  dg_get_message dg_inv dg_msgs dg_pending frame
proof
  fix s s' :: dg_slicer and e
  assume s: "dg_inv s" "buffer_is_valid (dg_buffer s)"
  then show "dg_inv (snd (dg_process_buffer s))"
    by (cases rule: dg_process_buffer_cases) simp_all
  show "buffer_measure (dg_buffer (snd (dg_process_buffer s))) < buffer_measure (dg_buffer s)"
    using s by (rule dg_process_progress)
  assume "dg_process_buffer s = (Inl e, s')"
  with s show "\<exists>txt. e = RuntimeError txt"
    by (cases rule: dg_process_buffer_cases) auto
next
  fix s s' :: dg_slicer
  assume "dg_inv s" "buffer_is_valid (dg_buffer s)" "dg_process_buffer s = (Inr (), s')"
  then show "concat (map frame (dg_msgs s')) @ dg_pending s' @ unread (dg_buffer s') =
      concat (map frame (dg_msgs s)) @ dg_pending s @ unread (dg_buffer s)"
    by (rule dg_process_bytes)
next
  fix s m ms
  assume "dg_inv s" "dg_msgs s = m # ms"
  then show "\<exists>s'. dg_get_message s = (Some \<lparr>mi_data = m, mi_length = of_nat (length m)\<rparr>, s') \<and>
      dg_inv s' \<and> dg_msgs s' = ms \<and> dg_pending s' = dg_pending s \<and> dg_buffer s' = dg_buffer s"
    by (rule dg_get_message_Cons)
qed (auto simp: dg_inv_def buffer_fresh_def dg_set_buffer_def dg_msgs_def dg_pending_def dg_has_messages_def
       dg_get_message_def)

text \<open>A new slicer with a loaded buffer, the state in which the first call finds it.\<close>

definition dg_loaded :: "byte list \<Rightarrow> dg_slicer" where
  "dg_loaded bs = dg_set_buffer (buffer_fill bs (dg_buffer dg_new)) dg_new"

lemma dg_inv_new [simp]: "dg_inv dg_new"
  by (simp add: dg_inv_def dg_new_def)

lemma dg_loaded:
  assumes "bs \<noteq> []" and "length bs \<le> MAX_SIZE"
  shows "dg_inv (dg_loaded bs)" and "buffer_is_valid (dg_buffer (dg_loaded bs))"
    and "dg_view (dg_loaded bs) = parse bs"
proof -
  have b: "dg_buffer dg_new = buffer_new" by (simp add: dg_new_def)
  have v: "\<not> buffer_is_valid (dg_buffer dg_new)" unfolding b by (simp add: buffer_defs)
  note fill = dg.fill_buffer [OF dg_inv_new v assms]
  then show "dg_inv (dg_loaded bs)" "buffer_is_valid (dg_buffer (dg_loaded bs))"
    by (simp_all add: dg_loaded_def)
  have "dg_msgs dg_new = []" "dg_pending dg_new = []"
    by (simp_all add: dg_msgs_def dg_pending_def dg_new_def)
  with fill show "dg_view (dg_loaded bs) = parse bs"
    by (simp add: dg_view_def dg_loaded_def)
qed

section \<open>The sender's side\<close>

lemma length_realloc [simp]: "length (realloc xs n) = n"
  by (simp add: realloc_def)

lemma dg_prepare_message_raw_ok:
  assumes "unat len + 4 < 2 ^ 32" and "unat len \<le> length cptr"
  shows "dg_prepare_message_raw cptr len = Inr (frame (take (unat len) cptr), len + 4)"
proof -
  let ?n = "unat len" and ?p = "take (unat len) cptr"
  have n4: "unat (len + 4) = ?n + 4"
    using assms(1) by (subst unat_add_small32) simp_all
  let ?c = "realloc cptr (?n + 4)"
  have c: "length ?c = ?n + 4" "take ?n ?c = ?p"
    using assms(2) by (simp_all add: realloc_def min_def)
  have rd: "mem_read ?c 0 ?n = Some ?p" using c by (simp add: mem_read_def)
  have w1: "mem_write ?c 4 ?p = Some (take 4 ?c @ ?p)"
    using c assms(2) by (simp add: mem_write_def)
  have "length (take 4 ?c) = 4" using c by simp
  then have w2: "mem_write (take 4 ?c @ ?p) 0 (le_bytes (len + 4)) = Some (le_bytes (len + 4) @ ?p)"
    by (simp add: mem_write_def)
  have "(of_nat (length ?p + 4) :: u32) = len + 4"
    using assms(2) by (simp add: min_def)
  then show ?thesis
    using rd w1 w2 by (simp add: dg_prepare_message_raw_def n4 frame_def Let_def)
qed

lemma dg_prepare_message_raw_overflow:
  assumes "2 ^ 32 \<le> unat len + 4"
  shows "dg_prepare_message_raw cptr len = Inl MemoryFault"
proof -
  have "unat (len + 4) = unat len + 4 - 2 ^ 32"
    using assms unat_u32_bound [of len] by (simp add: unat_word_ariths mod_if)
  then have "unat (len + 4) < unat len"
    using assms unat_u32_bound [of len] by simp
  then show ?thesis by (simp add: dg_prepare_message_raw_def mem_read_def Let_def)
qed

section \<open>Properties\<close>





text \<open>
  \<open>prepare_message_raw\<close> turns the first \<open>len\<close> bytes of the caller's array into the frame of that
  payload and increases the length by the header, as long as payload and header fit 32 bits.
\<close>

theorem dg_prepare_message_frames:
  assumes "unat len + 4 < 2 ^ 32" and "unat len \<le> length cptr"
  shows "dg_prepare_message_raw cptr len = Inr (frame (take (unat len) cptr), len + 4)"
  using assms by (rule dg_prepare_message_raw_ok)

theorem dg_prepare_message_frames_witness:
  "dg_prepare_message_raw [1, 2, 3] 2 = Inr ([6, 0, 0, 0, 1, 2], 6)"
  using dg_prepare_message_frames [of 2 "[1, 2, 3]"] by (simp add: frame_def le_bytes_def)

text \<open>
  C33. A payload of at least \<open>2 ^ 32 - 4\<close> bytes makes the 32-bit length of
  \<open>prepare_message_raw\<close> wrap around: the array is reallocated to fewer bytes than the payload
  has and the following copy leaves it.
\<close>

theorem dg_prepare_message_wraps:
  assumes "2 ^ 32 \<le> unat len + 4"
  shows "dg_prepare_message_raw cptr len = Inl MemoryFault"
  using assms by (rule dg_prepare_message_raw_overflow)

theorem dg_prepare_message_wraps_witness:
  "dg_prepare_message_raw [1, 2, 3] 4294967295 = Inl MemoryFault"
  by (rule dg_prepare_message_wraps) simp

end
