(* ===== verification/Stream_Slicer.thy ===== *)
theory Stream_Slicer
  imports Message_Slicer
begin

text \<open>
  \<open>StreamMessageSlicer\<close> (\<open>src/network/StreamMessageSlicer.h\<close>): the slicer that hands every
  loaded buffer out as one message.
\<close>

section \<open>State and operations\<close>

record st_slicer =
  st_messages :: "message_in_t list"
  st_buffer :: buffer_t

definition st_new :: st_slicer where
  "st_new = \<lparr>st_messages = [], st_buffer = buffer_new\<rparr>"

definition st_has_messages :: "st_slicer \<Rightarrow> bool" where
  "st_has_messages s \<longleftrightarrow> st_messages s \<noteq> []"

definition st_prepare_message_raw :: "byte list \<Rightarrow> u32 \<Rightarrow> error + (byte list \<times> u32)" where
  "st_prepare_message_raw cptr len = Inr (cptr, len)"

definition st_prepare_message :: "byte list \<Rightarrow> u32 \<Rightarrow> error + (byte list \<times> u32)" where
  "st_prepare_message ptr len = Inr (ptr, len)"

definition st_get_message :: "st_slicer \<Rightarrow> message_in_t option \<times> st_slicer" where
  "st_get_message s =
     (case st_messages s of
        [] \<Rightarrow> (None, s)
      | it # rest \<Rightarrow> (Some \<lparr>mi_data = mi_data it, mi_length = mi_length it\<rparr>, s\<lparr>st_messages := rest\<rparr>))"

definition st_process_buffer :: "st_slicer \<Rightarrow> (st_slicer, unit) outcome" where
  "st_process_buffer s =
     (if buffer_is_empty (st_buffer s) then (Inr (), s)
      else let len = buffer_size (st_buffer s) in
        case mem_read (buffer_data (st_buffer s)) 0 (unat len) of
          None \<Rightarrow> (Inl MemoryFault, s)
        | Some d \<Rightarrow>
          (Inr (), s\<lparr>st_messages := st_messages s @ [\<lparr>mi_data = d, mi_length = len\<rparr>],
                    st_buffer := buffer_reset (st_buffer s)\<rparr>))"

section \<open>Invariant and abstraction\<close>

text \<open>
  The slicer reads the buffer from its start and ignores the read position, so it relies on
  the position being 0 whenever the buffer is loaded.
\<close>

definition st_inv :: "st_slicer \<Rightarrow> bool" where
  "st_inv s \<longleftrightarrow> buffer_fresh (st_buffer s) \<and>
     (\<forall>m \<in> set (st_messages s). mi_length m = of_nat (length (mi_data m)))"

definition st_msgs :: "st_slicer \<Rightarrow> byte list list" where
  "st_msgs s = map mi_data (st_messages s)"

definition st_set_buffer :: "buffer_t \<Rightarrow> st_slicer \<Rightarrow> st_slicer" where
  "st_set_buffer b s = s\<lparr>st_buffer := b\<rparr>"

lemma st_process_buffer:
  assumes "st_inv s" and "buffer_is_valid (st_buffer s)"
  shows "st_process_buffer s =
    (Inr (), s\<lparr>st_messages := st_messages s @ [\<lparr>mi_data = unread (st_buffer s), mi_length = of_nat (length (unread (st_buffer s)))\<rparr>],
               st_buffer := buffer_reset (st_buffer s)\<rparr>)"
proof -
  let ?b = "st_buffer s"
  have b: "buffer_inv ?b" and pos: "m_position ?b = 0"
    using assms by (simp_all add: st_inv_def buffer_fresh_def)
  have sz: "length (unread ?b) = unat (m_size ?b)"
    using length_unread [OF b assms(2)] pos by simp
  have le: "unat (m_size ?b) \<le> length (m_data ?b)"
    using buffer_valid_bounds(2) [OF b assms(2)] b by (simp add: buffer_inv_def MAX_SIZE_def)
  have "mem_read (m_data ?b) 0 (unat (m_size ?b)) = Some (unread ?b)"
    using le assms(2) pos by (simp add: mem_read_def unread_def buffer_is_valid_iff)
  then show ?thesis
    using assms(2) sz by (simp add: st_process_buffer_def buffer_size_def buffer_data_def Let_def)
qed

section \<open>The contract holds\<close>

interpretation st: slicer_contract st_buffer st_set_buffer st_process_buffer st_has_messages
  st_get_message st_inv st_msgs "\<lambda>_. []" "\<lambda>m. m"
proof
  fix s s' :: st_slicer and e
  assume s: "st_inv s" "buffer_is_valid (st_buffer s)"
  note eq = st_process_buffer [OF s]
  show "st_inv (snd (st_process_buffer s))"
    using s(1) unfolding eq by (auto simp: st_inv_def buffer_fresh_def buffer_inv_reset)
  show "buffer_measure (st_buffer (snd (st_process_buffer s))) < buffer_measure (st_buffer s)"
    using s(2) unfolding eq by (simp add: buffer_measure_def)
  show "\<exists>txt. e = RuntimeError txt" if "st_process_buffer s = (Inl e, s')"
    using that by (simp add: eq)
  show "concat (map (\<lambda>m. m) (st_msgs s')) @ [] @ unread (st_buffer s') =
      concat (map (\<lambda>m. m) (st_msgs s)) @ [] @ unread (st_buffer s)"
    if "st_process_buffer s = (Inr (), s')"
    using that by (auto simp: eq st_msgs_def)
next
  fix s m ms
  assume "st_inv s" "st_msgs s = m # ms"
  then obtain it rest where "st_messages s = it # rest" "mi_data it = m" "map mi_data rest = ms"
    "mi_length it = of_nat (length m)" by (auto simp: st_msgs_def st_inv_def)
  with \<open>st_inv s\<close>
  show "\<exists>s'. st_get_message s = (Some \<lparr>mi_data = m, mi_length = of_nat (length m)\<rparr>, s') \<and>
      st_inv s' \<and> st_msgs s' = ms \<and> [] = [] \<and> st_buffer s' = st_buffer s"
    by (auto simp: st_get_message_def st_inv_def st_msgs_def)
qed (auto simp: st_inv_def buffer_fresh_def st_set_buffer_def st_msgs_def st_has_messages_def
       st_get_message_def)

end
