(* ===== verification/Slicer.thy ===== *)
theory Slicer
  imports Datagram_Slicer Stream_Slicer
begin

text \<open>
  The \<open>std::unique_ptr<MessageSlicer>\<close> that a socket owns: one of the two slicers, chosen by
  the message mode, with the virtual calls as case distinctions.  The dispatched operations
  fulfil the contract of the interface in either mode.
\<close>

datatype slicer = DatagramSlicer dg_slicer | StreamSlicer st_slicer

fun make_slicer :: "MessageMode \<Rightarrow> slicer" where
  "make_slicer Datagram = DatagramSlicer dg_new"
| "make_slicer Stream = StreamSlicer st_new"

fun slicer_type :: "slicer \<Rightarrow> MessageMode" where
  "slicer_type (DatagramSlicer s) = Datagram"
| "slicer_type (StreamSlicer s) = Stream"

fun slicer_buffer :: "slicer \<Rightarrow> buffer_t" where
  "slicer_buffer (DatagramSlicer s) = dg_buffer s"
| "slicer_buffer (StreamSlicer s) = st_buffer s"

fun slicer_set_buffer :: "buffer_t \<Rightarrow> slicer \<Rightarrow> slicer" where
  "slicer_set_buffer b (DatagramSlicer s) = DatagramSlicer (dg_set_buffer b s)"
| "slicer_set_buffer b (StreamSlicer s) = StreamSlicer (st_set_buffer b s)"

fun slicer_has_messages :: "slicer \<Rightarrow> bool" where
  "slicer_has_messages (DatagramSlicer s) = dg_has_messages s"
| "slicer_has_messages (StreamSlicer s) = st_has_messages s"

fun slicer_prepare_message :: "slicer \<Rightarrow> byte list \<Rightarrow> u32 \<Rightarrow> error + (byte list \<times> u32)" where
  "slicer_prepare_message (DatagramSlicer s) ptr len = dg_prepare_message ptr len"
| "slicer_prepare_message (StreamSlicer s) ptr len = st_prepare_message ptr len"

fun slicer_process_buffer :: "slicer \<Rightarrow> (slicer, unit) outcome" where
  "slicer_process_buffer (DatagramSlicer s) = map_prod id DatagramSlicer (dg_process_buffer s)"
| "slicer_process_buffer (StreamSlicer s) = map_prod id StreamSlicer (st_process_buffer s)"

fun slicer_get_message :: "slicer \<Rightarrow> message_in_t option \<times> slicer" where
  "slicer_get_message (DatagramSlicer s) = map_prod id DatagramSlicer (dg_get_message s)"
| "slicer_get_message (StreamSlicer s) = map_prod id StreamSlicer (st_get_message s)"

section \<open>Invariant and abstraction\<close>

fun slicer_inv :: "MessageMode \<Rightarrow> slicer \<Rightarrow> bool" where
  "slicer_inv mode (DatagramSlicer s) \<longleftrightarrow> mode = Datagram \<and> dg_inv s"
| "slicer_inv mode (StreamSlicer s) \<longleftrightarrow> mode = Stream \<and> st_inv s"

fun slicer_msgs :: "slicer \<Rightarrow> byte list list" where
  "slicer_msgs (DatagramSlicer s) = dg_msgs s"
| "slicer_msgs (StreamSlicer s) = st_msgs s"

fun slicer_pending :: "slicer \<Rightarrow> byte list" where
  "slicer_pending (DatagramSlicer s) = dg_pending s"
| "slicer_pending (StreamSlicer s) = []"

fun wire_of :: "MessageMode \<Rightarrow> byte list \<Rightarrow> byte list" where
  "wire_of Datagram m = frame m"
| "wire_of Stream m = m"

lemma wire_of_eq: "wire_of Datagram = frame" "wire_of Stream = (\<lambda>m. m)"
  by (simp_all add: fun_eq_iff)

lemma st_inv_new [simp]: "st_inv st_new"
  by (simp add: st_inv_def st_new_def buffer_fresh_new)

lemma make_slicer [simp]:
  "slicer_inv mode (make_slicer mode)" "slicer_msgs (make_slicer mode) = []"
  "slicer_pending (make_slicer mode) = []" "slicer_type (make_slicer mode) = mode"
  "slicer_buffer (make_slicer mode) = buffer_new"
  by (cases mode; simp add: dg_msgs_def st_msgs_def dg_pending_def; simp add: dg_new_def st_new_def)+

lemma slicer_inv_type: "slicer_inv mode s \<Longrightarrow> slicer_type s = mode"
  by (cases s) simp_all

text \<open>Every slicer in use is one of the two, so its contract is that of the slicer it holds.\<close>

interpretation sl: slicer_contract slicer_buffer slicer_set_buffer slicer_process_buffer
  slicer_has_messages slicer_get_message "slicer_inv mode" slicer_msgs slicer_pending "wire_of mode"
  for mode :: MessageMode
proof
  fix s :: slicer and m ms
  assume "slicer_inv mode s" "slicer_msgs s = m # ms"
  then show "\<exists>s'. slicer_get_message s = (Some \<lparr>mi_data = m, mi_length = of_nat (length m)\<rparr>, s') \<and>
      slicer_inv mode s' \<and> slicer_msgs s' = ms \<and> slicer_pending s' = slicer_pending s \<and>
      slicer_buffer s' = slicer_buffer s"
    using dg.get_message_Cons [of _ m ms] st.get_message_Cons [of _ m ms]
    by (cases s) (simp_all, force+)
next
  fix s s' :: slicer
  assume s: "slicer_inv mode s" "buffer_is_valid (slicer_buffer s)"
    and ok: "slicer_process_buffer s = (Inr (), s')"
  show "concat (map (wire_of mode) (slicer_msgs s')) @ slicer_pending s' @ unread (slicer_buffer s') =
      concat (map (wire_of mode) (slicer_msgs s)) @ slicer_pending s @ unread (slicer_buffer s)"
  proof (cases s)
    case (DatagramSlicer d)
    then obtain d' where "dg_process_buffer d = (Inr (), d')" "s' = DatagramSlicer d'"
      using ok by (cases "dg_process_buffer d") auto
    then show ?thesis using s DatagramSlicer dg.process_bytes by (simp add: wire_of_eq)
  next
    case (StreamSlicer t)
    then obtain t' where "st_process_buffer t = (Inr (), t')" "s' = StreamSlicer t'"
      using ok by (cases "st_process_buffer t") auto
    then show ?thesis using s StreamSlicer st.process_bytes [of t t'] by (simp add: wire_of_eq)
  qed
next
  fix s s' :: slicer and e
  assume s: "slicer_inv mode s" "buffer_is_valid (slicer_buffer s)"
  show "slicer_inv mode (snd (slicer_process_buffer s))"
    using s dg.process_inv st.process_inv by (cases s) simp_all
  show "buffer_measure (slicer_buffer (snd (slicer_process_buffer s))) < buffer_measure (slicer_buffer s)"
    using s dg.process_progress st.process_progress by (cases s) simp_all
  show "\<exists>txt. e = RuntimeError txt" if "slicer_process_buffer s = (Inl e, s')"
    using s that dg.process_error [of _ e] st.process_error [of _ e]
    by (cases s) (simp_all add: map_prod_def split: prod.splits)
next
  fix s :: slicer and b
  assume s: "slicer_inv mode s"
  show "buffer_inv (slicer_buffer s)" using s dg.buffer_ok st.buffer_ok by (cases s) simp_all
  show "slicer_inv mode (slicer_set_buffer b s)" if "buffer_fresh b"
    using s that dg.inv_set_buffer st.inv_set_buffer by (cases s) simp_all
  show "slicer_has_messages s \<longleftrightarrow> slicer_msgs s \<noteq> []"
    using s dg.has_messages_iff st.has_messages_iff by (cases s) simp_all
  show "slicer_get_message s = (None, s)" if "slicer_msgs s = []"
    using s that dg.get_message_Nil st.get_message_Nil by (cases s) simp_all
next
  fix s :: slicer and b
  show "slicer_buffer (slicer_set_buffer b s) = b" "slicer_msgs (slicer_set_buffer b s) = slicer_msgs s"
    "slicer_pending (slicer_set_buffer b s) = slicer_pending s"
    using dg.buffer_set_buffer dg.msgs_set_buffer dg.pending_set_buffer
      st.buffer_set_buffer st.msgs_set_buffer by (cases s; simp)+
qed

section \<open>The abstract stream position\<close>

text \<open>
  What a slicer in datagram mode has delivered or will deliver from what it holds, and the rest.
\<close>

fun slicer_view :: "slicer \<Rightarrow> byte list list \<times> byte list" where
  "slicer_view (DatagramSlicer s) = dg_view s"
| "slicer_view (StreamSlicer s) = (st_msgs s, unread (st_buffer s))"

lemma slicer_view_process:
  "slicer_inv Datagram s \<Longrightarrow> buffer_is_valid (slicer_buffer s) \<Longrightarrow>
   slicer_view (snd (slicer_process_buffer s)) = slicer_view s"
  by (cases s) (simp_all add: dg_process_view)

lemma slicer_view_idle:
  "slicer_inv Datagram s \<Longrightarrow> \<not> buffer_is_valid (slicer_buffer s) \<Longrightarrow>
   slicer_view s = (slicer_msgs s, slicer_pending s)"
  by (cases s) (simp_all add: dg_view_idle)

lemma slicer_view_fill:
  assumes "slicer_inv Datagram s" and "\<not> buffer_is_valid (slicer_buffer s)"
    and "bs \<noteq> []" and "length bs \<le> MAX_SIZE"
  shows "slicer_view (slicer_set_buffer (buffer_fill bs (slicer_buffer s)) s) =
    (slicer_msgs s @ fst (parse (slicer_pending s @ bs)), snd (parse (slicer_pending s @ bs)))"
  using assms sl.fill_buffer [OF assms]
  by (cases s) (simp_all add: dg_view_def split_beta)

lemma slicer_pending_parse:
  assumes "slicer_inv Datagram s"
  shows "parse (slicer_pending s) = ([], slicer_pending s)"
  using assms
proof (cases s)
  case (DatagramSlicer d)
  with assms have "dg_inv d" by simp
  then show ?thesis
    using DatagramSlicer by (cases rule: dg_pending_incomplete) (simp_all add: parse_short parse_partial)
qed simp

lemma slicer_prepare_message:
  assumes "slicer_inv mode s" and "unat len + 4 < 2 ^ 32" and "length ptr = unat len"
  shows "slicer_prepare_message s ptr len =
    Inr (wire_of mode ptr, of_nat (length (wire_of mode ptr)))"
  using assms dg_prepare_message_raw_ok [of len ptr]
  by (cases s) (auto simp: dg_prepare_message_def st_prepare_message_def add.commute)

end
