(* ===== verification/Tcp_Socket.thy ===== *)
theory Tcp_Socket
  imports System Slicer
begin

text \<open>
  \<open>TcpSocket\<close> (\<open>include/yael/network/TcpSocket.h\<close>, \<open>src/network/TcpSocket.cpp\<close>): the state of a
  socket and its operations, in the order of the source.  A method runs to completion here; the
  locks it takes are not part of the state.  The field \<open>trace\<close> is the history of the system calls
  of this socket, the argument of the kernel's answers.

  \<open>close\<close> is virtual, and \<open>TcpSocket\<close> calls it from \<open>connect\<close>, \<open>internal_accept\<close>, \<open>receive_data\<close>
  and \<open>do_send\<close>; the same holds for the buffer that \<open>receive_data\<close> gets by reference.  The bodies
  therefore take the closing routine and the accessors of the buffer as arguments.
\<close>

section \<open>State\<close>

datatype tcp_state = Listening | Connected | Shutdown | Closed | Unknown

record message_out =
  mo_length :: u32
  mo_sent_pos :: u32
  mo_is_shared :: bool
  mo_data :: "byte list"

record tcp_socket =
  m_port :: u16
  m_is_ipv6 :: bool
  m_fd :: int
  m_remote_address :: Address
  m_slicer :: slicer
  m_send_queue :: "message_out list"
  m_current_message :: "message_out option"
  m_state :: tcp_state
  m_max_send_queue_size :: u64
  m_send_queue_size :: u64
  trace :: history

type_synonym 's closer = "bool \<Rightarrow> 's \<Rightarrow> ('s, bool) outcome"

definition DEFAULT_MAX_SEND_QUEUE_SIZE :: u64 where
  "DEFAULT_MAX_SEND_QUEUE_SIZE = 1024 * 1024"

definition sys :: "sysevent \<Rightarrow> 'a tcp_socket_scheme \<Rightarrow> 'a tcp_socket_scheme" where
  "sys e s = s\<lparr>trace := trace s @ [e]\<rparr>"

definition message_out_unique :: "byte list \<Rightarrow> u32 \<Rightarrow> message_out" where
  "message_out_unique data len =
     \<lparr>mo_length = len, mo_sent_pos = 0, mo_is_shared = False, mo_data = data\<rparr>"

definition message_out_shared :: "byte list \<Rightarrow> u32 \<Rightarrow> message_out" where
  "message_out_shared data len =
     \<lparr>mo_length = len, mo_sent_pos = 0, mo_is_shared = True, mo_data = data\<rparr>"

section \<open>Queries\<close>

definition tcp_is_valid :: "'a tcp_socket_scheme \<Rightarrow> bool" where
  "tcp_is_valid s \<longleftrightarrow> m_fd s > 0"

definition tcp_is_connected :: "'a tcp_socket_scheme \<Rightarrow> bool" where
  "tcp_is_connected s \<longleftrightarrow> m_state s = Connected"

definition tcp_is_listening :: "'a tcp_socket_scheme \<Rightarrow> bool" where
  "tcp_is_listening s \<longleftrightarrow> m_state s = Listening"

definition tcp_get_fileno :: "'a tcp_socket_scheme \<Rightarrow> int" where
  "tcp_get_fileno s = m_fd s"

definition tcp_has_messages :: "'a tcp_socket_scheme \<Rightarrow> bool" where
  "tcp_has_messages s \<longleftrightarrow> slicer_has_messages (m_slicer s)"

definition tcp_get_remote_address :: "'a tcp_socket_scheme \<Rightarrow> Address" where
  "tcp_get_remote_address s = m_remote_address s"

definition tcp_wait_connection_established :: "'a tcp_socket_scheme \<Rightarrow> bool" where
  "tcp_wait_connection_established s \<longleftrightarrow> tcp_is_connected s"

definition tcp_port :: "'a tcp_socket_scheme \<Rightarrow> error + u16" where
  "tcp_port s =
     (if \<not> tcp_is_valid s then Inl (SocketError ''Cannot get port of non-existent socket'')
      else Inr (m_port s))"

section \<open>Construction and addresses\<close>

definition tcp_new :: "MessageMode \<Rightarrow> u64 \<Rightarrow> tcp_socket" where
  "tcp_new mode max_send_queue_size =
     \<lparr>m_port = 0, m_is_ipv6 = False, m_fd = -1, m_remote_address = address_new,
      m_slicer = make_slicer mode, m_send_queue = [], m_current_message = None,
      m_state = Unknown, m_max_send_queue_size = max_send_queue_size, m_send_queue_size = 0,
      trace = []\<rparr>"

definition tcp_update_port_number :: "os \<Rightarrow> 'a tcp_socket_scheme \<Rightarrow> 'a tcp_socket_scheme" where
  "tcp_update_port_number os s = s\<lparr>m_port := htons (os_getsockname_port os (trace s) (m_fd s))\<rparr>"

text \<open>
  A failed \<open>getpeername\<close> resets the address and falls through to the conversion of the
  uninitialised structure; a failed \<open>inet_ntop\<close> leaves the text uninitialised.
\<close>

definition tcp_calculate_remote_address ::
    "os \<Rightarrow> inet \<Rightarrow> 'a tcp_socket_scheme \<Rightarrow> 'a tcp_socket_scheme" where
  "tcp_calculate_remote_address os net s =
     (let peer = os_getpeername os (trace s) (m_fd s);
          junk = os_stack_junk os (trace s);
          s = (case peer of None \<Rightarrow> s\<lparr>m_remote_address := address_reset (m_remote_address s)\<rparr>
               | Some _ \<Rightarrow> s);
          sin = (case peer of None \<Rightarrow> fst junk | Some sin \<Rightarrow> sin);
          ipstring = (case inet_ntop4 net (sin_addr sin) 16 of None \<Rightarrow> snd junk | Some ip \<Rightarrow> ip);
          port = htons (sin_port sin)
      in s\<lparr>m_remote_address := (m_remote_address s)\<lparr>IP := ipstring, PortNumber := port\<rparr>\<rparr>)"

definition tcp_set_nonblock :: "bool \<Rightarrow> 'a tcp_socket_scheme \<Rightarrow> 'a tcp_socket_scheme" where
  "tcp_set_nonblock flag s = sys (SysSetNonblock (m_fd s) flag) s"

definition tcp_new_child :: "os \<Rightarrow> inet \<Rightarrow> MessageMode \<Rightarrow> int \<Rightarrow> u64 \<Rightarrow> tcp_socket" where
  "tcp_new_child os net mode fd max_send_queue_size =
     (let s = (tcp_new mode max_send_queue_size)\<lparr>m_fd := fd\<rparr>;
          s = tcp_set_nonblock True s;
          s = tcp_update_port_number os s;
          s = tcp_calculate_remote_address os net s
      in s\<lparr>m_state := Connected\<rparr>)"

definition tcp_create_fd :: "os \<Rightarrow> 'a tcp_socket_scheme \<Rightarrow> bool \<times> 'a tcp_socket_scheme" where
  "tcp_create_fd os s =
     (let fd = os_socket os (trace s) (m_is_ipv6 s);
          s = sys (SysSocket (m_is_ipv6 s) fd) (s\<lparr>m_fd := fd\<rparr>)
      in if \<not> tcp_is_valid s then (False, s)
         else (True, sys (SysSetsockopt (m_fd s) ''TCP_NODELAY'') s))"

text \<open>The socket address that \<open>bind\<close> and \<open>connect\<close> pass, filled in by the \<open>Address\<close>.\<close>

definition tcp_sock_address :: "inet \<Rightarrow> bool \<Rightarrow> Address \<Rightarrow> sockaddr" where
  "tcp_sock_address net v6 address =
     (if v6 then SA6 (snd (get_sock_address6 net address \<lparr>sin6_addr = None, sin6_port = 0\<rparr>))
      else SA4 (snd (get_sock_address net address \<lparr>sin_addr = None, sin_port = 0\<rparr>)))"

definition tcp_bind_socket ::
    "os \<Rightarrow> inet \<Rightarrow> Address \<Rightarrow> 'a tcp_socket_scheme \<Rightarrow> bool \<times> 'a tcp_socket_scheme" where
  "tcp_bind_socket os net address s =
     (case tcp_create_fd os (s\<lparr>m_is_ipv6 := IPv6 address\<rparr>) of (ok, s) \<Rightarrow>
      if \<not> ok then (False, s)
      else
        let s = sys (SysSetsockopt (m_fd s) ''SO_REUSEADDR'') s;
            sock_addr = tcp_sock_address net (m_is_ipv6 s) address;
            res = os_bind os (trace s) (m_fd s) sock_addr;
            s = sys (SysBind (m_fd s) sock_addr res) s
        in if res \<noteq> 0 then (False, s) else (True, tcp_update_port_number os s))"

section \<open>Listening and connecting\<close>

definition tcp_listen ::
    "os \<Rightarrow> inet \<Rightarrow> Address \<Rightarrow> u32 \<Rightarrow> 'a tcp_socket_scheme \<Rightarrow> ('a tcp_socket_scheme, bool) outcome" where
  "tcp_listen os net address backlog s =
     (case tcp_bind_socket os net address s of (ok, s) \<Rightarrow>
      if \<not> ok then (Inl (SocketError ''Failed to bind socket!''), s)
      else
        let s = tcp_set_nonblock True s;
            res = os_listen os (trace s) (m_fd s) backlog;
            s = sys (SysListen (m_fd s) backlog res) s
        in if res = 0 then (Inr True, s\<lparr>m_state := Listening\<rparr>) else (Inr False, s))"

text \<open>\<open>Socket::listen\<close> with a host name, which calls the virtual \<open>listen\<close>.\<close>

definition socket_listen ::
    "inet \<Rightarrow> (Address \<Rightarrow> u32 \<Rightarrow> 's \<Rightarrow> ('s, bool) outcome) \<Rightarrow> string \<Rightarrow> u16 \<Rightarrow> u32 \<Rightarrow> 's \<Rightarrow> ('s, bool) outcome" where
  "socket_listen net listen name port queue_len s =
     (case resolve_URL net name port False of
        Inl e \<Rightarrow> (Inl e, s)
      | Inr addr \<Rightarrow> listen addr queue_len s)"

definition tcp_reset_buffer :: "'a tcp_socket_scheme \<Rightarrow> 'a tcp_socket_scheme" where
  "tcp_reset_buffer s =
     s\<lparr>m_slicer := slicer_set_buffer (buffer_reset (slicer_buffer (m_slicer s))) (m_slicer s)\<rparr>"

definition tcp_close :: "os \<Rightarrow> 'a tcp_socket_scheme closer" where
  "tcp_close os fast s =
     (if m_state s = Connected \<and> \<not> fast then
        let s = s\<lparr>m_state := Shutdown\<rparr>;
            i = os_shutdown os (trace s) (m_fd s);
            s = sys (SysShutdown (m_fd s) i) s
        in (case i of
              None \<Rightarrow> (Inr False, s)
            | Some e \<Rightarrow>
              if e = ENOTCONN
              then (Inr True, tcp_reset_buffer (s\<lparr>m_fd := -1, m_state := Closed\<rparr>))
              else (Inl (Fatal ''Socket shutdown() failed''), s))
      else if m_fd s > 0 then
        (Inr True, sys SysNotifyAll
           (tcp_reset_buffer ((sys (SysClose (m_fd s)) (s\<lparr>m_state := Closed\<rparr>))\<lparr>m_fd := -1\<rparr>)))
      else if \<not> (m_state s = Closed \<or> m_state s = Unknown) then (Inl (Fatal ''Invalid state''), s)
      else (Inr True, sys SysNotifyAll s))"

text \<open>A statement \<open>close(...);\<close>: the value is dropped, an abort is not.\<close>

definition close_then :: "'s closer \<Rightarrow> bool \<Rightarrow> 's \<Rightarrow> (error + 'b) \<Rightarrow> ('s, 'b) outcome" where
  "close_then cl fast s r =
     (case cl fast s of (Inl e, s) \<Rightarrow> (Inl e, s) | (Inr _, s) \<Rightarrow> (r, s))"

text \<open>The first part of \<open>connect\<close>, up to the system call.\<close>

definition tcp_connect_prepare ::
    "os \<Rightarrow> inet \<Rightarrow> Address \<Rightarrow> string \<Rightarrow> 'a tcp_socket_scheme \<Rightarrow> ('a tcp_socket_scheme, unit) outcome" where
  "tcp_connect_prepare os net address name s =
     (if name = [] then
        (case tcp_create_fd os (s\<lparr>m_is_ipv6 := IPv6 address\<rparr>) of (ok, s) \<Rightarrow>
           (if ok then Inr () else Inl (SocketError ''strerror''), s))
      else
        (case resolve_URL net name 0 (IPv6 address) of
           Inl e \<Rightarrow> (Inl e, s)
         | Inr my_addr \<Rightarrow>
           (case tcp_bind_socket os net my_addr s of (ok, s) \<Rightarrow>
              (if ok then Inr () else Inl (SocketError ''strerror''), s))))"

definition tcp_connect_with ::
    "os \<Rightarrow> inet \<Rightarrow> 'a tcp_socket_scheme closer \<Rightarrow> Address \<Rightarrow> string \<Rightarrow> 'a tcp_socket_scheme \<Rightarrow>
     ('a tcp_socket_scheme, bool) outcome" where
  "tcp_connect_with os net cl address name s =
     (if PortNumber address = 0 then (Inl (InvalidArgument ''Need to specify a port number''), s)
      else
        case tcp_connect_prepare os net address name s of
          (Inl e, s) \<Rightarrow> (Inl e, s)
        | (Inr _, s) \<Rightarrow>
          let s = tcp_set_nonblock False s;
              sock_addr = tcp_sock_address net (m_is_ipv6 s) address;
              res = os_connect os (trace s) (m_fd s) sock_addr;
              s = sys (SysConnect (m_fd s) sock_addr res) s
          in if res \<noteq> 0 then close_then cl False s (Inr False)
             else
               let s = tcp_set_nonblock True s;
                   s = tcp_calculate_remote_address os net s;
                   s = tcp_update_port_number os s
               in (Inr True, s\<lparr>m_state := Connected\<rparr>))"

definition tcp_connect :: "os \<Rightarrow> inet \<Rightarrow> Address \<Rightarrow> string \<Rightarrow> tcp_socket \<Rightarrow> (tcp_socket, bool) outcome" where
  "tcp_connect os net = tcp_connect_with os net (tcp_close os)"

section \<open>Accepting\<close>

definition tcp_internal_accept ::
    "os \<Rightarrow> 'a tcp_socket_scheme closer \<Rightarrow> 'a tcp_socket_scheme \<Rightarrow> ('a tcp_socket_scheme, int) outcome" where
  "tcp_internal_accept os cl s =
     (let res = os_accept os (trace s) (m_fd s);
          s = sys (SysAccept (m_fd s) res) s
      in case res of
           Inl e \<Rightarrow>
             if e \<noteq> EAGAIN
             then close_then cl False s (Inl (SocketError ''Failed to accept new connection''))
             else (Inr (-1), s)
         | Inr fd \<Rightarrow> (Inr fd, s))"

partial_function (option) tcp_accept_loop ::
    "os \<Rightarrow> inet \<Rightarrow> tcp_socket list \<Rightarrow> tcp_socket \<Rightarrow> (tcp_socket, tcp_socket list) outcome option" where
  "tcp_accept_loop os net res s =
     (case tcp_internal_accept os (tcp_close os) s of
        (Inl e, s) \<Rightarrow> Some (Inl e, s)
      | (Inr fd, s) \<Rightarrow>
        if fd \<ge> 0 then
          tcp_accept_loop os net
            (res @ [tcp_new_child os net (slicer_type (m_slicer s)) fd (m_max_send_queue_size s)]) s
        else Some (Inr res, s))"

definition tcp_accept :: "os \<Rightarrow> inet \<Rightarrow> tcp_socket \<Rightarrow> (tcp_socket, tcp_socket list) outcome option" where
  "tcp_accept os net s =
     (if \<not> tcp_is_listening s
      then Some (Inl (SocketError ''Cannot accept on connected TcpTcpSocket''), s)
      else tcp_accept_loop os net [] s)"

section \<open>Lemmas shared by the two directions\<close>

lemma sys_simps [simp]:
  "trace (sys e s) = trace s @ [e]" "m_fd (sys e s) = m_fd s" "m_slicer (sys e s) = m_slicer s"
  "m_state (sys e s) = m_state s" "m_send_queue (sys e s) = m_send_queue s"
  "m_current_message (sys e s) = m_current_message s"
  "m_send_queue_size (sys e s) = m_send_queue_size s"
  "m_max_send_queue_size (sys e s) = m_max_send_queue_size s"
  "m_remote_address (sys e s) = m_remote_address s" "m_is_ipv6 (sys e s) = m_is_ipv6 s"
  by (simp_all add: sys_def)

text \<open>Closing a valid socket fast always succeeds.\<close>

lemma tcp_close_fast:
  assumes "tcp_is_valid s"
  shows "tcp_close os True s = (Inr True, sys SysNotifyAll
    (tcp_reset_buffer ((sys (SysClose (m_fd s)) (s\<lparr>m_state := Closed\<rparr>))\<lparr>m_fd := -1\<rparr>)))"
  using assms by (simp add: tcp_close_def tcp_is_valid_def)

lemma close_then_fast:
  assumes "tcp_is_valid s"
  shows "close_then (tcp_close os) True s r = (r, sys SysNotifyAll
    (tcp_reset_buffer ((sys (SysClose (m_fd s)) (s\<lparr>m_state := Closed\<rparr>))\<lparr>m_fd := -1\<rparr>)))"
  using assms by (simp add: close_then_def tcp_close_fast)

lemma tcp_reset_buffer_simps [simp]:
  "m_slicer (tcp_reset_buffer s) = slicer_set_buffer (buffer_reset (slicer_buffer (m_slicer s))) (m_slicer s)"
  "trace (tcp_reset_buffer s) = trace s" "m_fd (tcp_reset_buffer s) = m_fd s"
  "m_state (tcp_reset_buffer s) = m_state s" "m_send_queue (tcp_reset_buffer s) = m_send_queue s"
  "m_current_message (tcp_reset_buffer s) = m_current_message s"
  "m_send_queue_size (tcp_reset_buffer s) = m_send_queue_size s"
  "m_max_send_queue_size (tcp_reset_buffer s) = m_max_send_queue_size s"
  by (simp_all add: tcp_reset_buffer_def)

end
