(* ===== verification/Tcp_Receive.thy ===== *)
theory Tcp_Receive
  imports Tcp_Socket
begin

text \<open>
  The receiving half of \<open>TcpSocket\<close>: \<open>receive_data\<close>, \<open>pull_messages\<close> and \<open>receive\<close>.  The loop of
  \<open>pull_messages\<close> ends only when the kernel has no more data, so it is a partial function; the
  lemmas show that it returns whenever the peer's data is finite, and that what it delivers is the
  parse of the bytes received, whatever the sizes in which they arrived.
\<close>

section \<open>Operations\<close>

definition buffer_memset0 :: "buffer_t \<Rightarrow> buffer_t" where
  "buffer_memset0 b = b\<lparr>m_data := new_array MAX_SIZE\<rparr>"

definition tcp_receive_data ::
    "os \<Rightarrow> 'a tcp_socket_scheme closer \<Rightarrow> ('a tcp_socket_scheme \<Rightarrow> buffer_t) \<Rightarrow>
     (buffer_t \<Rightarrow> 'a tcp_socket_scheme \<Rightarrow> 'a tcp_socket_scheme) \<Rightarrow> 'a tcp_socket_scheme \<Rightarrow>
     ('a tcp_socket_scheme, bool) outcome" where
  "tcp_receive_data os cl buf set_buf s =
     (if \<not> tcp_is_valid s then (Inr False, s)
      else if buffer_is_valid (buf s) then
        (Inl (RuntimeError ''TcpSocket::receive_data failed: Still have data queued up in buffer''), s)
      else
        let s = set_buf (buffer_memset0 (buf s)) s;
            x = os_recv os (trace s) (m_fd s) MAX_SIZE;
            s = sys (SysRecv (m_fd s) x) s
        in case x of
             RecvData bs \<Rightarrow>
               if bs \<noteq> [] then (Inr True, set_buf (buffer_fill bs (buf s)) s)
               else close_then cl True s (Inr False)
           | RecvErr e \<Rightarrow>
               (case e of
                  EAGAIN \<Rightarrow> (Inr False, s)
                | ECONNRESET \<Rightarrow> close_then cl True s (Inr False)
                | _ \<Rightarrow> close_then cl True s (Inl (SocketError ''Failed to receive data''))))"

definition tcp_buffer :: "'a tcp_socket_scheme \<Rightarrow> buffer_t" where
  "tcp_buffer s = slicer_buffer (m_slicer s)"

definition tcp_set_buffer :: "buffer_t \<Rightarrow> 'a tcp_socket_scheme \<Rightarrow> 'a tcp_socket_scheme" where
  "tcp_set_buffer b s = s\<lparr>m_slicer := slicer_set_buffer b (m_slicer s)\<rparr>"

text \<open>The \<open>try\<close> block of \<open>pull_messages\<close>: every \<open>std::exception\<close> is logged and ignored.\<close>

definition tcp_try_process :: "tcp_socket \<Rightarrow> (tcp_socket, unit) outcome" where
  "tcp_try_process s =
     (case slicer_process_buffer (m_slicer s) of (r, sl) \<Rightarrow>
        (case r of
           Inl MemoryFault \<Rightarrow> Inl MemoryFault
         | Inl (Fatal msg) \<Rightarrow> Inl (Fatal msg)
         | _ \<Rightarrow> Inr (), s\<lparr>m_slicer := sl\<rparr>))"

partial_function (option) tcp_pull_messages :: "os \<Rightarrow> tcp_socket \<Rightarrow> (tcp_socket, unit) outcome option" where
  "tcp_pull_messages os s =
     (case (if \<not> buffer_is_valid (tcp_buffer s)
            then tcp_receive_data os (tcp_close os) tcp_buffer tcp_set_buffer s
            else (Inr True, s)) of
        (Inl e, s) \<Rightarrow> Some (Inl e, s)
      | (Inr res, s) \<Rightarrow>
        if \<not> res then Some (Inr (), s)
        else (case tcp_try_process s of
                (Inl e, s) \<Rightarrow> Some (Inl e, s)
              | (Inr _, s) \<Rightarrow> tcp_pull_messages os s))"

definition tcp_receive :: "os \<Rightarrow> tcp_socket \<Rightarrow> (tcp_socket, message_in_t option) outcome option" where
  "tcp_receive os s =
     Option.bind (tcp_pull_messages os s) (\<lambda>(r, s). Some
       (case r of
          Inl e \<Rightarrow> (Inl e, s)
        | Inr _ \<Rightarrow>
          if slicer_has_messages (m_slicer s) then
            (case slicer_get_message (m_slicer s) of
               (None, sl) \<Rightarrow> (Inl (SocketError ''failed to get message''), s\<lparr>m_slicer := sl\<rparr>)
             | (Some msg, sl) \<Rightarrow> (Inr (Some msg), s\<lparr>m_slicer := sl\<rparr>))
          else (Inr None, s)))"

section \<open>One call of \<open>receive_data\<close>\<close>

lemma tcp_buffer_simps [simp]:
  "tcp_buffer (tcp_set_buffer b s) = b" "tcp_buffer (sys e s) = tcp_buffer s"
  "m_slicer (tcp_set_buffer b s) = slicer_set_buffer b (m_slicer s)"
  "trace (tcp_set_buffer b s) = trace s" "m_fd (tcp_set_buffer b s) = m_fd s"
  "m_state (tcp_set_buffer b s) = m_state s"
  by (simp_all add: tcp_buffer_def tcp_set_buffer_def sys_def sl.buffer_set_buffer)

text \<open>A slicer whose buffer has nothing to process.\<close>

definition slicer_idle :: "MessageMode \<Rightarrow> slicer \<Rightarrow> bool" where
  "slicer_idle mode sl \<longleftrightarrow> slicer_inv mode sl \<and> \<not> buffer_is_valid (slicer_buffer sl)"

definition same_content :: "slicer \<Rightarrow> slicer \<Rightarrow> bool" where
  "same_content sl sl' \<longleftrightarrow> slicer_msgs sl' = slicer_msgs sl \<and> slicer_pending sl' = slicer_pending sl"

lemma same_content_set_buffer [simp]: "same_content sl (slicer_set_buffer b sl)"
  by (simp add: same_content_def sl.msgs_set_buffer sl.pending_set_buffer)

lemma same_content_trans: "same_content a b \<Longrightarrow> same_content b c \<Longrightarrow> same_content a c"
  by (simp add: same_content_def)

lemma slicer_idle_reset:
  "slicer_inv mode sl \<Longrightarrow> slicer_idle mode (slicer_set_buffer (buffer_reset (slicer_buffer sl)) sl)"
  using sl.buffer_ok
  by (simp add: slicer_idle_def sl.inv_set_buffer buffer_fresh_reset sl.buffer_set_buffer)

lemma slicer_idle_memset:
  "slicer_idle mode sl \<Longrightarrow> slicer_idle mode (slicer_set_buffer (buffer_memset0 (slicer_buffer sl)) sl)"
  using sl.buffer_ok [of mode sl] unfolding slicer_idle_def
  by (auto simp: sl.buffer_set_buffer buffer_fresh_def buffer_inv_def buffer_memset0_def
      buffer_is_valid_iff intro!: sl.inv_set_buffer)

text \<open>The states after the \<open>recv\<close> call and after the closing that may follow it.\<close>

definition after_recv :: "os \<Rightarrow> tcp_socket \<Rightarrow> tcp_socket" where
  "after_recv os s = sys (SysRecv (m_fd s) (os_recv os (trace s) (m_fd s) MAX_SIZE))
     (tcp_set_buffer (buffer_memset0 (tcp_buffer s)) s)"

definition after_close :: "tcp_socket \<Rightarrow> tcp_socket" where
  "after_close s = sys SysNotifyAll
     (tcp_reset_buffer ((sys (SysClose (m_fd s)) (s\<lparr>m_state := Closed\<rparr>))\<lparr>m_fd := -1\<rparr>))"

lemma tcp_receive_data_eq:
  assumes "tcp_is_valid s" and "\<not> buffer_is_valid (tcp_buffer s)"
  shows "tcp_receive_data os (tcp_close os) tcp_buffer tcp_set_buffer s =
    (case os_recv os (trace s) (m_fd s) MAX_SIZE of
       RecvData bs \<Rightarrow>
         if bs \<noteq> [] then (Inr True, tcp_set_buffer (buffer_fill bs (tcp_buffer (after_recv os s))) (after_recv os s))
         else (Inr False, after_close (after_recv os s))
     | RecvErr e \<Rightarrow>
         if e = EAGAIN then (Inr False, after_recv os s)
         else (if e = ECONNRESET then Inr False else Inl (SocketError ''Failed to receive data''),
               after_close (after_recv os s)))"
proof -
  have "tcp_is_valid (after_recv os s)" using assms(1) by (simp add: tcp_is_valid_def after_recv_def)
  then have closed: "close_then (tcp_close os) True (after_recv os s) r = (r, after_close (after_recv os s))"
    for r :: "error + bool"
    by (simp add: close_then_fast after_close_def)
  show ?thesis
  proof (cases "os_recv os (trace s) (m_fd s) MAX_SIZE")
    case (RecvData bs)
    then show ?thesis
      using assms closed [unfolded after_recv_def RecvData]
      by (cases "bs = []") (simp_all add: tcp_receive_data_def after_recv_def Let_def)
  next
    case (RecvErr e)
    then show ?thesis
      using assms closed [unfolded after_recv_def RecvErr]
      by (cases e) (simp_all add: tcp_receive_data_def after_recv_def Let_def)
  qed
qed

lemma after_recv:
  fixes s :: tcp_socket
  assumes "slicer_idle mode (m_slicer s)"
  shows "slicer_idle mode (m_slicer (after_recv os s))"
    and "same_content (m_slicer s) (m_slicer (after_recv os s))"
    and "trace (after_recv os s) = trace s @ [SysRecv (m_fd s) (os_recv os (trace s) (m_fd s) MAX_SIZE)]"
  using slicer_idle_memset [OF assms] by (simp_all add: after_recv_def tcp_buffer_def)

lemma after_close:
  fixes s :: tcp_socket
  assumes "slicer_inv mode (m_slicer s)"
  shows "slicer_idle mode (m_slicer (after_close s))"
    and "same_content (m_slicer s) (m_slicer (after_close s))"
    and "trace (after_close s) = trace s @ [SysClose (m_fd s), SysNotifyAll]"
  using slicer_idle_reset [OF assms] by (simp_all add: after_close_def)

text \<open>The answers of \<open>recv\<close> recorded in a history are those of the kernel.\<close>

fun recv_true :: "os \<Rightarrow> history \<Rightarrow> history \<Rightarrow> bool" where
  "recv_true os h0 [] \<longleftrightarrow> True"
| "recv_true os h0 (e # h) \<longleftrightarrow>
     (case e of SysRecv fd x \<Rightarrow> x = os_recv os h0 fd MAX_SIZE | _ \<Rightarrow> True) \<and> recv_true os (h0 @ [e]) h"

text \<open>The last \<open>recv\<close> returned no data; the socket is still open if and only if it would block.\<close>

definition recv_ended :: "int \<Rightarrow> history \<Rightarrow> bool \<Rightarrow> bool" where
  "recv_ended fd h open \<longleftrightarrow>
     (\<exists>h0 x h1. h = h0 @ SysRecv fd x # h1 \<and> bytes_received (SysRecv fd x # h1) = [] \<and> (open \<longleftrightarrow> x = RecvErr EAGAIN))"

lemma recv_ended_append: "recv_ended fd h open \<Longrightarrow> recv_ended fd (h' @ h) open"
  unfolding recv_ended_def by (metis append.assoc)

lemma recv_endedI: "bytes_received (SysRecv fd x # h) = [] \<Longrightarrow> (open \<longleftrightarrow> x = RecvErr EAGAIN) \<Longrightarrow> recv_ended fd (SysRecv fd x # h) open"
  unfolding recv_ended_def by (metis append_Nil)

lemma tcp_receive_data_cases:
  fixes s :: tcp_socket
  assumes idle: "slicer_idle mode (m_slicer s)" and bnd: "recv_bounded os"
  obtains (data) bs s' where
      "tcp_receive_data os (tcp_close os) tcp_buffer tcp_set_buffer s = (Inr True, s')"
      "bs \<noteq> []" "slicer_inv mode (m_slicer s')"
      "buffer_is_valid (tcp_buffer s')" "unread (tcp_buffer s') = bs"
      "same_content (m_slicer s) (m_slicer s')"
      "os_recv os (trace s) (m_fd s) MAX_SIZE = RecvData bs"
      "trace s' = trace s @ [SysRecv (m_fd s) (RecvData bs)]" "m_fd s' = m_fd s"
    | (stop) r s' h where
      "tcp_receive_data os (tcp_close os) tcp_buffer tcp_set_buffer s = (r, s')"
      "r = Inr False \<or> r = Inl (SocketError ''Failed to receive data'')"
      "slicer_idle mode (m_slicer s')" "same_content (m_slicer s) (m_slicer s')"
      "trace s' = trace s @ h" "bytes_received h = []" "recv_true os (trace s) h"
      "tcp_is_valid s \<Longrightarrow> recv_ended (m_fd s) h (tcp_is_valid s')"
proof (cases "tcp_is_valid s")
  case False
  then show thesis
    using idle by (intro stop [of "Inr False" s "[]"]) (simp_all add: tcp_receive_data_def same_content_def)
next
  case True
  let ?s1 = "after_recv os s"
  have nv: "\<not> buffer_is_valid (tcp_buffer s)" using idle by (simp add: slicer_idle_def tcp_buffer_def)
  note eq = tcp_receive_data_eq [OF True nv, of os] and s1 = after_recv [OF idle, of os]
  have inv1: "slicer_inv mode (m_slicer ?s1)" using s1(1) by (simp add: slicer_idle_def)
  note c = after_close [OF inv1]
  have cc: "same_content (m_slicer s) (m_slicer (after_close ?s1))"
    using s1(2) c(2) by (rule same_content_trans)
  have tr: "trace (after_close ?s1) = trace s @
      [SysRecv (m_fd s) (os_recv os (trace s) (m_fd s) MAX_SIZE), SysClose (m_fd ?s1), SysNotifyAll]"
    by (simp add: c(3) s1(3))
  have nv': "\<not> tcp_is_valid (after_close ?s1)" by (simp add: after_close_def tcp_is_valid_def)
  have v': "tcp_is_valid ?s1" using True by (simp add: after_recv_def tcp_is_valid_def)
  show thesis
  proof (cases "os_recv os (trace s) (m_fd s) MAX_SIZE")
    case (RecvErr e)
    show thesis
    proof (cases "e = EAGAIN")
      case True
      with RecvErr eq show thesis by (intro stop [of "Inr False", OF _ _ s1]) (simp_all add: bytes_received_def v' recv_endedI)
    next
      case False
      with RecvErr eq show thesis
        by (intro stop [of "if e = ECONNRESET then Inr False
              else Inl (SocketError ''Failed to receive data'')", OF _ _ c(1) cc tr])
          (simp_all add: bytes_received_def nv' recv_endedI)
    qed
  next
    case (RecvData bs)
    show thesis
    proof (cases "bs = []")
      case True
      with RecvData eq show thesis
        by (intro stop [of "Inr False", OF _ _ c(1) cc tr]) (simp_all add: bytes_received_def nv' recv_endedI)
    next
      case False
      have "length bs \<le> MAX_SIZE" using recv_boundedD [OF bnd RecvData] .
      then show thesis
        using sl.fill_buffer [of mode "m_slicer ?s1" bs] False s1 eq RecvData
          same_content_trans [OF s1(2) same_content_set_buffer]
        by (intro data [of "tcp_set_buffer (buffer_fill bs (tcp_buffer ?s1)) ?s1" bs])
          (simp_all add: slicer_idle_def tcp_buffer_def after_recv_def)
    qed
  qed
qed

section \<open>The loop\<close>

lemma tcp_try_process:
  assumes "slicer_inv mode (m_slicer s)" and "buffer_is_valid (tcp_buffer s)"
  shows "tcp_try_process s = (Inr (), s\<lparr>m_slicer := snd (slicer_process_buffer (m_slicer s))\<rparr>)"
proof (cases "slicer_process_buffer (m_slicer s)")
  case (Pair r sl)
  show ?thesis
  proof (cases r)
    case (Inl e)
    then obtain t where "e = RuntimeError t"
      using sl.process_error [OF assms(1)] assms(2) Pair by (auto simp: tcp_buffer_def)
    then show ?thesis using Pair Inl by (simp add: tcp_try_process_def)
  qed (use Pair in \<open>simp add: tcp_try_process_def\<close>)
qed

text \<open>Equations for one round of the loop.\<close>

lemma tcp_pull_process:
  assumes "slicer_inv mode (m_slicer s)" and "buffer_is_valid (tcp_buffer s)"
  shows "tcp_pull_messages os s =
    tcp_pull_messages os (s\<lparr>m_slicer := snd (slicer_process_buffer (m_slicer s))\<rparr>)"
  using assms by (subst tcp_pull_messages.simps) (simp add: tcp_try_process)

lemma tcp_pull_data:
  assumes "\<not> buffer_is_valid (tcp_buffer s)"
    and "tcp_receive_data os (tcp_close os) tcp_buffer tcp_set_buffer s = (Inr True, s')"
    and "slicer_inv mode (m_slicer s')" and "buffer_is_valid (tcp_buffer s')"
  shows "tcp_pull_messages os s = tcp_pull_messages os s'"
  using assms tcp_pull_process [OF assms(3,4), of os]
  by (subst tcp_pull_messages.simps) (simp add: tcp_try_process)

lemma tcp_pull_stop:
  assumes "\<not> buffer_is_valid (tcp_buffer s)"
    and "tcp_receive_data os (tcp_close os) tcp_buffer tcp_set_buffer s = (r, s')"
    and "r = Inr False \<or> r = Inl e"
  shows "tcp_pull_messages os s = Some (map_sum id (\<lambda>_. ()) r, s')"
  using assms by (subst tcp_pull_messages.simps) auto

text \<open>
  Total correctness of the loop, by induction on the number of chunks the peer can still send and,
  within a chunk, on what the buffer still holds.
\<close>

definition pull_rel :: "nat \<Rightarrow> (tcp_socket \<times> tcp_socket) set" where
  "pull_rel k = measures [\<lambda>s. k - length (filter data_event (trace s)), \<lambda>s. buffer_measure (tcp_buffer s)]"

lemma wf_pull_rel: "wf (pull_rel k)"
  by (simp add: pull_rel_def)

section \<open>Total correctness of the loop\<close>

text \<open>
  What the caller of a socket can see of a slicer: a \<open>view\<close> that processing the buffer does not
  change, that loading the buffer extends by the loaded bytes, and that depends only on the contents
  once the buffer is empty.  For every such view, \<open>pull_messages\<close> returns and extends the view by
  exactly the bytes it has received.
\<close>

locale pull_view =
  fixes mode :: MessageMode
    and view :: "slicer \<Rightarrow> 'v"
    and extend :: "'v \<Rightarrow> byte list \<Rightarrow> 'v"
  assumes view_process: "slicer_inv mode sl \<Longrightarrow> buffer_is_valid (slicer_buffer sl) \<Longrightarrow>
      view (snd (slicer_process_buffer sl)) = view sl"
    and view_loaded: "slicer_idle mode sl \<Longrightarrow> slicer_inv mode sl' \<Longrightarrow> same_content sl sl' \<Longrightarrow>
      view sl' = extend (view sl) (unread (slicer_buffer sl'))"
    and extend_Nil: "slicer_idle mode sl \<Longrightarrow> extend (view sl) [] = view sl"
    and extend_append: "extend (extend v a) b = extend v (a @ b)"
begin

lemma view_same:
  "slicer_idle mode sl \<Longrightarrow> slicer_idle mode sl' \<Longrightarrow> same_content sl sl' \<Longrightarrow> view sl' = extend (view sl) []"
  using view_loaded [of sl sl'] by (simp add: slicer_idle_def unread_not_valid)

lemma pull_messages_total:
  assumes os: "recv_bounded os" "recv_finite os k"
    and "slicer_inv mode (m_slicer s)"
  shows "\<exists>r s' h. tcp_pull_messages os s = Some (r, s') \<and>
    (r = Inr () \<or> r = Inl (SocketError ''Failed to receive data'')) \<and>
    slicer_idle mode (m_slicer s') \<and> trace s' = trace s @ h \<and>
    view (m_slicer s') = extend (view (m_slicer s)) (bytes_received h) \<and>
    recv_true os (trace s) h \<and> (tcp_is_valid s \<longrightarrow> recv_ended (m_fd s) h (tcp_is_valid s'))"
  using assms(3)
proof (induction s rule: wf_induct_rule [OF wf_pull_rel [of k]])
  case (1 s)
  note inv = \<open>slicer_inv mode (m_slicer s)\<close>
  show ?case
  proof (cases "buffer_is_valid (tcp_buffer s)")
    case True
    let ?s = "s\<lparr>m_slicer := snd (slicer_process_buffer (m_slicer s))\<rparr>"
    have v: "buffer_is_valid (slicer_buffer (m_slicer s))" using True by (simp add: tcp_buffer_def)
    have "(?s, s) \<in> pull_rel k"
      using sl.process_progress [OF inv v] by (simp add: pull_rel_def tcp_buffer_def)
    then show ?thesis
      using "1.IH" [of ?s] tcp_pull_process [OF inv True, of os] sl.process_inv [OF inv v]
        view_process [OF inv v] by (simp add: tcp_is_valid_def)
  next
    case False
    then have idle: "slicer_idle mode (m_slicer s)" using inv by (simp add: slicer_idle_def tcp_buffer_def)
    then show ?thesis using os(1)
    proof (cases rule: tcp_receive_data_cases)
      case (data bs s')
      have "length (filter data_event (trace s)) < k"
        using os(2) data(2,7) by (auto simp: recv_finite_def not_le [symmetric])
      then have "(s', s) \<in> pull_rel k" using data(2,8) by (simp add: pull_rel_def) linarith
      then obtain r s'' h where ih: "tcp_pull_messages os s' = Some (r, s'')"
          "r = Inr () \<or> r = Inl (SocketError ''Failed to receive data'')"
          "slicer_idle mode (m_slicer s'')" "trace s'' = trace s' @ h"
          "view (m_slicer s'') = extend (view (m_slicer s')) (bytes_received h)"
          "recv_true os (trace s') h" "tcp_is_valid s' \<longrightarrow> recv_ended (m_fd s') h (tcp_is_valid s'')"
        using "1.IH" data(3) by blast
      have "view (m_slicer s') = extend (view (m_slicer s)) bs"
        using view_loaded [OF idle data(3,6)] data(5) by (simp add: tcp_buffer_def)
      then show ?thesis
        using ih data(7-9) tcp_pull_data [OF False data(1,3,4)] recv_ended_append [of _ h _ "[SysRecv (m_fd s) (RecvData bs)]"]
        by (intro exI [of _ r] exI [of _ s''] exI [of _ "SysRecv (m_fd s) (RecvData bs) # h"])
          (simp add: extend_append bytes_received_def tcp_is_valid_def)
    next
      case (stop r s' h)
      then show ?thesis
        using tcp_pull_stop [OF False stop(1,2)] view_same [OF idle stop(3,4)] by auto
    qed
  qed
qed

end

text \<open>Datagram mode: the payloads delivered so far and the incomplete rest.\<close>

definition view_extend :: "byte list list \<times> byte list \<Rightarrow> byte list \<Rightarrow> byte list list \<times> byte list" where
  "view_extend v bs = (fst v @ fst (parse (snd v @ bs)), snd (parse (snd v @ bs)))"

interpretation dgv: pull_view Datagram slicer_view view_extend
proof
  fix sl sl' :: slicer
  assume idle: "slicer_idle Datagram sl"
  then have v: "slicer_view sl = (slicer_msgs sl, slicer_pending sl)" and inv: "slicer_inv Datagram sl"
    by (simp_all add: slicer_idle_def slicer_view_idle)
  show "view_extend (slicer_view sl) [] = slicer_view sl"
    using slicer_pending_parse [OF inv] by (simp add: view_extend_def v)
  assume "slicer_inv Datagram sl'" "same_content sl sl'"
  then show "slicer_view sl' = view_extend (slicer_view sl) (unread (slicer_buffer sl'))"
    by (cases sl') (simp_all add: dg_view_def split_beta view_extend_def v same_content_def)
next
  fix v a b
  show "view_extend (view_extend v a) b = view_extend v (a @ b)"
    using parse_append [of "snd v @ a" b] by (simp add: view_extend_def)
qed (rule slicer_view_process)

text \<open>Stream mode: the concatenation of everything delivered.\<close>

definition stream_view :: "slicer \<Rightarrow> byte list" where
  "stream_view sl = concat (slicer_msgs sl) @ unread (slicer_buffer sl)"

interpretation stv: pull_view Stream stream_view append
proof
  fix sl :: slicer
  assume s: "slicer_inv Stream sl" "buffer_is_valid (slicer_buffer sl)"
  show "stream_view (snd (slicer_process_buffer sl)) = stream_view sl"
    using s by (cases sl) (simp_all add: stream_view_def st_process_buffer st_msgs_def)
next
  fix sl sl' :: slicer
  assume "slicer_idle Stream sl" "slicer_inv Stream sl'" "same_content sl sl'"
  then show "stream_view sl' = stream_view sl @ unread (slicer_buffer sl')"
    by (simp add: stream_view_def slicer_idle_def unread_not_valid same_content_def)
qed simp_all

lemma tcp_pull_messages_datagram:
  assumes "recv_bounded os" and "recv_finite os k" and "slicer_idle Datagram (m_slicer s)"
  obtains r s' h where "tcp_pull_messages os s = Some (r, s')"
    "r = Inr () \<or> r = Inl (SocketError ''Failed to receive data'')"
    "slicer_idle Datagram (m_slicer s')" "trace s' = trace s @ h"
    "slicer_msgs (m_slicer s') = slicer_msgs (m_slicer s) @
      fst (parse (slicer_pending (m_slicer s) @ bytes_received h))"
    "slicer_pending (m_slicer s') = snd (parse (slicer_pending (m_slicer s) @ bytes_received h))"
    "recv_true os (trace s) h" "tcp_is_valid s \<longrightarrow> recv_ended (m_fd s) h (tcp_is_valid s')"
proof -
  have inv: "slicer_inv Datagram (m_slicer s)" using assms(3) by (simp add: slicer_idle_def)
  show thesis
    using dgv.pull_messages_total [OF assms(1,2) inv] assms(3)
    by (fastforce simp: slicer_idle_def slicer_view_idle view_extend_def intro: that)
qed

text \<open>The part of \<open>receive\<close> after \<open>pull_messages\<close>: take the oldest message out.\<close>

definition first_message :: "byte list list \<Rightarrow> message_in_t option" where
  "first_message q = (case q of [] \<Rightarrow> None | m # ms \<Rightarrow> Some \<lparr>mi_data = m, mi_length = of_nat (length m)\<rparr>)"

lemma tcp_receive_pop:
  assumes "tcp_pull_messages os s = Some (Inr (), s')" and "slicer_idle mode (m_slicer s')"
  obtains sl where "tcp_receive os s = Some (Inr (first_message (slicer_msgs (m_slicer s'))), s'\<lparr>m_slicer := sl\<rparr>)"
    "slicer_idle mode sl" "slicer_pending sl = slicer_pending (m_slicer s')"
    "slicer_msgs sl = tl (slicer_msgs (m_slicer s'))"
proof -
  have inv: "slicer_inv mode (m_slicer s')" using assms(2) by (simp add: slicer_idle_def)
  show thesis
  proof (cases "slicer_msgs (m_slicer s')")
    case Nil
    then show thesis
      using assms sl.has_messages_iff [OF inv]
      by (intro that [of "m_slicer s'"]) (simp_all add: tcp_receive_def first_message_def)
  next
    case (Cons m ms)
    then show thesis
      using assms sl.has_messages_iff [OF inv] sl.get_message_Cons [OF inv Cons] that
      by (auto simp: tcp_receive_def slicer_idle_def first_message_def)
  qed
qed

text \<open>A receive error leaves the socket closed.\<close>

lemma tcp_receive_data_error:
  fixes s :: tcp_socket
  assumes "tcp_receive_data os (tcp_close os) tcp_buffer tcp_set_buffer s = (Inl e, s')"
    and "\<not> buffer_is_valid (tcp_buffer s)"
  shows "\<not> tcp_is_valid s'"
proof (cases "tcp_is_valid s")
  case False
  then show ?thesis using assms(1) by (simp add: tcp_receive_data_def)
next
  case True
  have "\<not> tcp_is_valid (after_close u)" for u by (simp add: after_close_def tcp_is_valid_def)
  then show ?thesis
    using assms(1) by (auto simp: tcp_receive_data_eq [OF True assms(2)] split: recv_res.splits if_splits)
qed

lemma tcp_pull_error_closed:
  assumes "tcp_pull_messages os s = Some (Inl (SocketError msg), s')"
  shows "\<not> tcp_is_valid s'"
proof -
  let ?P = "\<lambda>y :: (tcp_socket, unit) outcome. \<forall>msg. fst y = Inl (SocketError msg) \<longrightarrow> \<not> tcp_is_valid (snd y)"
  have "?P (Inl (SocketError msg), s')"
  proof (rule tcp_pull_messages.raw_induct [of "\<lambda>_ s. ?P", OF _ assms])
    fix pull :: "os \<Rightarrow> tcp_socket \<Rightarrow> (tcp_socket, unit) outcome option"
      and os and s :: tcp_socket and y
    assume ih: "\<And>os s y. pull os s = Some y \<Longrightarrow> ?P y"
    let ?d = "if \<not> buffer_is_valid (tcp_buffer s)
      then tcp_receive_data os (tcp_close os) tcp_buffer tcp_set_buffer s else (Inr True, s)"
    assume body: "(case ?d of (Inl e, s) \<Rightarrow> Some (Inl e, s)
      | (Inr res, s) \<Rightarrow> if \<not> res then Some (Inr (), s)
          else (case tcp_try_process s of (Inl e, s) \<Rightarrow> Some (Inl e, s) | (Inr _, s) \<Rightarrow> pull os s)) = Some y"
    obtain d s1 where d: "?d = (d, s1)" by force
    have nd: "\<not> tcp_is_valid s1" if "d = Inl e" for e
      using that d tcp_receive_data_error [of os s e s1] by (auto split: if_splits)
    obtain p s2 where p: "tcp_try_process s1 = (p, s2)" by force
    have np: "p \<noteq> Inl (SocketError m)" for m
      using p by (auto simp: tcp_try_process_def split: prod.splits sum.splits error.splits)
    show "?P y"
      using body ih [of os s2 y] nd np unfolding d by (auto simp: p split: sum.splits if_splits)
  qed
  then show ?thesis by simp
qed

section \<open>Properties\<close>

text \<open>
  C6. \<open>pull_messages\<close> in datagram mode, as long as the peer's data is finite: the loop returns, it
  returns normally or with the receive error after closing the socket, and the messages it has queued
  are exactly the payloads that the parser finds in the pending bytes followed by the bytes
  received during the call, in order; the incomplete rest stays pending.  The result does
  not depend on the sizes of the chunks in which \<open>recv\<close> returned the bytes.  The bytes received are what the kernel
  returned, and on an open socket the call stops only after a \<open>recv\<close> without data, leaving the socket open exactly if
  that would have blocked.
\<close>

theorem tcp_pull_messages_parses:
  assumes "recv_bounded os" and "recv_finite os k" and "slicer_idle Datagram (m_slicer s)"
  shows "\<exists>r s' h. tcp_pull_messages os s = Some (r, s') \<and>
    (r = Inr () \<or> r = Inl (SocketError ''Failed to receive data'')) \<and>
    slicer_idle Datagram (m_slicer s') \<and> trace s' = trace s @ h \<and>
    slicer_msgs (m_slicer s') = slicer_msgs (m_slicer s) @
      fst (parse (slicer_pending (m_slicer s) @ bytes_received h)) \<and>
    slicer_pending (m_slicer s') = snd (parse (slicer_pending (m_slicer s) @ bytes_received h)) \<and>
    recv_true os (trace s) h \<and> (tcp_is_valid s \<longrightarrow> recv_ended (m_fd s) h (tcp_is_valid s'))"
  by (rule tcp_pull_messages_datagram [OF assms]) blast

text \<open>A kernel that delivers the given chunks in turn and then has no more data.\<close>

definition feeding_os :: "byte list list \<Rightarrow> os" where
  "feeding_os chunks =
     \<lparr>os_socket = \<lambda>_ _. 3, os_bind = \<lambda>_ _ _. 0, os_listen = \<lambda>_ _ _. 0, os_connect = \<lambda>_ _ _. 0,
      os_accept = \<lambda>_ _. Inl EAGAIN, os_getsockname_port = \<lambda>_ _. 0, os_getpeername = \<lambda>_ _. None,
      os_stack_junk = \<lambda>_. (\<lparr>sin_addr = None, sin_port = 0\<rparr>, []), os_shutdown = \<lambda>_ _. None,
      os_recv = \<lambda>h _ n. let i = length (filter data_event h) in
        if i < length chunks then RecvData (take n (chunks ! i)) else RecvErr EAGAIN,
      os_write = \<lambda>_ _ bs. WriteN (length bs)\<rparr>"

lemma feeding_os:
  "recv_bounded (feeding_os chunks)" "recv_finite (feeding_os chunks) (length chunks)"
  "write_bounded (feeding_os chunks)"
  by (auto simp: recv_bounded_def recv_finite_def write_bounded_def feeding_os_def Let_def split: if_splits)

text \<open>What has been received from it once it has no more data: everything.\<close>

lemma feeding_received:
  assumes "list_all (\<lambda>c. c \<noteq> [] \<and> length c \<le> MAX_SIZE) chunks" and "recv_true (feeding_os chunks) h0 h"
  shows "bytes_received h = concat (take (length (filter data_event h)) (drop (length (filter data_event h0)) chunks))"
  using assms(2)
proof (induction h arbitrary: h0)
  case (Cons e h)
  note ih = Cons.IH [of "h0 @ [e]"] and prems = Cons.prems
  let ?i = "length (filter data_event h0)"
  consider (data) fd bs where "e = SysRecv fd (RecvData bs)" "data_event e" | (other) "\<not> data_event e"
    by (cases e rule: data_event.cases) auto
  then show ?case
  proof cases
    case data
    then have x: "RecvData bs = os_recv (feeding_os chunks) h0 fd MAX_SIZE" using prems by simp
    then have i: "?i < length chunks" by (auto simp: feeding_os_def Let_def split: if_splits)
    then have bs: "bs = chunks ! ?i" "bs \<noteq> []" using x assms(1) data by (simp_all add: feeding_os_def Let_def list_all_length)
    have "recv_true (feeding_os chunks) (h0 @ [e]) h" using prems by simp
    from ih [OF this] show ?thesis
      using data(1) bs i by (simp add: bytes_received_def Cons_nth_drop_Suc [symmetric])
  next
    case other
    then have "received_by e = []" by (cases e rule: data_event.cases) auto
    then show ?thesis using ih prems other by (simp add: bytes_received_def)
  qed
qed (simp add: bytes_received_def)

lemma recv_true_append: "recv_true os h0 (h1 @ h2) \<longleftrightarrow> recv_true os h0 h1 \<and> recv_true os (h0 @ h1) h2"
  by (induction h1 arbitrary: h0) (auto split: sysevent.splits)

lemma feeding_drained:
  assumes "list_all (\<lambda>c. c \<noteq> [] \<and> length c \<le> MAX_SIZE) chunks" and "recv_true (feeding_os chunks) h' h"
    and "recv_ended fd h open" and "filter data_event h' = []"
  shows "bytes_received h = concat chunks \<and> open"
proof -
  obtain h0 x h1 where h: "h = h0 @ SysRecv fd x # h1" "bytes_received (SysRecv fd x # h1) = []"
      "open \<longleftrightarrow> x = RecvErr EAGAIN"
    using assms(3) unfolding recv_ended_def by blast
  have x: "x = os_recv (feeding_os chunks) (h' @ h0) fd MAX_SIZE" and h0: "recv_true (feeding_os chunks) h' h0"
    using assms(2) h(1) by (simp_all add: recv_true_append)
  have "length (filter data_event h0) \<ge> length chunks"
  proof (rule ccontr)
    assume "\<not> ?thesis"
    then show False
      using x h(2) assms(1,4) by (auto simp: feeding_os_def Let_def bytes_received_def list_all_length MAX_SIZE_def)
  qed
  then have "bytes_received h0 = concat chunks" "x = RecvErr EAGAIN"
    using feeding_received [OF assms(1) h0] x assms(4) by (simp_all add: feeding_os_def Let_def)
  then show ?thesis using h by (simp add: bytes_received_def)
qed

lemma slicer_idle_make [simp]: "slicer_idle mode (make_slicer mode)"
  by (simp add: slicer_idle_def) (simp add: buffer_defs)

text \<open>A connected socket that has received nothing yet.\<close>

definition connected_socket :: "MessageMode \<Rightarrow> tcp_socket" where
  "connected_socket mode = (tcp_new mode 100)\<lparr>m_fd := 3, m_state := Connected\<rparr>"

lemma connected_socket [simp]:
  "m_slicer (connected_socket mode) = make_slicer mode" "trace (connected_socket mode) = []"
  by (simp_all add: connected_socket_def tcp_new_def)

lemma parse_example: "parse [6, 0, 0, 0, 7, 9] = ([[7, 9]], [])"
  using parse_frames [of "[[7, 9]]" "[]"] by (simp add: frame_def valid_payload_def le_bytes_def)

theorem tcp_pull_messages_parses_witness:
  "\<exists>r s'. tcp_pull_messages (feeding_os [[6, 0], [0, 0, 7], [9]]) (connected_socket Datagram) = Some (r, s') \<and>
    slicer_msgs (m_slicer s') = [[7, 9]] \<and> tcp_is_valid s'"
proof -
  let ?os = "feeding_os [[6, 0], [0, 0, 7], [9]]"
  have "tcp_is_valid (connected_socket Datagram)" by (simp add: connected_socket_def tcp_is_valid_def)
  then obtain r s' h where p: "tcp_pull_messages ?os (connected_socket Datagram) = Some (r, s')"
      "slicer_msgs (m_slicer s') = fst (parse (bytes_received h))" "recv_true ?os [] h" "recv_ended 3 h (tcp_is_valid s')"
    using tcp_pull_messages_parses [OF feeding_os(1,2), of "connected_socket Datagram" "[[6, 0], [0, 0, 7], [9]]"]
    by (auto simp: connected_socket_def tcp_new_def simp del: make_slicer.simps)
  have "bytes_received h = [6, 0, 0, 0, 7, 9] \<and> tcp_is_valid s'"
    using feeding_drained [OF _ p(3,4)] by (simp add: MAX_SIZE_def)
  then show ?thesis using p(1,2) parse_example by (intro exI [of _ r] exI [of _ s']) simp
qed

text \<open>
  C27. \<open>pull_messages\<close> in stream mode loses, repeats and reorders nothing: the concatenation of the
  queued messages grows by exactly the bytes received during the call, and on an open
  socket it stops only after a \<open>recv\<close> without data, leaving the socket open exactly if that would have blocked.
\<close>

theorem tcp_pull_messages_stream:
  assumes "recv_bounded os" and "recv_finite os k" and "slicer_idle Stream (m_slicer s)"
  shows "\<exists>r s' h. tcp_pull_messages os s = Some (r, s') \<and>
    (r = Inr () \<or> r = Inl (SocketError ''Failed to receive data'')) \<and>
    slicer_idle Stream (m_slicer s') \<and> trace s' = trace s @ h \<and>
    concat (slicer_msgs (m_slicer s')) = concat (slicer_msgs (m_slicer s)) @ bytes_received h \<and>
    (tcp_is_valid s \<longrightarrow> recv_ended (m_fd s) h (tcp_is_valid s'))"
proof -
  have inv: "slicer_inv Stream (m_slicer s)" using assms(3) by (simp add: slicer_idle_def)
  show ?thesis
    using stv.pull_messages_total [OF assms(1,2) inv] assms(3)
    by (fastforce simp: slicer_idle_def stream_view_def unread_not_valid)
qed

theorem tcp_pull_messages_stream_witness:
  "\<exists>r s'. tcp_pull_messages (feeding_os [[6, 0], [9]]) (connected_socket Stream) = Some (r, s') \<and>
    concat (slicer_msgs (m_slicer s')) = bytes_received (trace s')"
  using tcp_pull_messages_stream [OF feeding_os(1,2), of "connected_socket Stream" "[[6, 0], [9]]"]
  by (auto simp del: make_slicer.simps)

text \<open>
  \<open>receive\<close> returns the oldest queued payload, with its length, once the socket has been drained:
  with \<open>q\<close> the payloads queued before the call and those parsed during it, the call returns the first
  of \<open>q\<close> and leaves the others queued, or returns nothing when \<open>q\<close> is empty, unless the kernel reports
  a receive error; in that case the payloads stay queued.  On an open socket the call has read up to a \<open>recv\<close> without
  data, and it throws only after closing the socket.
\<close>

theorem tcp_receive_first:
  assumes "recv_bounded os" and "recv_finite os k" and "slicer_idle Datagram (m_slicer s)"
  shows "\<exists>r s' h. tcp_receive os s = Some (r, s') \<and> trace s' = trace s @ h \<and>
    slicer_idle Datagram (m_slicer s') \<and>
    (let q = slicer_msgs (m_slicer s) @ fst (parse (slicer_pending (m_slicer s) @ bytes_received h))
     in r = Inl (SocketError ''Failed to receive data'') \<and> slicer_msgs (m_slicer s') = q \<or>
        r = Inr (first_message q) \<and> slicer_msgs (m_slicer s') = tl q) \<and>
    recv_true os (trace s) h \<and> (tcp_is_valid s \<longrightarrow> recv_ended (m_fd s) h (tcp_is_valid s')) \<and>
    (tcp_is_valid s' \<longrightarrow> (\<exists>m. r = Inr m))"
proof (rule tcp_pull_messages_datagram [OF assms])
  fix r s' h
  assume pull: "tcp_pull_messages os s = Some (r, s')"
      "r = Inr () \<or> r = Inl (SocketError ''Failed to receive data'')"
      "slicer_idle Datagram (m_slicer s')" "trace s' = trace s @ h"
      "slicer_msgs (m_slicer s') = slicer_msgs (m_slicer s) @
        fst (parse (slicer_pending (m_slicer s) @ bytes_received h))"
      "recv_true os (trace s) h" "tcp_is_valid s \<longrightarrow> recv_ended (m_fd s) h (tcp_is_valid s')"
  show ?thesis
  proof (cases r)
    case (Inl e)
    then show ?thesis
      using pull tcp_pull_error_closed [of os s "''Failed to receive data''" s']
      by (intro exI [of _ "Inl e"] exI [of _ s'] exI [of _ h]) (auto simp: tcp_receive_def Let_def)
  next
    case (Inr u)
    with pull(1) have p: "tcp_pull_messages os s = Some (Inr (), s')" by simp
    show ?thesis
      by (rule tcp_receive_pop [OF p pull(3)])
        (use pull(4-7) in \<open>force simp: Let_def tcp_is_valid_def\<close>)
  qed
qed

theorem tcp_receive_first_witness:
  "\<exists>s'. tcp_receive (feeding_os [[6, 0], [0, 0, 7], [9]]) (connected_socket Datagram) =
    Some (Inr (Some \<lparr>mi_data = [7, 9], mi_length = 2\<rparr>), s') \<and> slicer_msgs (m_slicer s') = []"
proof -
  let ?os = "feeding_os [[6, 0], [0, 0, 7], [9]]"
  have "tcp_is_valid (connected_socket Datagram)" by (simp add: connected_socket_def tcp_is_valid_def)
  then obtain r s' h where p: "tcp_receive ?os (connected_socket Datagram) = Some (r, s')" "recv_true ?os [] h"
      "recv_ended 3 h (tcp_is_valid s')" "tcp_is_valid s' \<longrightarrow> (\<exists>m. r = Inr m)"
      "r = Inl (SocketError ''Failed to receive data'') \<or>
        r = Inr (first_message (fst (parse (bytes_received h)))) \<and> slicer_msgs (m_slicer s') = tl (fst (parse (bytes_received h)))"
    using tcp_receive_first [OF feeding_os(1,2), of "connected_socket Datagram" "[[6, 0], [0, 0, 7], [9]]"]
    by (auto simp: connected_socket_def tcp_new_def Let_def simp del: make_slicer.simps)
  have "bytes_received h = [6, 0, 0, 0, 7, 9] \<and> tcp_is_valid s'"
    using feeding_drained [OF _ p(2,3)] by (simp add: MAX_SIZE_def)
  then show ?thesis using p(1,4,5) parse_example by (auto simp: first_message_def)
qed

end
