(* ===== verification/Tcp_Send.thy ===== *)
theory Tcp_Send
  imports Tcp_Receive
begin

text \<open>
  The sending half of \<open>TcpSocket\<close>: the send queue, the three \<open>send\<close> methods and \<open>do_send\<close>.  The
  abstract state of the direction is one byte string, the \<open>backlog\<close> of accepted but unwritten bytes.
  The lemmas show that \<open>send\<close> appends the frame of its payload to it, that \<open>do_send\<close> moves bytes
  from its front to the wire whatever the sizes of the writes, and that both return.
\<close>

section \<open>Operations\<close>

text \<open>The first block of the loop of \<open>do_send\<close>; \<open>None\<close> when everything is sent.\<close>

definition tcp_next_message :: "'a tcp_socket_scheme \<Rightarrow> 'a tcp_socket_scheme option" where
  "tcp_next_message s =
     (case m_current_message s of
        Some _ \<Rightarrow> Some s
      | None \<Rightarrow>
        (case m_send_queue s of
           [] \<Rightarrow> None
         | it # rest \<Rightarrow>
           Some ((sys SysNotifyAll (s\<lparr>m_current_message := Some it,
             m_send_queue_size := m_send_queue_size s - ucast (mo_length it)\<rparr>))\<lparr>m_send_queue := rest\<rparr>)))"

text \<open>
  The inner loop; \<open>Some b\<close> is a \<open>return b\<close> out of \<open>do_send\<close>, \<open>None\<close> the end of the loop.
\<close>

partial_function (option) tcp_write_loop ::
    "os \<Rightarrow> 'a tcp_socket_scheme closer \<Rightarrow> 'a tcp_socket_scheme \<Rightarrow> ('a tcp_socket_scheme, bool option) outcome option" where
  "tcp_write_loop os cl s =
     (case m_current_message s of
        None \<Rightarrow> Some (Inl MemoryFault, s)
      | Some message \<Rightarrow>
        if mo_sent_pos message < mo_length message then
          (case mem_read (mo_data message) (unat (mo_sent_pos message))
                  (unat (mo_length message - mo_sent_pos message)) of
             None \<Rightarrow> Some (Inl MemoryFault, s)
           | Some bs \<Rightarrow>
             let x = os_write os (trace s) (m_fd s) bs;
                 s = sys (SysWrite (m_fd s) bs x) s
             in case x of
                  WriteN n \<Rightarrow>
                    if 0 < n then
                      tcp_write_loop os cl
                        (s\<lparr>m_current_message := Some (message\<lparr>mo_sent_pos := mo_sent_pos message + of_nat n\<rparr>)\<rparr>)
                    else Some (close_then cl True s (Inr (Some False)))
                | WriteErr e \<Rightarrow>
                    (case e of
                       EAGAIN \<Rightarrow> Some (Inr (Some True), s)
                     | ECONNRESET \<Rightarrow> Some (close_then cl True s (Inr (Some False)))
                     | EPIPE \<Rightarrow> Some (close_then cl True s (Inr (Some False)))
                     | _ \<Rightarrow> Some (close_then cl True s (Inl (SocketError ''strerror'')))))
        else Some (Inr None, s))"

partial_function (option) tcp_do_send ::
    "os \<Rightarrow> 'a tcp_socket_scheme closer \<Rightarrow> 'a tcp_socket_scheme \<Rightarrow> ('a tcp_socket_scheme, bool) outcome option" where
  "tcp_do_send os cl s =
     (case tcp_next_message s of
        None \<Rightarrow> Some (Inr False, s)
      | Some s \<Rightarrow>
        if \<not> tcp_is_valid s then Some (Inl (SocketError ''Socket is closed''), s)
        else Option.bind (tcp_write_loop os cl s) (\<lambda>(r, s).
          case r of
            Inl e \<Rightarrow> Some (Inl e, s)
          | Inr (Some b) \<Rightarrow> Some (Inr b, s)
          | Inr None \<Rightarrow> tcp_do_send os cl (s\<lparr>m_current_message := None\<rparr>)))"

text \<open>The guards that the \<open>send\<close> methods share and the block under the lock of the send queue.\<close>

definition tcp_enqueue :: "message_out \<Rightarrow> 'a tcp_socket_scheme \<Rightarrow> 'a tcp_socket_scheme" where
  "tcp_enqueue msg_out s =
     s\<lparr>m_send_queue_size := m_send_queue_size s + ucast (mo_length msg_out),
       m_send_queue := m_send_queue s @ [msg_out]\<rparr>"

definition tcp_send_unique ::
    "os \<Rightarrow> byte list \<Rightarrow> u32 \<Rightarrow> bool \<Rightarrow> tcp_socket \<Rightarrow> (tcp_socket, bool) outcome option" where
  "tcp_send_unique os data len async s =
     (if len = 0 then Some (Inl (SocketError ''Message size has to be > 0''), s)
      else if \<not> tcp_is_valid s then Some (Inl (SocketError ''Socket is closed''), s)
      else if m_send_queue_size s \<ge> m_max_send_queue_size s then Some (Inl SendQueueFull, s)
      else case slicer_prepare_message (m_slicer s) data len of
        Inl e \<Rightarrow> Some (Inl e, s)
      | Inr (data, len) \<Rightarrow>
        let s = tcp_enqueue (message_out_unique data len) s in
        if async then Some (Inr True, s) else tcp_do_send os (tcp_close os) s)"

definition tcp_send_shared ::
    "os \<Rightarrow> byte list \<Rightarrow> u32 \<Rightarrow> bool \<Rightarrow> tcp_socket \<Rightarrow> (tcp_socket, bool) outcome option" where
  "tcp_send_shared os data len async s =
     (if len = 0 then Some (Inl (SocketError ''Message size has to be > 0''), s)
      else if \<not> tcp_is_valid s then Some (Inl (SocketError ''Socket is closed''), s)
      else if m_send_queue_size s \<ge> m_max_send_queue_size s then Some (Inl SendQueueFull, s)
      else
        let s = tcp_enqueue (message_out_shared data len) s in
        if async then Some (Inr True, s) else tcp_do_send os (tcp_close os) s)"

definition tcp_send ::
    "os \<Rightarrow> byte list \<Rightarrow> u32 \<Rightarrow> bool \<Rightarrow> tcp_socket \<Rightarrow> (tcp_socket, bool) outcome option" where
  "tcp_send os data len async s =
     (case mem_read data 0 (unat len) of
        None \<Rightarrow> Some (Inl MemoryFault, s)
      | Some cpy \<Rightarrow> tcp_send_unique os cpy len async s)"

text \<open>
  \<open>wait_send_queue_empty\<close> blocks until its guard is false; the guard is re-evaluated after every
  \<open>notify_all\<close>.
\<close>

definition tcp_send_queue_waits :: "'a tcp_socket_scheme \<Rightarrow> bool" where
  "tcp_send_queue_waits s \<longleftrightarrow> m_send_queue_size s > 0 \<and> tcp_is_valid s"

section \<open>The backlog\<close>

definition remaining :: "message_out \<Rightarrow> byte list" where
  "remaining m = drop (unat (mo_sent_pos m)) (take (unat (mo_length m)) (mo_data m))"

definition backlog :: "'a tcp_socket_scheme \<Rightarrow> byte list" where
  "backlog s = (case m_current_message s of None \<Rightarrow> [] | Some m \<Rightarrow> remaining m) @
     concat (map remaining (m_send_queue s))"

definition message_ok :: "message_out \<Rightarrow> bool" where
  "message_ok m \<longleftrightarrow> mo_sent_pos m \<le> mo_length m \<and> unat (mo_length m) \<le> length (mo_data m)"

definition queued_ok :: "message_out \<Rightarrow> bool" where
  "queued_ok m \<longleftrightarrow> mo_sent_pos m = 0 \<and> 0 < mo_length m \<and> unat (mo_length m) \<le> length (mo_data m)"

definition queue_total :: "message_out list \<Rightarrow> nat" where
  "queue_total q = sum_list (map (\<lambda>m. unat (mo_length m)) q)"

definition send_inv :: "'a tcp_socket_scheme \<Rightarrow> bool" where
  "send_inv s \<longleftrightarrow> list_all queued_ok (m_send_queue s) \<and>
     (case m_current_message s of None \<Rightarrow> True | Some m \<Rightarrow> message_ok m) \<and>
     m_send_queue_size s = of_nat (queue_total (m_send_queue s))"

lemma queue_total_simps [simp]:
  "queue_total [] = 0" "queue_total (m # q) = unat (mo_length m) + queue_total q"
  "queue_total (q @ [m]) = queue_total q + unat (mo_length m)"
  by (simp_all add: queue_total_def)

lemma queued_message_ok: "queued_ok m \<Longrightarrow> message_ok m"
  by (simp add: queued_ok_def message_ok_def)

lemma queued_remaining: "queued_ok m \<Longrightarrow> remaining m = take (unat (mo_length m)) (mo_data m)"
  by (simp add: queued_ok_def remaining_def)

lemma message_ok_remaining:
  assumes "message_ok m"
  shows "length (remaining m) = unat (mo_length m - mo_sent_pos m)"
    and "remaining m = [] \<longleftrightarrow> mo_sent_pos m = mo_length m"
proof -
  have le: "unat (mo_sent_pos m) \<le> unat (mo_length m)" "unat (mo_length m) \<le> length (mo_data m)"
    using assms by (simp_all add: message_ok_def word_le_nat_alt)
  then show l: "length (remaining m) = unat (mo_length m - mo_sent_pos m)"
    by (simp add: remaining_def unat_sub_small)
  show "remaining m = [] \<longleftrightarrow> mo_sent_pos m = mo_length m"
    using l le by (auto simp: length_0_conv [symmetric] unat_sub_small word_unat_eq_iff simp del: length_0_conv)
qed

lemma message_ok_read:
  assumes "message_ok m"
  shows "mem_read (mo_data m) (unat (mo_sent_pos m)) (unat (mo_length m - mo_sent_pos m)) = Some (remaining m)"
proof -
  have le: "unat (mo_sent_pos m) \<le> unat (mo_length m)" "unat (mo_length m) \<le> length (mo_data m)"
    using assms by (simp_all add: message_ok_def word_le_nat_alt)
  then show ?thesis by (simp add: mem_read_def remaining_def unat_sub_small drop_take)
qed

text \<open>A write of \<open>n\<close> bytes moves exactly these from the front of what remains.\<close>

lemma message_ok_advance:
  assumes ok: "message_ok m" and n: "n \<le> length (remaining m)"
  defines "m' \<equiv> m\<lparr>mo_sent_pos := mo_sent_pos m + of_nat n\<rparr>"
  shows "message_ok m'" and "remaining m = take n (remaining m) @ remaining m'"
    and "length (remaining m') = length (remaining m) - n"
proof -
  have le: "unat (mo_sent_pos m) \<le> unat (mo_length m)" "unat (mo_length m) \<le> length (mo_data m)"
    using ok by (simp_all add: message_ok_def word_le_nat_alt)
  have n': "n \<le> unat (mo_length m) - unat (mo_sent_pos m)"
    using n le by (simp add: message_ok_remaining(1) [OF ok] unat_sub_small)
  have n32: "unat (of_nat n :: u32) = n"
    using n' unat_u32_bound [of "mo_length m"] by (intro unat_of_nat_small32) linarith
  have "unat (mo_sent_pos m) + unat (of_nat n :: u32) < 2 ^ 32"
    using n' le unat_u32_bound [of "mo_length m"] unfolding n32 by linarith
  from unat_add_small32 [OF this]
  have pos: "unat (mo_sent_pos m + of_nat n) = unat (mo_sent_pos m) + n" by (simp only: n32)
  show "message_ok m'"
    using pos n' le by (simp add: m'_def message_ok_def word_le_nat_alt)
  have "remaining m' = drop n (remaining m)"
    by (simp add: m'_def remaining_def pos) (simp only: add.commute)
  then show "remaining m = take n (remaining m) @ remaining m'"
    and "length (remaining m') = length (remaining m) - n" by simp_all
qed

section \<open>Conservation\<close>

text \<open>
  \<open>conserves s s'\<close>: between the two states the socket has written exactly what its backlog lost, and
  has received nothing; its queue has not grown.
\<close>

definition conserves :: "'a tcp_socket_scheme \<Rightarrow> 'a tcp_socket_scheme \<Rightarrow> bool" where
  "conserves s s' \<longleftrightarrow> (\<exists>h. trace s' = trace s @ h \<and> bytes_sent h @ backlog s' = backlog s \<and>
     bytes_received h = []) \<and> m_max_send_queue_size s' = m_max_send_queue_size s \<and>
     queue_total (m_send_queue s') \<le> queue_total (m_send_queue s)"

lemma conserves_refl [simp]: "conserves s s"
  by (simp add: conserves_def)

lemma conserves_trans: "conserves a b \<Longrightarrow> conserves b c \<Longrightarrow> conserves a c"
  unfolding conserves_def
  by (metis append.assoc append_Nil bytes_received_append bytes_sent_append order_trans)

lemma conserves_bytes:
  "conserves s s' \<Longrightarrow> bytes_sent (trace s') @ backlog s' = bytes_sent (trace s) @ backlog s"
  by (auto simp: conserves_def)

lemma conservesI:
  assumes "trace s' = trace s @ h" "bytes_sent h @ backlog s' = backlog s" "bytes_received h = []"
    "m_max_send_queue_size s' = m_max_send_queue_size s"
    "queue_total (m_send_queue s') \<le> queue_total (m_send_queue s)"
  shows "conserves s s'"
  using assms by (auto simp: conserves_def)

text \<open>States that differ only outside the sending half.\<close>

definition same_sending :: "'a tcp_socket_scheme \<Rightarrow> 'a tcp_socket_scheme \<Rightarrow> bool" where
  "same_sending s s' \<longleftrightarrow> m_send_queue s' = m_send_queue s \<and> m_current_message s' = m_current_message s \<and>
     m_send_queue_size s' = m_send_queue_size s \<and> m_max_send_queue_size s' = m_max_send_queue_size s"

lemma same_sending_inv: "same_sending s s' \<Longrightarrow> send_inv s' = send_inv s"
  by (simp add: same_sending_def send_inv_def)

lemma same_sending_backlog: "same_sending s s' \<Longrightarrow> backlog s' = backlog s"
  by (simp add: same_sending_def backlog_def)

section \<open>Total correctness of \<open>do_send\<close>\<close>

text \<open>One round of the inner loop.\<close>

lemma tcp_write_loop_step:
  fixes os :: os
  assumes "m_current_message s = Some m" and "message_ok m" and "mo_sent_pos m < mo_length m"
  defines "x \<equiv> os_write os (trace s) (m_fd s) (remaining m)"
  defines "s1 \<equiv> sys (SysWrite (m_fd s) (remaining m) x) s"
  shows "tcp_write_loop os cl s =
    (case x of
       WriteN n \<Rightarrow>
         if 0 < n then tcp_write_loop os cl
           (s1\<lparr>m_current_message := Some (m\<lparr>mo_sent_pos := mo_sent_pos m + of_nat n\<rparr>)\<rparr>)
         else Some (close_then cl True s1 (Inr (Some False)))
     | WriteErr e \<Rightarrow>
         if e = EAGAIN then Some (Inr (Some True), s1)
         else Some (close_then cl True s1
           (if e = ECONNRESET \<or> e = EPIPE then Inr (Some False) else Inl (SocketError ''strerror''))))"
  using assms(1,3) message_ok_read [OF assms(2)]
  by (subst tcp_write_loop.simps) (simp add: Let_def x_def s1_def split: write_res.split errno.split)

text \<open>The last call is a \<open>write\<close> that would block.\<close>

definition write_blocked :: "'a tcp_socket_scheme \<Rightarrow> bool" where
  "write_blocked s \<longleftrightarrow> (\<exists>h bs. trace s = h @ [SysWrite (m_fd s) bs (WriteErr EAGAIN)])"

text \<open>How the inner loop ends: the message is sent, the kernel takes no more, or the socket is closed.\<close>

definition write_end :: "'a tcp_socket_scheme \<Rightarrow> error + bool option \<Rightarrow> bool" where
  "write_end s r \<longleftrightarrow>
     r = Inr None \<and> tcp_is_valid s \<and> remaining (the (m_current_message s)) = [] \<or>
     r = Inr (Some True) \<and> tcp_is_valid s \<and> remaining (the (m_current_message s)) \<noteq> [] \<and> write_blocked s \<or>
     (r = Inr (Some False) \<or> r = Inl (SocketError ''strerror'')) \<and> \<not> tcp_is_valid s"

text \<open>How \<open>do_send\<close> ends: everything is sent, the kernel takes no more, or the socket is closed.\<close>

definition send_end :: "'a tcp_socket_scheme \<Rightarrow> error + bool \<Rightarrow> bool" where
  "send_end s r \<longleftrightarrow>
     r = Inr False \<and> m_current_message s = None \<and> m_send_queue s = [] \<or>
     r = Inr True \<and> tcp_is_valid s \<and> (\<exists>m. m_current_message s = Some m \<and> remaining m \<noteq> []) \<and> write_blocked s \<or>
     r \<in> {Inr False, Inl (SocketError ''strerror''), Inl (SocketError ''Socket is closed'')} \<and> \<not> tcp_is_valid s"

definition send_measure :: "'a tcp_socket_scheme \<Rightarrow> nat" where
  "send_measure s = length (m_send_queue s) + (if m_current_message s = None then 0 else 1)"

lemma tcp_next_message_None:
  "tcp_next_message s = None \<longleftrightarrow> m_current_message s = None \<and> m_send_queue s = []"
  by (simp add: tcp_next_message_def split: option.split list.split)

lemma tcp_next_message_Some:
  assumes "tcp_next_message s = Some t" and "send_inv s"
  shows "\<exists>m. m_current_message t = Some m" and "send_inv t" and "conserves s t"
    and "length (m_send_queue t) < send_measure s"
proof -
  have "(\<exists>m. m_current_message t = Some m) \<and> send_inv t \<and> conserves s t \<and>
      length (m_send_queue t) < send_measure s"
  proof (cases "m_current_message s")
    case (Some m)
    then show ?thesis using assms by (simp add: tcp_next_message_def send_measure_def)
  next
    case None
    then obtain m q where q: "m_send_queue s = m # q"
        "t = (sys SysNotifyAll (s\<lparr>m_current_message := Some m,
             m_send_queue_size := m_send_queue_size s - ucast (mo_length m)\<rparr>))\<lparr>m_send_queue := q\<rparr>"
      using assms(1) by (auto simp: tcp_next_message_def split: list.splits)
    have "conserves s t"
      using None q by (intro conservesI [of _ _ "[SysNotifyAll]"]) (simp_all add: backlog_def bytes_sent_def)
    moreover have "send_inv t"
      using assms(2) None q queued_message_ok [of m]
      by (simp add: send_inv_def)
    ultimately show ?thesis using None q by (simp add: send_measure_def)
  qed
  then show "\<exists>m. m_current_message t = Some m" and "send_inv t" and "conserves s t"
    and "length (m_send_queue t) < send_measure s" by simp_all
qed

text \<open>
  What \<open>do_send\<close> needs of the closing routine that the socket's class provides: closing a valid
  socket fast succeeds, invalidates the socket and touches nothing of the sending half.
\<close>

locale fast_closer =
  fixes cl :: "'a tcp_socket_scheme closer"
    and ok :: "'a tcp_socket_scheme \<Rightarrow> bool"
  assumes close_fast: "tcp_is_valid s \<Longrightarrow> \<exists>b s' h. cl True s = (Inr b, s') \<and> \<not> tcp_is_valid s' \<and>
      same_sending s s' \<and> trace s' = trace s @ h \<and> bytes_sent h = [] \<and> bytes_received h = []"
    and close_ok: "ok s \<Longrightarrow> tcp_is_valid s \<Longrightarrow> ok (snd (cl True s))"
    and ok_frame: "ok s \<Longrightarrow> ok (s\<lparr>m_current_message := c, m_send_queue := q, m_send_queue_size := n, trace := t\<rparr>)"
begin

lemma close_then_send:
  assumes "tcp_is_valid s"
  obtains s' where "close_then cl True s r = (r, s')" "\<not> tcp_is_valid s'" "conserves s s'"
    "same_sending s s'" "ok s \<Longrightarrow> ok s'"
proof -
  obtain b s' h where c: "cl True s = (Inr b, s')" "\<not> tcp_is_valid s'" "same_sending s s'"
      "trace s' = trace s @ h" "bytes_sent h = []" "bytes_received h = []"
    using close_fast [OF assms] by blast
  have "conserves s s'"
    using c by (intro conservesI [of _ _ h]) (simp_all add: same_sending_backlog, simp_all add: same_sending_def)
  then show thesis
    using c close_ok [OF _ assms] by (intro that [of s']) (simp_all add: close_then_def)
qed

lemma ok_simps: "ok s \<Longrightarrow> ok (s\<lparr>m_current_message := c\<rparr>)" "ok s \<Longrightarrow> ok (sys e s)"
  "ok s \<Longrightarrow> ok (s\<lparr>m_send_queue := q\<rparr>)" "ok s \<Longrightarrow> ok (s\<lparr>m_send_queue_size := n\<rparr>)"
  using ok_frame [of s "trace s" "m_send_queue_size s" "m_send_queue s" c]
    ok_frame [of s "trace s @ [e]" "m_send_queue_size s" "m_send_queue s" "m_current_message s"]
    ok_frame [of s "trace s" "m_send_queue_size s" q "m_current_message s"]
    ok_frame [of s "trace s" n "m_send_queue s" "m_current_message s"]
  by (simp_all add: sys_def)

lemma write_loop_total:
  assumes wb: "write_bounded os" and "tcp_is_valid s" and "m_current_message s = Some m" and "message_ok m"
  obtains r s' m' where "tcp_write_loop os cl s = Some (r, s')" "m_current_message s' = Some m'"
    "message_ok m'" "conserves s s'" "write_end s' r" "m_send_queue s' = m_send_queue s"
    "m_send_queue_size s' = m_send_queue_size s" "ok s \<Longrightarrow> ok s'"
  using assms(2-)
proof (induction "length (remaining m)" arbitrary: s m thesis rule: less_induct)
  case less
  note valid = less.prems(2) and cur = less.prems(3) and mok = less.prems(4)
  note ask = message_ok_read [OF mok] message_ok_remaining [OF mok]
  show thesis
  proof (cases "mo_sent_pos m < mo_length m")
    case False
    then have "remaining m = []" using mok ask(3) by (simp add: message_ok_def)
    then show thesis
      using False cur mok valid
      by (intro less.prems(1) [of "Inr None" s m])
        (simp_all add: tcp_write_loop.simps write_end_def)
  next
    case True
    then have ne: "remaining m \<noteq> []" using ask(3) by auto
    let ?x = "os_write os (trace s) (m_fd s) (remaining m)"
    let ?s = "sys (SysWrite (m_fd s) (remaining m) ?x) s"
    have v: "tcp_is_valid ?s" using valid by (simp add: tcp_is_valid_def)
    note step = tcp_write_loop_step [OF cur mok True, of os cl]
    have same: "backlog ?s = backlog s" "m_current_message ?s = Some m" "ok s \<Longrightarrow> ok ?s"
      using cur by (simp_all add: backlog_def ok_simps)
    have closing: thesis if "sent_by (SysWrite (m_fd s) (remaining m) ?x) = []"
      and "tcp_write_loop os cl s = Some (close_then cl True ?s r)"
      and "r = Inr (Some False) \<or> r = Inl (SocketError ''strerror'')" for r
    proof (rule close_then_send [OF v, of r])
      fix s' assume c: "close_then cl True ?s r = (r, s')" "\<not> tcp_is_valid s'" "conserves ?s s'"
        "same_sending ?s s'" "ok ?s \<Longrightarrow> ok s'"
      have "conserves s ?s" using that(1) same(1)
        by (intro conservesI [of _ _ "[SysWrite (m_fd s) (remaining m) ?x]"]) simp_all
      then show thesis
        using c mok same that
        by (intro less.prems(1) [of r s' m])
          (auto simp: write_end_def same_sending_def intro: conserves_trans)
    qed
    show thesis
    proof (cases ?x)
      case (WriteErr e)
      show thesis
      proof (cases "e = EAGAIN")
        case True
        have "conserves s ?s" using WriteErr same(1)
          by (intro conservesI [of _ _ "[SysWrite (m_fd s) (remaining m) ?x]"]) simp_all
        then show thesis
          using True WriteErr step same v ne mok
          by (intro less.prems(1) [of "Inr (Some True)" ?s m]) (simp_all add: write_end_def write_blocked_def)
      next
        case False
        show thesis
          by (rule closing [of "if e = ECONNRESET \<or> e = EPIPE then Inr (Some False)
              else Inl (SocketError ''strerror'')"]) (use WriteErr step False in simp_all)
      qed
    next
      case (WriteN n)
      show thesis
      proof (cases "n = 0")
        case True
        show thesis by (rule closing [of "Inr (Some False)"]) (use WriteN step True in simp_all)
      next
        case False
        let ?m = "m\<lparr>mo_sent_pos := mo_sent_pos m + of_nat n\<rparr>"
        let ?t = "?s\<lparr>m_current_message := Some ?m\<rparr>"
        have n: "n \<le> length (remaining m)" using write_boundedD [OF wb WriteN] .
        note adv = message_ok_advance [OF mok n]
        have cons: "conserves s ?t" using WriteN cur adv(2)
          by (intro conservesI [of _ _ "[SysWrite (m_fd s) (remaining m) ?x]"])
            (simp_all add: backlog_def)
        have lt: "length (remaining ?m) < length (remaining m)" using adv(3) False ne by simp
        have vt: "tcp_is_valid ?t" and okt: "ok s \<Longrightarrow> ok ?t"
          using v by (simp_all add: tcp_is_valid_def ok_simps)
        have eq: "tcp_write_loop os cl s = tcp_write_loop os cl ?t" using step WriteN False by simp
        show thesis
        proof (rule less.hyps [OF lt _ vt _ adv(1)])
          fix r s' m'
          assume ih: "tcp_write_loop os cl ?t = Some (r, s')" "m_current_message s' = Some m'"
            "message_ok m'" "conserves ?t s'" "write_end s' r" "m_send_queue s' = m_send_queue ?t"
            "m_send_queue_size s' = m_send_queue_size ?t" "ok ?t \<Longrightarrow> ok s'"
          show thesis
            using ih(6,7) by (intro less.prems(1) [OF _ ih(2,3) conserves_trans [OF cons ih(4)] ih(5)])
              (simp_all add: eq ih(1) okt ih(8))
        qed simp
      qed
    qed
  qed
qed

lemma ok_next_message: "tcp_next_message s = Some t \<Longrightarrow> ok s \<Longrightarrow> ok t"
  by (auto simp: tcp_next_message_def intro!: ok_simps split: option.splits list.splits)

lemma do_send_total:
  assumes wb: "write_bounded os" and "send_inv s"
  obtains r s' where "tcp_do_send os cl s = Some (r, s')" "conserves s s'" "send_inv s'"
    "send_end s' r" "ok s \<Longrightarrow> ok s'"
  using assms(2)
proof (induction "send_measure s" arbitrary: s thesis rule: less_induct)
  case less
  show thesis
  proof (cases "tcp_next_message s")
    case None
    then show thesis
      using less.prems(2) by (intro less.prems(1) [of "Inr False" s])
        (simp_all add: tcp_do_send.simps send_end_def, simp add: tcp_next_message_None)
  next
    case (Some t)
    obtain m where t: "m_current_message t = Some m" "send_inv t" "conserves s t" "ok s \<Longrightarrow> ok t"
        "length (m_send_queue t) < send_measure s"
      using tcp_next_message_Some [OF Some less.prems(2)] ok_next_message [OF Some] by blast
    have mok: "message_ok m" using t(1,2) by (simp add: send_inv_def)
    show thesis
    proof (cases "tcp_is_valid t")
      case False
      then show thesis
        using t(2-4) Some by (intro less.prems(1) [of "Inl (SocketError ''Socket is closed'')" t])
          (simp_all add: tcp_do_send.simps send_end_def)
    next
      case True
      obtain r u m' where w: "tcp_write_loop os cl t = Some (r, u)" "m_current_message u = Some m'"
          "message_ok m'" "conserves t u" "write_end u r" "m_send_queue u = m_send_queue t"
          "m_send_queue_size u = m_send_queue_size t" "ok t \<Longrightarrow> ok u"
        using write_loop_total [OF wb True t(1) mok] by blast
      have u: "conserves s u" "send_inv u" "ok s \<Longrightarrow> ok u"
        using conserves_trans [OF t(3) w(4)] t(2,4) w by (simp_all add: send_inv_def)
      have eq: "tcp_do_send os cl s = (case r of Inl e \<Rightarrow> Some (Inl e, u) | Inr (Some b) \<Rightarrow> Some (Inr b, u)
          | Inr None \<Rightarrow> tcp_do_send os cl (u\<lparr>m_current_message := None\<rparr>))"
        using Some True w(1) by (subst tcp_do_send.simps) simp
      show thesis
      proof (cases "r = Inr None")
        case False
        then show thesis
          using w(2,5) u eq by (cases r; cases "projr r")
            (auto simp: write_end_def send_end_def intro!: less.prems(1))
      next
        case True
        let ?v = "u\<lparr>m_current_message := None\<rparr>"
        have v: "conserves s ?v" "send_inv ?v" "ok s \<Longrightarrow> ok ?v"
          using u w(2,5) True by (simp_all add: send_inv_def ok_simps conserves_def backlog_def write_end_def)
        have lt: "send_measure ?v < send_measure s" using t(5) w(6) by (simp add: send_measure_def)
        show thesis
          by (rule less.hyps [OF lt _ v(2)])
            (rule less.prems(1), simp_all add: eq True v(3), blast intro: conserves_trans [OF v(1)])
      qed
    qed
  qed
qed

end

section \<open>The invariant of a socket\<close>

text \<open>
  A socket in use owns a descriptor, its slicer is well formed and has nothing to process, the send queue holds complete
  messages and its accounted size is the exact sum, which exceeds the limit by less than one message.
\<close>

definition fd_ok :: "'a tcp_socket_scheme \<Rightarrow> bool" where
  "fd_ok s \<longleftrightarrow> (m_state s \<in> {Listening, Connected, Shutdown} \<longrightarrow> m_fd s > 0)"

definition tcp_base :: "MessageMode \<Rightarrow> 'a tcp_socket_scheme \<Rightarrow> bool" where
  "tcp_base mode s \<longleftrightarrow> slicer_idle mode (m_slicer s) \<and> fd_ok s"

definition queue_bounded :: "'a tcp_socket_scheme \<Rightarrow> bool" where
  "queue_bounded s \<longleftrightarrow>
     queue_total (m_send_queue s) < unat (m_max_send_queue_size s) + 2 ^ 32 \<and>
     unat (m_max_send_queue_size s) + 2 ^ 32 < 2 ^ 64"

definition tcp_inv :: "MessageMode \<Rightarrow> 'a tcp_socket_scheme \<Rightarrow> bool" where
  "tcp_inv mode s \<longleftrightarrow> tcp_base mode s \<and> send_inv s \<and> queue_bounded s"

lemma queue_bounded_conserves: "queue_bounded s \<Longrightarrow> conserves s s' \<Longrightarrow> queue_bounded s'"
  by (auto simp: queue_bounded_def conserves_def)

lemma send_queue_size_exact:
  assumes "send_inv s" and "queue_bounded s"
  shows "unat (m_send_queue_size s) = queue_total (m_send_queue s)"
  using assms by (simp add: send_inv_def queue_bounded_def unat_of_nat)

lemma tcp_base_closed:
  "slicer_idle mode (m_slicer s) \<Longrightarrow> m_state s = Closed \<Longrightarrow> tcp_base mode (tcp_reset_buffer s)"
  using slicer_idle_reset [of mode "m_slicer s"] by (simp add: tcp_base_def fd_ok_def slicer_idle_def)

lemma tcp_base_frame [simp]:
  "tcp_base mode (sys e s) = tcp_base mode s"
  "tcp_base mode (s\<lparr>m_current_message := c\<rparr>) = tcp_base mode s"
  "tcp_base mode (s\<lparr>m_send_queue := q\<rparr>) = tcp_base mode s"
  "tcp_base mode (s\<lparr>m_send_queue_size := n\<rparr>) = tcp_base mode s"
  "tcp_base mode (s\<lparr>trace := t\<rparr>) = tcp_base mode s"
  by (simp_all add: tcp_base_def fd_ok_def)

text \<open>Closing also keeps what the slicer has received; the state changes to closed only.\<close>

definition tcp_base_from :: "MessageMode \<Rightarrow> slicer \<Rightarrow> tcp_state \<Rightarrow> int \<Rightarrow> 'a tcp_socket_scheme \<Rightarrow> bool" where
  "tcp_base_from mode sl st fd s \<longleftrightarrow> tcp_base mode s \<and> same_content sl (m_slicer s) \<and>
     m_state s \<in> {st, Closed} \<and> m_fd s \<in> {fd, -1}"

interpretation tcpc: fast_closer "tcp_close os" "tcp_base_from mode sl st fd" for os mode sl st fd
proof
  fix s :: "'a tcp_socket_scheme"
  assume v: "tcp_is_valid s"
  show "\<exists>b s' h. tcp_close os True s = (Inr b, s') \<and> \<not> tcp_is_valid s' \<and> same_sending s s' \<and>
      trace s' = trace s @ h \<and> bytes_sent h = [] \<and> bytes_received h = []"
    by (intro exI [of _ True])
      (simp add: tcp_close_fast [OF v] tcp_is_valid_def same_sending_def bytes_sent_def bytes_received_def)
  let ?s = "(sys (SysClose (m_fd s)) (s\<lparr>m_state := Closed\<rparr>))\<lparr>m_fd := -1\<rparr>"
  assume ok: "tcp_base_from mode sl st fd s"
  then have "tcp_base mode (tcp_reset_buffer ?s)"
    by (intro tcp_base_closed) (simp_all add: tcp_base_from_def tcp_base_def)
  then show "tcp_base_from mode sl st fd (snd (tcp_close os True s))"
    using ok same_content_trans [of sl "m_slicer s"] by (simp add: tcp_close_fast [OF v] tcp_base_from_def)
qed (simp add: tcp_base_from_def)

lemma tcp_do_send_total:
  assumes "write_bounded os" and "tcp_inv mode s"
  obtains r s' where "tcp_do_send os (tcp_close os) s = Some (r, s')" "conserves s s'" "tcp_inv mode s'"
    "send_end s' r" "same_content (m_slicer s) (m_slicer s')" "m_state s' \<in> {m_state s, Closed}"
    "m_fd s' \<in> {m_fd s, -1}"
proof -
  have "send_inv s" "queue_bounded s" and base: "tcp_base_from mode (m_slicer s) (m_state s) (m_fd s) s"
    using assms(2) by (simp_all add: tcp_inv_def tcp_base_from_def same_content_def)
  then show thesis
    using tcpc.do_send_total [OF assms(1), of s os mode "m_slicer s" "m_state s" "m_fd s"] queue_bounded_conserves [of s] that
    by (metis tcp_inv_def tcp_base_from_def)
qed

lemma tcp_enqueue:
  assumes "tcp_inv mode s" and "m_send_queue_size s < m_max_send_queue_size s" and "queued_ok m"
  shows "tcp_inv mode (tcp_enqueue m s)" and "backlog (tcp_enqueue m s) = backlog s @ remaining m"
    and "trace (tcp_enqueue m s) = trace s" and "m_slicer (tcp_enqueue m s) = m_slicer s"
    and "m_max_send_queue_size (tcp_enqueue m s) = m_max_send_queue_size s"
    and "m_state (tcp_enqueue m s) = m_state s"
proof -
  have "queue_total (m_send_queue s) < unat (m_max_send_queue_size s)"
    using assms(1,2) send_queue_size_exact [of s] by (simp add: tcp_inv_def word_less_nat_alt)
  then have "queue_bounded (tcp_enqueue m s)"
    using assms(1) unat_u32_bound [of "mo_length m"]
    by (simp add: tcp_inv_def queue_bounded_def tcp_enqueue_def)
  then show "tcp_inv mode (tcp_enqueue m s)"
    using assms(1,3) by (simp add: tcp_inv_def send_inv_def tcp_enqueue_def)
qed (simp_all add: tcp_enqueue_def backlog_def)

section \<open>Sending\<close>

text \<open>The part of the \<open>send\<close> methods after the guards.\<close>

lemma tcp_send_enqueued:
  assumes "write_bounded os" and "tcp_inv mode s" and "m_send_queue_size s < m_max_send_queue_size s"
    and "queued_ok m"
  obtains r s' h where
    "(if async then Some (Inr True, tcp_enqueue m s) else tcp_do_send os (tcp_close os) (tcp_enqueue m s)) =
      Some (r, s')"
    "trace s' = trace s @ h" "bytes_sent h @ backlog s' = backlog s @ remaining m" "tcp_inv mode s'"
    "if async then r = Inr True \<and> h = [] else send_end s' r"
    "bytes_received h = []" "same_content (m_slicer s) (m_slicer s')"
    "m_max_send_queue_size s' = m_max_send_queue_size s" "m_state s' \<in> {m_state s, Closed}"
proof -
  note e = tcp_enqueue [OF assms(2-4)]
  show thesis
  proof (cases async)
    case True
    then show thesis
      using e by (intro that [of "Inr True" "tcp_enqueue m s" "[]"]) (simp_all add: same_content_def)
  next
    case False
    obtain r s' where d: "tcp_do_send os (tcp_close os) (tcp_enqueue m s) = Some (r, s')"
        "conserves (tcp_enqueue m s) s'" "tcp_inv mode s'" "send_end s' r"
        "same_content (m_slicer s) (m_slicer s')" "m_state s' \<in> {m_state s, Closed}"
      using tcp_do_send_total [OF assms(1) e(1)] e(4,6) by metis
    then obtain h where "trace s' = trace s @ h" "bytes_sent h @ backlog s' = backlog s @ remaining m"
      "bytes_received h = []" "m_max_send_queue_size s' = m_max_send_queue_size s"
      using e by (auto simp: conserves_def)
    then show thesis using False d by (intro that [of r s' h]) simp_all
  qed
qed

lemma tcp_send_unique_total:
  assumes "write_bounded os" and "tcp_inv mode s" and "m_send_queue_size s < m_max_send_queue_size s"
    and "tcp_is_valid s" and "data \<noteq> []" and "length data + 4 < 2 ^ 32"
  obtains r s' h where "tcp_send_unique os data (of_nat (length data)) async s = Some (r, s')"
    "trace s' = trace s @ h" "bytes_sent h @ backlog s' = backlog s @ wire_of mode data" "tcp_inv mode s'"
    "if async then r = Inr True \<and> h = [] else send_end s' r"
    "bytes_received h = []" "same_content (m_slicer s) (m_slicer s')"
    "m_max_send_queue_size s' = m_max_send_queue_size s" "m_state s' \<in> {m_state s, Closed}"
proof -
  let ?w = "wire_of mode data"
  let ?m = "message_out_unique ?w (of_nat (length ?w))"
  have len: "unat (of_nat (length data) :: u32) = length data"
    using assms(6) by (intro unat_of_nat_small32) simp
  then have ne: "(of_nat (length data) :: u32) \<noteq> 0" using assms(5) by (metis length_0_conv unat_0)
  have w: "length ?w < 2 ^ 32" "?w \<noteq> []" using assms(5,6) by (cases mode; auto simp: frame_def)+
  have wl: "unat (of_nat (length ?w) :: u32) = length ?w" using w(1) by (rule unat_of_nat_small32)
  have m: "queued_ok ?m" "remaining ?m = ?w"
    using w(2) wl by (simp_all add: queued_ok_def message_out_unique_def remaining_def word_less_nat_alt)
  have prep: "slicer_prepare_message (m_slicer s) data (of_nat (length data)) =
      Inr (?w, of_nat (length ?w))"
    using assms(2,6) len by (intro slicer_prepare_message) (simp_all add: tcp_inv_def tcp_base_def slicer_idle_def)
  have eq: "tcp_send_unique os data (of_nat (length data)) async s =
      (if async then Some (Inr True, tcp_enqueue ?m s) else tcp_do_send os (tcp_close os) (tcp_enqueue ?m s))"
    using assms(3) [folded not_le] assms(4) ne prep by (simp add: tcp_send_unique_def Let_def)
  show thesis
    by (rule tcp_send_enqueued [OF assms(1-3) m(1), of async, folded eq, unfolded m(2)])
      (rule that; assumption)
qed

lemma tcp_send_total:
  assumes "write_bounded os" and "tcp_inv mode s" and "tcp_is_valid s"
    and "m_send_queue_size s < m_max_send_queue_size s"
    and "0 < len" and "unat len + 4 < 2 ^ 32" and "unat len \<le> length data"
  obtains r s' h where "tcp_send os data len async s = Some (r, s')" "trace s' = trace s @ h"
    "bytes_sent h @ backlog s' = backlog s @ wire_of mode (take (unat len) data)" "tcp_inv mode s'"
    "if async then r = Inr True \<and> h = [] else send_end s' r"
    "bytes_received h = []" "same_content (m_slicer s) (m_slicer s')"
    "m_max_send_queue_size s' = m_max_send_queue_size s" "m_state s' \<in> {m_state s, Closed}"
proof -
  let ?d = "take (unat len) data"
  have l: "length ?d = unat len" using assms(7) by simp
  have "0 < unat len" using assms(5) by (simp add: word_less_nat_alt)
  then have d: "?d \<noteq> []" using l by auto
  have bnd: "length ?d + 4 < 2 ^ 32" using assms(6) l by simp
  have eq: "tcp_send os data len async s = tcp_send_unique os ?d (of_nat (length ?d)) async s"
    using assms(7) l by (simp add: tcp_send_def mem_read_def)
  show thesis
    by (rule tcp_send_unique_total [OF assms(1,2,4,3) d bnd, of async, folded eq]) (rule that; assumption)
qed

lemma tcp_send_shared_total:
  assumes "write_bounded os" and "tcp_inv mode s" and "tcp_is_valid s"
    and "m_send_queue_size s < m_max_send_queue_size s" and "0 < len" and "unat len \<le> length data"
  obtains r s' h where "tcp_send_shared os data len async s = Some (r, s')" "trace s' = trace s @ h"
    "bytes_sent h @ backlog s' = backlog s @ take (unat len) data" "tcp_inv mode s'"
    "if async then r = Inr True \<and> h = [] else send_end s' r"
    "bytes_received h = []" "same_content (m_slicer s) (m_slicer s')"
    "m_max_send_queue_size s' = m_max_send_queue_size s" "m_state s' \<in> {m_state s, Closed}"
proof -
  let ?m = "message_out_shared data len"
  have m: "queued_ok ?m" "remaining ?m = take (unat len) data"
    using assms(5,6) by (simp_all add: queued_ok_def message_out_shared_def remaining_def)
  have eq: "tcp_send_shared os data len async s =
      (if async then Some (Inr True, tcp_enqueue ?m s) else tcp_do_send os (tcp_close os) (tcp_enqueue ?m s))"
    using assms(3) assms(4) [folded not_le] assms(5) by (simp add: tcp_send_shared_def Let_def word_gt_0)
  show thesis
    by (rule tcp_send_enqueued [OF assms(1,2,4) m(1), of async, folded eq, unfolded m(2)])
      (rule that; assumption)
qed

lemma tcp_send_rejected:
  assumes "unat len \<le> length data" and "len = 0 \<or> \<not> tcp_is_valid s \<or> m_max_send_queue_size s \<le> m_send_queue_size s"
  defines "e \<equiv> (if len = 0 then SocketError ''Message size has to be > 0''
     else if \<not> tcp_is_valid s then SocketError ''Socket is closed'' else SendQueueFull)"
  shows "tcp_send os data len async s = Some (Inl e, s)"
    and "tcp_send_shared os data len async s = Some (Inl e, s)"
    and "tcp_send_unique os data len async s = Some (Inl e, s)"
  using assms by (auto simp: tcp_send_def mem_read_def tcp_send_unique_def tcp_send_shared_def)

section \<open>Properties\<close>

text \<open>
  C5. \<open>do_send\<close> returns, whatever portions the kernel takes, and loses, repeats and reorders nothing:
  the bytes written during the call followed by the new backlog are the old backlog.  It
  returns false only when everything is sent or the socket has been closed, true only on a valid
  socket with an unfinished message after a \<open>write\<close> that would block, and throws only on a socket that is no longer valid.  The
  invariant of the socket is kept on every path.
\<close>

theorem tcp_do_send_conserves:
  assumes "write_bounded os" and "tcp_inv mode s"
  shows "\<exists>r s' h. tcp_do_send os (tcp_close os) s = Some (r, s') \<and> tcp_inv mode s' \<and>
    trace s' = trace s @ h \<and> bytes_sent h @ backlog s' = backlog s \<and>
    (r = Inr False \<longrightarrow> tcp_is_valid s' \<longrightarrow> backlog s' = [] \<and> m_send_queue_size s' = 0) \<and>
    (r = Inr True \<longrightarrow> tcp_is_valid s' \<and> backlog s' \<noteq> [] \<and> write_blocked s') \<and>
    (\<forall>e. r = Inl e \<longrightarrow> \<not> tcp_is_valid s' \<and>
       e \<in> {SocketError ''strerror'', SocketError ''Socket is closed''})"
proof -
  obtain r s' where d: "tcp_do_send os (tcp_close os) s = Some (r, s')" "conserves s s'" "tcp_inv mode s'"
      "send_end s' r"
    using tcp_do_send_total [OF assms] by blast
  obtain h where "trace s' = trace s @ h" "bytes_sent h @ backlog s' = backlog s"
    using d(2) by (auto simp: conserves_def)
  moreover have "r = Inr False \<longrightarrow> tcp_is_valid s' \<longrightarrow> backlog s' = [] \<and> m_send_queue_size s' = 0"
    using d(3,4) by (auto simp: send_end_def backlog_def tcp_inv_def send_inv_def)
  moreover have "r = Inr True \<longrightarrow> tcp_is_valid s' \<and> backlog s' \<noteq> [] \<and> write_blocked s'"
    "\<forall>e. r = Inl e \<longrightarrow> \<not> tcp_is_valid s' \<and> e \<in> {SocketError ''strerror'', SocketError ''Socket is closed''}"
    using d(4) by (auto simp: send_end_def backlog_def)
  ultimately show ?thesis using d(1,3) by blast
qed

lemma tcp_inv_connected_socket [simp]:
  "tcp_inv mode (connected_socket mode)" "tcp_is_valid (connected_socket mode)"
  "m_send_queue_size (connected_socket mode) < m_max_send_queue_size (connected_socket mode)"
  "backlog (connected_socket mode) = []"
  by (simp_all add: tcp_inv_def tcp_base_def fd_ok_def send_inv_def queue_bounded_def connected_socket_def
      tcp_new_def tcp_is_valid_def backlog_def)

text \<open>A socket with a message in its queue, and a kernel that takes everything.\<close>

definition loaded_socket :: tcp_socket where
  "loaded_socket = tcp_enqueue (message_out_unique [6, 0, 0, 0, 7, 8] 6) (connected_socket Datagram)"

lemma loaded_socket:
  "tcp_inv Datagram loaded_socket" "backlog loaded_socket = [6, 0, 0, 0, 7, 8]" "trace loaded_socket = []"
  unfolding loaded_socket_def
  by (rule tcp_enqueue, simp_all add: queued_ok_def message_out_unique_def,
      subst tcp_enqueue(2) [of Datagram], simp_all add: queued_ok_def remaining_def tcp_enqueue_def)

theorem tcp_do_send_conserves_witness:
  "\<exists>r s'. tcp_do_send (feeding_os []) (tcp_close (feeding_os [])) loaded_socket = Some (r, s') \<and>
    bytes_sent (trace s') @ backlog s' = [6, 0, 0, 0, 7, 8]"
  using tcp_do_send_conserves [OF feeding_os(3) loaded_socket(1), of "[]"]
  unfolding loaded_socket(2,3) by fastforce

text \<open>
  An accepted \<open>send\<close> on a connected socket appends exactly one frame of its payload (the bare
  payload in stream mode) behind everything accepted before: what is written during the call followed
  by the new backlog is the old backlog followed by the frame.  An asynchronous call writes nothing
  and returns true; a synchronous call ends like \<open>do_send\<close>.
\<close>

theorem tcp_send_appends_frame:
  assumes "write_bounded os" and "tcp_inv mode s" and "tcp_is_valid s"
    and "m_send_queue_size s < m_max_send_queue_size s"
    and "0 < len" and "unat len + 4 < 2 ^ 32" and "unat len \<le> length data"
  shows "\<exists>r s' h. tcp_send os data len async s = Some (r, s') \<and> tcp_inv mode s' \<and>
    trace s' = trace s @ h \<and>
    bytes_sent h @ backlog s' = backlog s @ wire_of mode (take (unat len) data) \<and>
    (if async then r = Inr True \<and> h = [] else send_end s' r)"
  by (rule tcp_send_total [OF assms(1-7), of async]) blast

theorem tcp_send_appends_frame_witness:
  "\<exists>r s'. tcp_send (feeding_os []) [7, 8] 2 False (connected_socket Datagram) = Some (r, s') \<and>
    bytes_sent (trace s') @ backlog s' = frame [7, 8]"
  using tcp_send_appends_frame [OF feeding_os(3) tcp_inv_connected_socket(1-3) [of Datagram], of 2 "[7, 8]" "[]" False]
  by auto

text \<open>
  The guards of \<open>send\<close>, in their order: an empty message, a closed socket and a full queue are
  refused with the matching exception, and the socket is left as it was, so that the caller can try
  again; a message is accepted only while the queue is below its limit.
\<close>

theorem tcp_send_refused:
  assumes "unat len \<le> length data" and "len = 0 \<or> \<not> tcp_is_valid s \<or> m_max_send_queue_size s \<le> m_send_queue_size s"
  shows "tcp_send os data len async s = Some (Inl
    (if len = 0 then SocketError ''Message size has to be > 0''
     else if \<not> tcp_is_valid s then SocketError ''Socket is closed'' else SendQueueFull), s)"
  using tcp_send_rejected(1) [OF assms] .

theorem tcp_send_refused_witness:
  "tcp_send (feeding_os []) [7] 1 False (tcp_new Stream 0) =
    Some (Inl (SocketError ''Socket is closed''), tcp_new Stream 0)"
  using tcp_send_refused [of 1 "[7]" "tcp_new Stream 0" "feeding_os []" False]
  by (simp add: tcp_new_def tcp_is_valid_def)

end
