(* ===== verification/Tcp_Lifecycle.thy ===== *)
theory Tcp_Lifecycle
  imports Tcp_Send
begin

text \<open>
  A socket over its whole life: every public operation of \<open>TcpSocket\<close> as a step, in any order and
  any number, from construction on.  The steps record which bytes \<open>send\<close> has accepted and which
  messages \<open>receive\<close> has handed out, and the invariant relates both to the bytes on the wire.
\<close>

section \<open>Operations that neither send nor receive\<close>

definition quiet :: "'a tcp_socket_scheme \<Rightarrow> 'a tcp_socket_scheme \<Rightarrow> bool" where
  "quiet s s' \<longleftrightarrow> same_sending s s' \<and> same_content (m_slicer s) (m_slicer s') \<and>
     (\<forall>mode. slicer_idle mode (m_slicer s) \<longrightarrow> slicer_idle mode (m_slicer s')) \<and>
     (\<exists>h. trace s' = trace s @ h \<and> bytes_sent h = [] \<and> bytes_received h = [])"

lemma quiet_refl [simp]: "quiet s s"
  by (simp add: quiet_def same_sending_def same_content_def)

lemma quiet_trans [trans]: "quiet a b \<Longrightarrow> quiet b c \<Longrightarrow> quiet a c"
  unfolding quiet_def same_sending_def same_content_def
  by (elim conjE exE) (intro conjI, simp_all)

lemma quiet_update [simp]:
  "quiet s (s\<lparr>m_fd := fd\<rparr>)" "quiet s (s\<lparr>m_state := st\<rparr>)" "quiet s (s\<lparr>m_port := p\<rparr>)"
  "quiet s (s\<lparr>m_is_ipv6 := v6\<rparr>)" "quiet s (s\<lparr>m_remote_address := a\<rparr>)"
  by (simp_all add: quiet_def same_sending_def same_content_def)

lemma quiet_sys: "sent_by e = [] \<Longrightarrow> received_by e = [] \<Longrightarrow> quiet s (sys e s)"
  by (simp add: quiet_def same_sending_def same_content_def)

lemma quiet_reset_buffer [simp]: "quiet s (tcp_reset_buffer s)"
  using slicer_idle_reset
  by (auto simp: quiet_def same_sending_def slicer_idle_def)

lemmas quiet_intros = quiet_trans [OF _ quiet_update(1)] quiet_trans [OF _ quiet_update(2)]
  quiet_trans [OF _ quiet_update(3)] quiet_trans [OF _ quiet_update(4)] quiet_trans [OF _ quiet_update(5)]
  quiet_trans [OF _ quiet_sys] quiet_trans [OF _ quiet_reset_buffer]

lemma tcp_close_quiet: "quiet s (snd (tcp_close os fast s))"
  by (auto simp: tcp_close_def Let_def intro!: quiet_intros split: option.split)

lemma close_then_quiet: "quiet s (snd (close_then (tcp_close os) fast s r))"
  using tcp_close_quiet [of s os fast]
  by (cases "tcp_close os fast s") (auto simp: close_then_def split: sum.split)

lemma tcp_update_port_quiet: "quiet s (tcp_update_port_number os s)"
  by (simp add: tcp_update_port_number_def)

lemma tcp_remote_address_quiet: "quiet s (tcp_calculate_remote_address os net s)"
  by (auto simp: tcp_calculate_remote_address_def Let_def intro!: quiet_intros split: option.split)

lemma tcp_set_nonblock_quiet: "quiet s (tcp_set_nonblock b s)"
  by (simp add: tcp_set_nonblock_def quiet_sys)

lemma tcp_create_fd_quiet: "quiet s (snd (tcp_create_fd os s))"
  by (auto simp: tcp_create_fd_def Let_def intro!: quiet_intros)

lemma tcp_bind_socket_quiet: "quiet s (snd (tcp_bind_socket os net a s))"
proof -
  obtain ok s1 where c: "tcp_create_fd os (s\<lparr>m_is_ipv6 := IPv6 a\<rparr>) = (ok, s1)" by force
  have "quiet s s1"
    using quiet_trans [OF quiet_update(4) tcp_create_fd_quiet, of s os "IPv6 a"] c by simp
  then show ?thesis
    by (auto simp: tcp_bind_socket_def c Let_def intro!: quiet_intros quiet_trans [OF _ tcp_update_port_quiet])
qed

lemma tcp_listen_quiet: "quiet s (snd (tcp_listen os net a n s))"
proof -
  obtain ok s1 where b: "tcp_bind_socket os net a s = (ok, s1)" by force
  have "quiet s s1" using tcp_bind_socket_quiet [of s os net a] b by simp
  then show ?thesis
    by (auto simp: tcp_listen_def b Let_def intro!: quiet_intros quiet_trans [OF _ tcp_set_nonblock_quiet])
qed

section \<open>State and descriptor\<close>

lemma tcp_update_port_simps [simp]:
  "m_state (tcp_update_port_number os s) = m_state s" "m_fd (tcp_update_port_number os s) = m_fd s"
  by (simp_all add: tcp_update_port_number_def)

lemma tcp_remote_address_simps [simp]:
  "m_state (tcp_calculate_remote_address os net s) = m_state s"
  "m_fd (tcp_calculate_remote_address os net s) = m_fd s"
  by (simp_all add: tcp_calculate_remote_address_def Let_def split: option.split)

lemma tcp_set_nonblock_simps [simp]:
  "m_state (tcp_set_nonblock b s) = m_state s" "m_fd (tcp_set_nonblock b s) = m_fd s"
  by (simp_all add: tcp_set_nonblock_def)

lemma tcp_create_fd_state:
  "m_state (snd (tcp_create_fd os s)) = m_state s"
  "fst (tcp_create_fd os s) \<Longrightarrow> m_fd (snd (tcp_create_fd os s)) > 0"
  by (auto simp: tcp_create_fd_def Let_def tcp_is_valid_def split: if_splits)

lemma tcp_bind_socket_state:
  "m_state (snd (tcp_bind_socket os net a s)) = m_state s"
  "fst (tcp_bind_socket os net a s) \<Longrightarrow> m_fd (snd (tcp_bind_socket os net a s)) > 0"
  using tcp_create_fd_state [of os "s\<lparr>m_is_ipv6 := IPv6 a\<rparr>"]
  by (auto simp: tcp_bind_socket_def Let_def split: prod.splits if_splits)

text \<open>A socket that is not in use keeps its state until it succeeds to connect or listen.\<close>

definition unused :: "'a tcp_socket_scheme \<Rightarrow> bool" where
  "unused s \<longleftrightarrow> m_state s \<in> {Unknown, Closed}"

lemma unused_fd_ok: "unused s \<Longrightarrow> fd_ok s"
  by (auto simp: unused_def fd_ok_def)

lemma tcp_listen_fd_ok:
  assumes "unused s"
  shows "fd_ok (snd (tcp_listen os net a n s))"
proof -
  obtain ok s1 where b: "tcp_bind_socket os net a s = (ok, s1)" by force
  then show ?thesis
    using assms tcp_bind_socket_state [of os net a s]
    by (auto simp: tcp_listen_def Let_def unused_def fd_ok_def)
qed

lemma tcp_close_total:
  assumes "fd_ok s" and "\<forall>e. os_shutdown os (trace s) (m_fd s) = Some e \<longrightarrow> e = ENOTCONN"
  shows "\<exists>b s'. tcp_close os fast s = (Inr b, s') \<and> fd_ok s' \<and>
    (if b then unused s' \<and> \<not> tcp_is_valid s'
     else tcp_is_connected s \<and> \<not> fast \<and> m_state s' = Shutdown \<and> m_fd s' = m_fd s)"
  using assms
  by (cases "os_shutdown os (trace s) (m_fd s)"; cases "m_state s")
    (auto simp: tcp_close_def Let_def fd_ok_def unused_def tcp_is_valid_def tcp_is_connected_def)

lemma tcp_connect_prepare:
  assumes "tcp_connect_prepare os net a name s = (r, s1)"
  shows "quiet s s1 \<and> m_state s1 = m_state s \<and> (r = Inr () \<longrightarrow> m_fd s1 > 0)"
proof (cases "name = []")
  case True
  then show ?thesis
    using assms tcp_create_fd_state [of os "s\<lparr>m_is_ipv6 := IPv6 a\<rparr>"]
      quiet_trans [OF quiet_update(4) tcp_create_fd_quiet, of s os "IPv6 a"]
    by (cases "tcp_create_fd os (s\<lparr>m_is_ipv6 := IPv6 a\<rparr>)")
      (auto simp: tcp_connect_prepare_def split: if_splits)
next
  case named: False
  show ?thesis
  proof (cases "resolve_URL net name 0 (IPv6 a)")
    case (Inl e)
    then show ?thesis using assms named by (auto simp: tcp_connect_prepare_def)
  next
    case (Inr my)
    then show ?thesis
      using assms named tcp_bind_socket_state [of os net my s] tcp_bind_socket_quiet [of s os net my]
      by (cases "tcp_bind_socket os net my s") (auto simp: tcp_connect_prepare_def split: if_splits)
  qed
qed

text \<open>The outcomes of \<open>connect\<close>: refused arguments or no socket, no connection, a connection.\<close>

lemma tcp_connect_cases:
  assumes c: "tcp_connect os net a name s = (r, s')" and un: "unused s"
  obtains (error) e where "r = Inl e" "quiet s s'" "unused s'"
    | (refused) "r = Inr False" "quiet s s'" "unused s'" "\<not> tcp_is_valid s'"
    | (connected) "r = Inr True" "quiet s s'" "m_state s' = Connected" "tcp_is_valid s'" "PortNumber a \<noteq> 0"
proof (cases "PortNumber a = 0")
  case True
  then show thesis using c un by (intro error) (auto simp: tcp_connect_def tcp_connect_with_def)
next
  case port: False
  obtain p s1 where p: "tcp_connect_prepare os net a name s = (p, s1)" by force
  note prep = tcp_connect_prepare [OF p]
  show thesis
  proof (cases p)
    case (Inl e)
    then show thesis using c un port p prep
      by (intro error [of e]) (auto simp: tcp_connect_def tcp_connect_with_def unused_def)
  next
    case (Inr u)
    define addr where "addr = tcp_sock_address net (m_is_ipv6 (tcp_set_nonblock False s1)) a"
    define res where "res = os_connect os (trace (tcp_set_nonblock False s1)) (m_fd s1) addr"
    define s2 where "s2 = sys (SysConnect (m_fd s1) addr res) (tcp_set_nonblock False s1)"
    have s2: "quiet s s2" "m_state s2 = m_state s" "m_fd s2 > 0"
      using prep Inr by (auto simp: s2_def intro!: quiet_intros quiet_trans [OF _ tcp_set_nonblock_quiet])
    have eq: "(r, s') = (if res \<noteq> 0 then close_then (tcp_close os) False s2 (Inr False)
        else (Inr True, (tcp_update_port_number os (tcp_calculate_remote_address os net
          (tcp_set_nonblock True s2)))\<lparr>m_state := Connected\<rparr>))"
      using c port p Inr
      by (simp add: tcp_connect_def tcp_connect_with_def Let_def s2_def res_def addr_def split: if_splits)
    show thesis
    proof (cases "res = 0")
      case True
      then show thesis using eq s2 port
        by (intro connected) (auto simp: tcp_is_valid_def intro!: quiet_intros
          quiet_trans [OF _ tcp_set_nonblock_quiet] quiet_trans [OF _ tcp_update_port_quiet]
          quiet_trans [OF _ tcp_remote_address_quiet])
    next
      case False
      have "quiet s s'" using eq False quiet_trans [OF s2(1) close_then_quiet] by (metis snd_conv)
      then show thesis using eq False s2 un
        by (intro refused) (auto simp: close_then_def tcp_close_def unused_def tcp_is_valid_def)
    qed
  qed
qed

section \<open>Accepting\<close>

lemma tcp_new_child_quiet: "quiet (tcp_new mode n) (tcp_new_child os net mode fd n)"
  unfolding tcp_new_child_def Let_def
  by (rule quiet_trans [OF quiet_trans [OF quiet_trans [OF quiet_trans [OF quiet_update(1)
    tcp_set_nonblock_quiet] tcp_update_port_quiet] tcp_remote_address_quiet] quiet_update(2)])

lemma tcp_new_child:
  shows "m_fd (tcp_new_child os net mode fd n) = fd"
    and "m_state (tcp_new_child os net mode fd n) = Connected"
    and "0 < fd \<Longrightarrow> unat n + 2 ^ 32 < 2 ^ 64 \<Longrightarrow> tcp_inv mode (tcp_new_child os net mode fd n)"
proof -
  let ?c = "tcp_new_child os net mode fd n"
  show c: "m_fd ?c = fd" "m_state ?c = Connected" by (simp_all add: tcp_new_child_def Let_def)
  have "same_sending (tcp_new mode n) ?c" "slicer_idle mode (m_slicer ?c)"
    using tcp_new_child_quiet [of mode n os net fd] slicer_idle_make [of mode]
    by (auto simp: quiet_def tcp_new_def simp del: make_slicer.simps)
  then show "tcp_inv mode ?c" if "0 < fd" "unat n + 2 ^ 32 < 2 ^ 64"
    using that c
    by (simp add: tcp_inv_def tcp_base_def fd_ok_def send_inv_def queue_bounded_def same_sending_def tcp_new_def)
qed

text \<open>One round of the loop of \<open>accept\<close>.\<close>

lemma tcp_internal_accept_cases:
  fixes s :: tcp_socket
  assumes "m_state s = Listening" and "fd_ok s"
  obtains (child) fd where "os_accept os (trace s) (m_fd s) = Inr fd"
      "tcp_internal_accept os (tcp_close os) s = (Inr fd, sys (SysAccept (m_fd s) (Inr fd)) s)"
    | (none) "tcp_internal_accept os (tcp_close os) s = (Inr (-1), sys (SysAccept (m_fd s) (Inl EAGAIN)) s)"
    | (failed) s' h where "tcp_internal_accept os (tcp_close os) s =
        (Inl (SocketError ''Failed to accept new connection''), s')"
      "m_state s' = Closed" "quiet s s'" "trace s' = trace s @ h" "fds_accepted h = []"
proof (cases "os_accept os (trace s) (m_fd s)")
  case (Inr fd)
  then show thesis by (intro child [of fd]) (simp_all add: tcp_internal_accept_def Let_def)
next
  case (Inl e)
  let ?s = "sys (SysAccept (m_fd s) (Inl e)) s"
  show thesis
  proof (cases "e = EAGAIN")
    case True
    then show thesis using Inl by (intro none) (simp add: tcp_internal_accept_def Let_def)
  next
    case False
    have fd: "m_fd s > 0" using assms by (simp add: fd_ok_def)
    let ?e = "Inl (SocketError ''Failed to accept new connection'') :: error + int"
    have "quiet s (snd (close_then (tcp_close os) False ?s ?e))"
      by (rule quiet_trans [OF quiet_sys close_then_quiet]) simp_all
    then show thesis
      using Inl False fd assms
      by (intro failed [of _ "[SysAccept (m_fd s) (Inl e), SysClose (m_fd s), SysNotifyAll]"])
        (auto simp: tcp_internal_accept_def Let_def close_then_def tcp_close_def fds_accepted_def)
  qed
qed

text \<open>
  How \<open>accept\<close> ends: the listening socket is closed after an error, or the children carry
  the accepted descriptors in order and are connected.
\<close>

definition accept_end ::
    "MessageMode \<Rightarrow> tcp_socket list \<Rightarrow> history \<Rightarrow> tcp_socket \<Rightarrow> error + tcp_socket list \<Rightarrow> bool" where
  "accept_end mode res h s r \<longleftrightarrow>
     r = Inl (SocketError ''Failed to accept new connection'') \<and> m_state s = Closed \<or>
     (\<exists>cs. r = Inr (res @ cs) \<and> m_state s = Listening \<and> map m_fd cs = fds_accepted h \<and>
        list_all (\<lambda>c. tcp_inv mode c \<and> m_state c = Connected) cs)"

lemma accept_end_Cons:
  assumes "accept_end mode (res @ [c]) h s r"
    and "tcp_inv mode c" "m_state c = Connected" "m_fd c = fd"
  shows "accept_end mode res (SysAccept n (Inr fd) # h) s r"
proof -
  { fix cs
    assume "r = Inr ((res @ [c]) @ cs)" "m_state s = Listening" "map m_fd cs = fds_accepted h"
      "list_all (\<lambda>c. tcp_inv mode c \<and> m_state c = Connected) cs"
    then have ?thesis using assms(2-) unfolding accept_end_def
      by (intro disjI2 exI [of _ "c # cs"]) (simp add: fds_accepted_def) }
  then show ?thesis using assms(1) unfolding accept_end_def by blast
qed

lemma tcp_accept_loop_total:
  assumes fin: "accept_finite os k" and pos: "fds_positive os" and mx: "unat (m_max_send_queue_size s) + 2 ^ 32 < 2 ^ 64"
    and "m_state s = Listening" and "fd_ok s" and "slicer_type (m_slicer s) = mode"
  obtains r s' h where "tcp_accept_loop os net res s = Some (r, s')"
    "quiet s s'" "fd_ok s'" "trace s' = trace s @ h"
    "accept_end mode res h s' r"
  using assms(3-)
proof (induction "k - length (fds_accepted (trace s))" arbitrary: s res thesis rule: less_induct)
  case less
  note prems = less.prems(2-)
  show thesis
  proof (rule tcp_internal_accept_cases [OF prems(2,3)])
    assume "tcp_internal_accept os (tcp_close os) s = (Inr (- 1), sys (SysAccept (m_fd s) (Inl EAGAIN)) s)"
    then show thesis using prems
      by (intro less.prems(1) [of "Inr res" "sys (SysAccept (m_fd s) (Inl EAGAIN)) s" "[SysAccept (m_fd s) (Inl EAGAIN)]"])
        (simp_all add: tcp_accept_loop.simps [of os net res s] quiet_sys fd_ok_def accept_end_def)
  next
    fix s' h
    assume "tcp_internal_accept os (tcp_close os) s = (Inl (SocketError ''Failed to accept new connection''), s')"
      "m_state s' = Closed" "quiet s s'" "trace s' = trace s @ h"
    then show thesis
      by (intro less.prems(1) [of "Inl (SocketError ''Failed to accept new connection'')" s' h])
        (simp_all add: tcp_accept_loop.simps [of os net res s] fd_ok_def accept_end_def)
  next
    fix fd
    let ?e = "SysAccept (m_fd s) (Inr fd)"
    let ?c = "tcp_new_child os net mode fd (m_max_send_queue_size s)"
    assume a: "os_accept os (trace s) (m_fd s) = Inr fd"
      "tcp_internal_accept os (tcp_close os) s = (Inr fd, sys ?e s)"
    have fd: "0 < fd" using pos a(1) unfolding fds_positive_def by (metis order_le_less)
    have lt: "length (fds_accepted (trace s)) < k"
      using fin a(1) by (auto simp: accept_finite_def not_le [symmetric])
    have c: "tcp_inv mode ?c" "m_state ?c = Connected" "m_fd ?c = fd"
      using fd prems(1) by (simp_all add: tcp_new_child)
    have eq: "tcp_accept_loop os net res s = tcp_accept_loop os net (res @ [?c]) (sys ?e s)"
      using a(2) fd prems(4) by (simp add: tcp_accept_loop.simps [of os net res s])
    have q: "quiet s (sys ?e s)" by (simp add: quiet_sys)
    show thesis
    proof (rule less.hyps [of "sys ?e s" "res @ [?c]"])
      fix r s' h
      assume ih: "tcp_accept_loop os net (res @ [?c]) (sys ?e s) = Some (r, s')"
        "quiet (sys ?e s) s'" "fd_ok s'" "trace s' = trace (sys ?e s) @ h"
        "accept_end mode (res @ [?c]) h s' r"
      from accept_end_Cons [OF ih(5) c]
      have "accept_end mode res (?e # h) s' r" .
      then show thesis
        using ih eq by (intro less.prems(1) [OF _ quiet_trans [OF q ih(2)] ih(3), of r "?e # h"]) simp_all
    qed (use lt prems in \<open>simp_all add: fd_ok_def\<close>)
  qed
qed

section \<open>Receiving leaves the sending half alone\<close>

definition recv_frame :: "tcp_socket \<Rightarrow> tcp_socket \<Rightarrow> bool" where
  "recv_frame s s' \<longleftrightarrow> same_sending s s' \<and> (fd_ok s \<longrightarrow> fd_ok s') \<and>
     bytes_sent (trace s') = bytes_sent (trace s) \<and>
     m_state s' \<in> {m_state s, Closed} \<and> m_fd s' \<in> {m_fd s, -1}"

lemma recv_frame_refl [simp]: "recv_frame s s" "recv_frame s (s\<lparr>m_slicer := sl\<rparr>)"
  by (simp_all add: recv_frame_def same_sending_def fd_ok_def)

lemma recv_frame_trans: "recv_frame a b \<Longrightarrow> recv_frame b c \<Longrightarrow> recv_frame a c"
  by (auto simp: recv_frame_def same_sending_def)

lemma recv_frame_after_recv: "recv_frame s (after_recv os s)"
  by (simp add: recv_frame_def same_sending_def fd_ok_def after_recv_def tcp_set_buffer_def)

lemma recv_frame_after_close: "recv_frame s (after_close s)"
  by (simp add: recv_frame_def same_sending_def fd_ok_def after_close_def bytes_sent_def)

lemma recv_frame_set_buffer: "recv_frame s (tcp_set_buffer b s)"
  by (simp add: tcp_set_buffer_def)

lemma tcp_receive_data_frame:
  assumes "\<not> buffer_is_valid (tcp_buffer s)"
  shows "recv_frame s (snd (tcp_receive_data os (tcp_close os) tcp_buffer tcp_set_buffer s))"
proof (cases "tcp_is_valid s")
  case False
  then show ?thesis by (simp add: tcp_receive_data_def)
next
  case True
  show ?thesis
    using recv_frame_trans [OF recv_frame_after_recv recv_frame_set_buffer, of s _ os]
      recv_frame_trans [OF recv_frame_after_recv recv_frame_after_close, of s os] recv_frame_after_recv [of s os]
    by (simp add: tcp_receive_data_eq [OF True assms] split: recv_res.split)
qed

lemma tcp_pull_messages_frame:
  assumes "tcp_pull_messages os s = Some (r, s')"
  shows "recv_frame s s'"
proof -
  have "recv_frame s (snd (r, s'))"
  proof (rule tcp_pull_messages.raw_induct [of "\<lambda>_ s y. recv_frame s (snd y)", OF _ assms])
    fix pull :: "os \<Rightarrow> tcp_socket \<Rightarrow> (tcp_socket, unit) outcome option"
      and os and s :: tcp_socket and y
    assume ih: "\<And>os s y. pull os s = Some y \<Longrightarrow> recv_frame s (snd y)"
    let ?d = "if \<not> buffer_is_valid (tcp_buffer s)
      then tcp_receive_data os (tcp_close os) tcp_buffer tcp_set_buffer s else (Inr True, s)"
    assume body: "(case ?d of (Inl e, s) \<Rightarrow> Some (Inl e, s)
      | (Inr res, s) \<Rightarrow> if \<not> res then Some (Inr (), s)
          else (case tcp_try_process s of (Inl e, s) \<Rightarrow> Some (Inl e, s) | (Inr _, s) \<Rightarrow> pull os s)) = Some y"
    obtain d s1 where d: "?d = (d, s1)" by force
    have f1: "recv_frame s s1" using d tcp_receive_data_frame [of s os] by (auto split: if_splits)
    obtain p s2 where p: "tcp_try_process s1 = (p, s2)" by force
    then have "recv_frame s1 s2" by (auto simp: tcp_try_process_def split: prod.splits)
    with f1 have f2: "recv_frame s s2" by (rule recv_frame_trans)
    show "recv_frame s (snd y)"
      using body f1 f2 recv_frame_trans [OF f2 ih] unfolding d
      by (auto simp: p split: sum.splits if_splits)
  qed
  then show ?thesis by simp
qed

text \<open>
  The progress of receiving: a call of \<open>pull_messages\<close> takes a chunk from the kernel or leaves what
  is queued as it is.
\<close>

definition data_count :: "tcp_socket \<Rightarrow> nat" where
  "data_count s = length (filter data_event (trace s))"

lemma no_bytes_no_data: "bytes_received h = [] \<Longrightarrow> filter data_event h = []"
proof (induction h)
  case (Cons e h)
  then show ?case by (cases e rule: data_event.cases) (simp_all add: bytes_received_def)
qed simp

lemma tcp_pull_total:
  assumes "recv_bounded os" "recv_finite os k" and "slicer_inv mode (m_slicer s)"
  shows "\<exists>r s' h. tcp_pull_messages os s = Some (r, s') \<and> trace s' = trace s @ h"
  using assms dgv.pull_messages_total [OF assms(1,2), of s] stv.pull_messages_total [OF assms(1,2), of s]
  by (cases mode) blast+

lemma tcp_pull_progress:
  assumes os: "recv_bounded os" "recv_finite os k" and idle: "slicer_idle mode (m_slicer s)"
    and pull: "tcp_pull_messages os s = Some (r, s')"
  shows "data_count s < data_count s' \<and> data_count s < k \<or>
    same_content (m_slicer s) (m_slicer s') \<and> data_count s' = data_count s"
proof -
  have nv: "\<not> buffer_is_valid (tcp_buffer s)" using idle by (simp add: slicer_idle_def tcp_buffer_def)
  from idle os(1) show ?thesis
  proof (cases rule: tcp_receive_data_cases)
    case (data bs s1)
    have "tcp_pull_messages os s1 = Some (r, s')" using tcp_pull_data [OF nv data(1,3,4)] pull by simp
    then obtain h where "trace s' = trace s1 @ h" using tcp_pull_total [OF os data(3)] by auto
    moreover have "data_count s < k"
      using os(2) data(2,7) by (auto simp: recv_finite_def data_count_def not_le [symmetric])
    ultimately show ?thesis using data(2,8) by (simp add: data_count_def)
  next
    case (stop r' s1 h)
    then have "s' = s1" using tcp_pull_stop [OF nv stop(1,2)] pull by simp
    then show ?thesis using stop no_bytes_no_data by (simp add: data_count_def)
  qed
qed

section \<open>The life of a socket\<close>

text \<open>The guards of \<open>send\<close>: whether the message enters the queue.\<close>

definition send_accepts :: "u32 \<Rightarrow> tcp_socket \<Rightarrow> bool" where
  "send_accepts len s \<longleftrightarrow> len \<noteq> 0 \<and> tcp_is_valid s \<and> m_send_queue_size s < m_max_send_queue_size s"

text \<open>
  \<open>tcp_run os net mode mx acc del s\<close>: the socket has come to the state \<open>s\<close> by some sequence of
  operations; \<open>acc\<close> are the bytes that its accepted \<open>send\<close> calls stand for on the wire, \<open>del\<close> the
  messages that its \<open>receive\<close> calls have returned.  \<open>connect\<close> and \<open>listen\<close> are called on sockets
  that are not in use, and the arrays passed to \<open>send\<close> are as long as announced.
\<close>

inductive tcp_run :: "os \<Rightarrow> inet \<Rightarrow> MessageMode \<Rightarrow> u64 \<Rightarrow> byte list \<Rightarrow> byte list list \<Rightarrow> tcp_socket \<Rightarrow> bool"
  for os net mode mx where
  created: "tcp_run os net mode mx [] [] (tcp_new mode mx)"
| child: "0 < fd \<Longrightarrow> tcp_run os net mode mx [] [] (tcp_new_child os net mode fd mx)"
| connect: "tcp_run os net mode mx acc del s \<Longrightarrow> unused s \<Longrightarrow> tcp_connect os net a name s = (r, s') \<Longrightarrow>
    tcp_run os net mode mx acc del s'"
| listen: "tcp_run os net mode mx acc del s \<Longrightarrow> unused s \<Longrightarrow> tcp_listen os net a n s = (r, s') \<Longrightarrow>
    tcp_run os net mode mx acc del s'"
| accept: "tcp_run os net mode mx acc del s \<Longrightarrow> tcp_accept os net s = Some (r, s') \<Longrightarrow>
    tcp_run os net mode mx acc del s'"
| send: "tcp_run os net mode mx acc del s \<Longrightarrow> unat len \<le> length data \<Longrightarrow> unat len + 4 < 2 ^ 32 \<Longrightarrow>
    tcp_send os data len async s = Some (r, s') \<Longrightarrow>
    tcp_run os net mode mx
      (acc @ (if send_accepts len s then wire_of mode (take (unat len) data) else [])) del s'"
| send_shared: "tcp_run os net mode mx acc del s \<Longrightarrow> unat len \<le> length data \<Longrightarrow>
    tcp_send_shared os data len async s = Some (r, s') \<Longrightarrow>
    tcp_run os net mode mx (acc @ (if send_accepts len s then take (unat len) data else [])) del s'"
| do_send: "tcp_run os net mode mx acc del s \<Longrightarrow> tcp_do_send os (tcp_close os) s = Some (r, s') \<Longrightarrow>
    tcp_run os net mode mx acc del s'"
| receive: "tcp_run os net mode mx acc del s \<Longrightarrow> tcp_receive os s = Some (r, s') \<Longrightarrow>
    tcp_run os net mode mx acc (del @ (case r of Inr (Some m) \<Rightarrow> [mi_data m] | _ \<Rightarrow> [])) s'"
| close: "tcp_run os net mode mx acc del s \<Longrightarrow> tcp_close os fast s = (r, s') \<Longrightarrow>
    tcp_run os net mode mx acc del s'"

text \<open>What the kernel promises, and an environment that sends and connects finitely often.\<close>

definition posix :: "os \<Rightarrow> bool" where
  "posix os \<longleftrightarrow> write_bounded os \<and> recv_bounded os \<and> fds_positive os \<and>
     (\<exists>k. recv_finite os k \<and> accept_finite os k)"

text \<open>What has been received and handed out, and what is still queued or incomplete.\<close>

fun received_view :: "MessageMode \<Rightarrow> byte list list \<Rightarrow> tcp_socket \<Rightarrow> bool" where
  "received_view Datagram del s \<longleftrightarrow>
     parse (bytes_received (trace s)) = (del @ slicer_msgs (m_slicer s), slicer_pending (m_slicer s))"
| "received_view Stream del s \<longleftrightarrow>
     concat (del @ slicer_msgs (m_slicer s)) = bytes_received (trace s)"

definition accounts :: "MessageMode \<Rightarrow> u64 \<Rightarrow> byte list \<Rightarrow> byte list list \<Rightarrow> tcp_socket \<Rightarrow> bool" where
  "accounts mode mx acc del s \<longleftrightarrow> tcp_inv mode s \<and> m_max_send_queue_size s = mx \<and>
     bytes_sent (trace s) @ backlog s = acc \<and> received_view mode del s"

lemma received_view_cong:
  assumes "same_content (m_slicer s) (m_slicer s')" and "bytes_received (trace s') = bytes_received (trace s)"
  shows "received_view mode del s' = received_view mode del s"
  using assms by (cases mode) (simp_all add: same_content_def)

lemma tcp_inv_quiet:
  assumes "tcp_inv mode s" and "quiet s s'" and "fd_ok s'"
  shows "tcp_inv mode s'"
  using assms same_sending_inv [of s s']
  by (auto simp: quiet_def tcp_inv_def tcp_base_def queue_bounded_def same_sending_def)

lemma received_view_quiet: "quiet s s' \<Longrightarrow> received_view mode del s' = received_view mode del s"
  by (auto simp: quiet_def intro!: received_view_cong)

lemma accounts_quiet:
  assumes "accounts mode mx acc del s" and "quiet s s'" and "fd_ok s'"
  shows "accounts mode mx acc del s'"
proof -
  have "tcp_inv mode s'" using assms tcp_inv_quiet by (auto simp: accounts_def)
  then show ?thesis
    using assms(1,2) same_sending_backlog [of s s'] received_view_quiet [OF assms(2), of mode del]
    by (auto simp: accounts_def quiet_def same_sending_def)
qed

lemma accounts_conserves:
  assumes "accounts mode mx acc del s" and "trace s' = trace s @ h"
    and "bytes_sent h @ backlog s' = backlog s @ w" and "tcp_inv mode s'" and "bytes_received h = []"
    and "same_content (m_slicer s) (m_slicer s')" and "m_max_send_queue_size s' = m_max_send_queue_size s"
  shows "accounts mode mx (acc @ w) del s'"
  using assms received_view_cong [OF assms(6), of mode del]
  by (auto simp: accounts_def)

section \<open>Every operation keeps the accounts\<close>

lemma accounts_new:
  assumes "unat mx + 2 ^ 32 < 2 ^ 64"
  shows "accounts mode mx [] [] (tcp_new mode mx)"
  using assms
  by (cases mode) (simp_all add: accounts_def tcp_inv_def tcp_base_def fd_ok_def send_inv_def
      queue_bounded_def tcp_new_def backlog_def del: make_slicer.simps)

lemma accounts_child:
  assumes "unat mx + 2 ^ 32 < 2 ^ 64" and "0 < fd"
  shows "accounts mode mx [] [] (tcp_new_child os net mode fd mx)"
proof -
  have "fd_ok (tcp_new_child os net mode fd mx)" using assms(2) by (simp add: fd_ok_def tcp_new_child)
  then show ?thesis by (rule accounts_quiet [OF accounts_new [OF assms(1)] tcp_new_child_quiet])
qed

lemma accounts_accept:
  assumes os: "posix os" and a: "accounts mode mx acc del s" and "tcp_accept os net s = Some (r, s')"
  shows "accounts mode mx acc del s'"
proof (cases "tcp_is_listening s")
  case False
  then show ?thesis using assms by (simp add: tcp_accept_def)
next
  case True
  obtain k where k: "accept_finite os k" "fds_positive os" using os by (auto simp: posix_def)
  have s: "unat (m_max_send_queue_size s) + 2 ^ 32 < 2 ^ 64" "m_state s = Listening" "fd_ok s"
    using a True by (auto simp: accounts_def tcp_inv_def queue_bounded_def tcp_base_def tcp_is_listening_def)
  have loop: "tcp_accept_loop os net [] s = Some (r, s')" using assms(3) True by (simp add: tcp_accept_def)
  have "quiet s s'" "fd_ok s'"
    by (rule tcp_accept_loop_total [OF k s refl, of net "[]"], simp add: loop)+
  then show ?thesis by (rule accounts_quiet [OF a])
qed

lemma accounts_close:
  assumes "accounts mode mx acc del s" and "tcp_close os fast s = (r, s')"
  shows "accounts mode mx acc del s'"
proof -
  have q: "quiet s s'" using tcp_close_quiet [of s os fast] assms(2) by simp
  have fd: "fd_ok s" using assms(1) by (simp add: accounts_def tcp_inv_def tcp_base_def)
  then have "fd_ok s'"
    using assms(2) by (auto simp: tcp_close_def Let_def fd_ok_def split: if_splits option.splits)
  with q show ?thesis by (rule accounts_quiet [OF assms(1)])
qed

lemma accounts_send:
  assumes os: "posix os" and a: "accounts mode mx acc del s"
    and len: "unat len \<le> length data" "unat len + 4 < 2 ^ 32"
    and r: "tcp_send os data len async s = Some (r, s')"
  shows "accounts mode mx (acc @ (if send_accepts len s then wire_of mode (take (unat len) data) else [])) del s'"
proof (cases "send_accepts len s")
  case False
  then have "s' = s"
    using tcp_send_rejected(1) [OF len(1), of s os async] r by (auto simp: send_accepts_def not_less)
  then show ?thesis using False a by simp
next
  case True
  then have s: "tcp_is_valid s" "m_send_queue_size s < m_max_send_queue_size s" "0 < len"
    by (simp_all add: send_accepts_def word_gt_0)
  have "write_bounded os" "tcp_inv mode s" using os a by (simp_all add: posix_def accounts_def)
  from this s len(2,1) show ?thesis
    by (rule tcp_send_total [where async = async]) (use a r True in \<open>auto intro: accounts_conserves\<close>)
qed

lemma accounts_send_shared:
  assumes os: "posix os" and a: "accounts mode mx acc del s" and len: "unat len \<le> length data"
    and r: "tcp_send_shared os data len async s = Some (r, s')"
  shows "accounts mode mx (acc @ (if send_accepts len s then take (unat len) data else [])) del s'"
proof (cases "send_accepts len s")
  case False
  then have "s' = s"
    using tcp_send_rejected(2) [OF len, of s os async] r by (auto simp: send_accepts_def not_less)
  then show ?thesis using False a by simp
next
  case True
  then have s: "tcp_is_valid s" "m_send_queue_size s < m_max_send_queue_size s" "0 < len"
    by (simp_all add: send_accepts_def word_gt_0)
  have "write_bounded os" "tcp_inv mode s" using os a by (simp_all add: posix_def accounts_def)
  from this s len show ?thesis
    by (rule tcp_send_shared_total [where async = async]) (use a r True in \<open>auto intro: accounts_conserves\<close>)
qed

lemma accounts_do_send:
  assumes os: "posix os" and a: "accounts mode mx acc del s"
    and r: "tcp_do_send os (tcp_close os) s = Some (r, s')"
  shows "accounts mode mx acc del s'"
proof -
  have "write_bounded os" "tcp_inv mode s" using os a by (simp_all add: posix_def accounts_def)
  then have "conserves s s'" "tcp_inv mode s'" "same_content (m_slicer s) (m_slicer s')"
    using tcp_do_send_total [of os mode s] r by (metis option.inject prod.inject)+
  then show ?thesis
    using accounts_conserves [OF a, of s' _ "[]"] by (auto simp: conserves_def)
qed

lemma tcp_pull_received:
  assumes "recv_bounded os" "recv_finite os k" and idle: "slicer_idle mode (m_slicer s)"
    and view: "received_view mode del s"
  obtains r s' where "tcp_pull_messages os s = Some (r, s')"
    "r = Inr () \<or> r = Inl (SocketError ''Failed to receive data'')"
    "slicer_idle mode (m_slicer s')" "received_view mode del s'"
    "tcp_is_valid s \<longrightarrow> recv_ended (m_fd s) (trace s') (tcp_is_valid s')"
proof (cases mode)
  case Datagram
  have idle': "slicer_idle Datagram (m_slicer s)" using idle Datagram by simp
  obtain r s' h where p: "tcp_pull_messages os s = Some (r, s')"
      "r = Inr () \<or> r = Inl (SocketError ''Failed to receive data'')"
      "slicer_idle Datagram (m_slicer s')" "trace s' = trace s @ h"
      "slicer_msgs (m_slicer s') = slicer_msgs (m_slicer s) @
        fst (parse (slicer_pending (m_slicer s) @ bytes_received h))"
      "slicer_pending (m_slicer s') = snd (parse (slicer_pending (m_slicer s) @ bytes_received h))"
      "tcp_is_valid s \<longrightarrow> recv_ended (m_fd s) h (tcp_is_valid s')"
    using tcp_pull_messages_datagram [OF assms(1,2) idle'] by blast
  then have "received_view Datagram del s'"
    using view Datagram parse_append [of "bytes_received (trace s)" "bytes_received h"] by simp
  then show thesis using p(1-4,7) Datagram recv_ended_append by (intro that [of r s']) simp_all
next
  case Stream
  have inv: "slicer_inv Stream (m_slicer s)" using idle Stream by (simp add: slicer_idle_def)
  obtain r s' h where p: "tcp_pull_messages os s = Some (r, s')"
      "r = Inr () \<or> r = Inl (SocketError ''Failed to receive data'')"
      "slicer_idle Stream (m_slicer s')" "trace s' = trace s @ h"
      "stream_view (m_slicer s') = stream_view (m_slicer s) @ bytes_received h"
      "tcp_is_valid s \<longrightarrow> recv_ended (m_fd s) h (tcp_is_valid s')"
    using stv.pull_messages_total [OF assms(1,2) inv] by blast
  then have "received_view Stream del s'"
    using idle view unfolding Stream by (simp add: slicer_idle_def stream_view_def unread_not_valid)
  then show thesis using p Stream recv_ended_append by (intro that [of r s']) simp_all
qed

lemma accounts_receive:
  assumes os: "posix os" and a: "accounts mode mx acc del s" and r: "tcp_receive os s = Some (r, s')"
  shows "accounts mode mx acc (del @ (case r of Inr (Some m) \<Rightarrow> [mi_data m] | _ \<Rightarrow> [])) s'"
proof -
  obtain k where k: "recv_bounded os" "recv_finite os k" using os by (auto simp: posix_def)
  have s: "slicer_idle mode (m_slicer s)" "received_view mode del s"
    using a by (simp_all add: accounts_def tcp_inv_def tcp_base_def)
  obtain p s1 where p: "tcp_pull_messages os s = Some (p, s1)"
      "p = Inr () \<or> p = Inl (SocketError ''Failed to receive data'')"
      "slicer_idle mode (m_slicer s1)" "received_view mode del s1"
    using tcp_pull_received [OF k s] by blast
  have f: "recv_frame s s1" using p(1) by (rule tcp_pull_messages_frame)
  have a1: "accounts mode mx acc del s1"
    using a f p(3,4) same_sending_inv [of s s1] same_sending_backlog [of s s1]
    by (auto simp: accounts_def recv_frame_def tcp_inv_def tcp_base_def queue_bounded_def same_sending_def)
  show ?thesis
  proof (cases p)
    case (Inl e)
    then have "r = Inl e" "s' = s1" using r p(1) by (simp_all add: tcp_receive_def)
    then show ?thesis using a1 by simp
  next
    case (Inr u)
    then have ok: "tcp_pull_messages os s = Some (Inr (), s1)" using p(1) by simp
    obtain sl where sl: "r = Inr (first_message (slicer_msgs (m_slicer s1)))" "s' = s1\<lparr>m_slicer := sl\<rparr>"
        "slicer_idle mode sl" "slicer_pending sl = slicer_pending (m_slicer s1)"
        "slicer_msgs sl = tl (slicer_msgs (m_slicer s1))"
      using tcp_receive_pop [OF ok p(3)] r by auto
    have q: "slicer_msgs (m_slicer s1) =
        (case r of Inr (Some m) \<Rightarrow> [mi_data m] | _ \<Rightarrow> []) @ slicer_msgs sl"
      using sl(1,5) by (cases "slicer_msgs (m_slicer s1)") (simp_all add: first_message_def)
    have "received_view mode (del @ (case r of Inr (Some m) \<Rightarrow> [mi_data m] | _ \<Rightarrow> [])) s'"
      using p(4) q sl(2,4) by (cases mode) simp_all
    then show ?thesis
      using a1 sl(2,3)
      by (auto simp: accounts_def tcp_inv_def tcp_base_def fd_ok_def send_inv_def queue_bounded_def backlog_def)
  qed
qed

text \<open>One call of \<open>receive\<close>, with its progress.\<close>

lemma tcp_receive_step:
  assumes os: "posix os" and k: "recv_finite os k" and inv: "tcp_inv mode s" and view: "received_view mode del s"
  obtains r s' where "tcp_receive os s = Some (r, s')" "tcp_inv mode s'"
    "received_view mode (del @ (case r of Inr (Some m) \<Rightarrow> [mi_data m] | _ \<Rightarrow> [])) s'" "recv_frame s s'"
    "case r of
       Inl e \<Rightarrow> (\<exists>msg. e = SocketError msg) \<and> \<not> tcp_is_valid s'
     | Inr None \<Rightarrow> slicer_msgs (m_slicer s') = []
     | Inr (Some m) \<Rightarrow> data_count s < data_count s' \<and> data_count s < k \<or>
         data_count s' = data_count s \<and> length (slicer_msgs (m_slicer s')) < length (slicer_msgs (m_slicer s))"
    "tcp_is_valid s' \<longrightarrow> recv_ended (m_fd s') (trace s') True"
proof -
  have rb: "recv_bounded os" using os by (simp add: posix_def)
  have idle: "slicer_idle mode (m_slicer s)" using inv by (simp add: tcp_inv_def tcp_base_def)
  have a: "accounts mode (m_max_send_queue_size s) (bytes_sent (trace s) @ backlog s) del s"
    using inv view by (simp add: accounts_def)
  obtain p s1 where p: "tcp_pull_messages os s = Some (p, s1)"
      "p = Inr () \<or> p = Inl (SocketError ''Failed to receive data'')" "slicer_idle mode (m_slicer s1)"
      "tcp_is_valid s \<longrightarrow> recv_ended (m_fd s) (trace s1) (tcp_is_valid s1)"
    using tcp_pull_received [OF rb k idle view] by blast
  have f: "recv_frame s s1" using p(1) by (rule tcp_pull_messages_frame)
  have e: "tcp_is_valid s1 \<longrightarrow> recv_ended (m_fd s1) (trace s1) True"
    using f p(4) by (auto simp: recv_frame_def tcp_is_valid_def)
  show thesis
  proof (cases p)
    case (Inl e)
    then have r: "tcp_receive os s = Some (Inl e, s1)" using p(1) by (simp add: tcp_receive_def)
    have "\<not> tcp_is_valid s1" using Inl p(1,2) tcp_pull_error_closed by auto
    then show thesis
      using accounts_receive [OF os a r] r f e Inl p(2)
      by (intro that [of "Inl e" s1]) (simp_all add: accounts_def)
  next
    case (Inr u)
    then have ok: "tcp_pull_messages os s = Some (Inr (), s1)" using p(1) by simp
    let ?q = "slicer_msgs (m_slicer s1)"
    obtain sl where sl: "tcp_receive os s = Some (Inr (first_message ?q), s1\<lparr>m_slicer := sl\<rparr>)"
        "slicer_msgs sl = tl ?q"
      using tcp_receive_pop [OF ok p(3)] by blast
    have "recv_frame s (s1\<lparr>m_slicer := sl\<rparr>)" using f recv_frame_refl(2) by (rule recv_frame_trans)
    moreover have "data_count (s1\<lparr>m_slicer := sl\<rparr>) = data_count s1" by (simp add: data_count_def)
    moreover have "tcp_is_valid (s1\<lparr>m_slicer := sl\<rparr>) \<longrightarrow> recv_ended (m_fd s1) (trace s1) True"
      using e by (simp add: tcp_is_valid_def)
    moreover have "?q \<noteq> [] \<Longrightarrow> same_content (m_slicer s) (m_slicer s1) \<Longrightarrow>
        length (slicer_msgs sl) < length (slicer_msgs (m_slicer s))"
      using sl(2) by (simp add: same_content_def)
    moreover note tcp_pull_progress [OF rb k idle p(1)] accounts_receive [OF os a sl(1)]
    ultimately show thesis
      using sl by (intro that [OF sl(1)])
        (auto simp: accounts_def first_message_def split: list.splits)
  qed
qed

lemma tcp_run_accounts:
  assumes "tcp_run os net mode mx acc del s" and "posix os" and "unat mx + 2 ^ 32 < 2 ^ 64"
  shows "accounts mode mx acc del s"
  using assms(1)
proof induction
  case (connect acc del s a name r s')
  from connect(3,2) show ?case
    by (cases rule: tcp_connect_cases)
      (auto simp: tcp_is_valid_def fd_ok_def intro: accounts_quiet [OF connect.IH] unused_fd_ok)
next
  case (listen acc del s a n r s')
  then show ?case
    using accounts_quiet [OF listen.IH tcp_listen_quiet tcp_listen_fd_ok] by (metis snd_conv)
next
  case (send acc del s len data async r s')
  from accounts_send [OF assms(2) send.IH send(2-4)] show ?case .
next
  case (send_shared acc del s len data async r s')
  from accounts_send_shared [OF assms(2) send_shared.IH send_shared(2,3)] show ?case .
next
  case (receive acc del s r s')
  from accounts_receive [OF assms(2) receive.IH receive(2)] show ?case .
qed (blast intro: accounts_new accounts_child accounts_accept accounts_do_send accounts_close assms(2,3))+

section \<open>Properties\<close>

text \<open>
  C3. Over any sequence of operations on a socket nothing is lost, repeated or reordered in
  either direction: the bytes written so far followed by the backlog are the frames of the accepted
  messages in the order of the \<open>send\<close> calls, and the messages handed out so far followed by those
  still queued are the parse of the bytes received (in stream mode, their concatenation is).
\<close>

theorem tcp_run_conserves:
  assumes "tcp_run os net mode mx acc del s" and "posix os" and "unat mx + 2 ^ 32 < 2 ^ 64"
  shows "bytes_sent (trace s) @ backlog s = acc \<and> received_view mode del s"
  using tcp_run_accounts [OF assms] by (simp add: accounts_def)

lemma feeding_posix: "posix (feeding_os chunks)"
proof -
  have "fds_positive (feeding_os chunks)" "accept_finite (feeding_os chunks) (length chunks)"
    by (simp_all add: fds_positive_def accept_finite_def feeding_os_def)
  then show ?thesis using feeding_os [of chunks] by (auto simp: posix_def)
qed

lemma feeding_shutdown_ok: "shutdown_ok (feeding_os chunks)"
  by (simp add: shutdown_ok_def feeding_os_def)

lemma frame_example: "frame [7, 8] = [6, 0, 0, 0, 7, 8]"
  by (simp add: frame_def le_bytes_def)

text \<open>A run that accepts one message and writes it.\<close>

lemma sent_run:
  "\<exists>s. tcp_run (feeding_os []) loopback_inet Datagram 100 (frame [7, 8]) [] s \<and>
    bytes_sent (trace s) = frame [7, 8] \<and> backlog s = []"
proof -
  let ?os = "feeding_os []"
  let ?c = "tcp_new_child ?os loopback_inet Datagram 3 100"
  have c: "tcp_run ?os loopback_inet Datagram 100 [] [] ?c" by (rule child) simp
  have v: "send_accepts 2 ?c"
    by (simp add: send_accepts_def tcp_is_valid_def tcp_new_child tcp_new_child_def tcp_new_def tcp_calculate_remote_address_def
        tcp_update_port_number_def feeding_os_def tcp_set_nonblock_def Let_def)
  have "\<exists>s'. tcp_send ?os [7, 8] 2 False ?c = Some (Inr False, s') \<and>
      bytes_sent (trace s') = [6, 0, 0, 0, 7, 8] \<and> backlog s' = []"
    by (simp add: tcp_new_child_def feeding_os_def tcp_new_def tcp_calculate_remote_address_def tcp_update_port_number_def
        Let_def sys_def tcp_set_nonblock_def tcp_send_def tcp_send_unique_def mem_read_def tcp_is_valid_def
        dg_prepare_message_raw_def dg_prepare_message_def realloc_def le_bytes_def mem_write_def
        tcp_enqueue_def message_out_unique_def tcp_next_message_def tcp_write_loop.simps tcp_do_send.simps
        bytes_sent_def backlog_def)
  then obtain s' where s: "tcp_send ?os [7, 8] 2 False ?c = Some (Inr False, s')"
      "bytes_sent (trace s') = frame [7, 8]" "backlog s' = []"
    by (auto simp: frame_example)
  from tcp_run.send [OF c _ _ s(1)] v s(2,3) show ?thesis by auto
qed

text \<open>A run that receives it, in two portions.\<close>

lemma received_run:
  "\<exists>s. tcp_run (feeding_os [[6, 0], [0, 0, 7, 8]]) loopback_inet Datagram 100 [] [[7, 8]] s \<and>
    bytes_received (trace s) = frame [7, 8]"
proof -
  let ?os = "feeding_os [[6, 0], [0, 0, 7, 8]]"
  let ?c = "tcp_new_child ?os loopback_inet Datagram 3 100"
  have c: "tcp_run ?os loopback_inet Datagram 100 [] [] ?c" by (rule child) simp
  have q: "quiet (tcp_new Datagram 100) ?c" by (rule tcp_new_child_quiet)
  then have b0: "bytes_received (trace ?c) = []" by (auto simp: quiet_def tcp_new_def)
  have "m_slicer (tcp_new Datagram 100) = make_slicer Datagram" by (simp add: tcp_new_def)
  then have v: "slicer_idle Datagram (m_slicer ?c)" "slicer_msgs (m_slicer ?c) = []" "slicer_pending (m_slicer ?c) = []"
    using q slicer_idle_make [of Datagram] by (auto simp: quiet_def same_content_def simp del: make_slicer.simps)
  have "tcp_is_valid ?c" by (simp add: tcp_is_valid_def tcp_new_child)
  then obtain r s h where p: "tcp_receive ?os ?c = Some (r, s)" "trace s = trace ?c @ h" "recv_true ?os (trace ?c) h"
      "recv_ended (m_fd ?c) h (tcp_is_valid s)" "tcp_is_valid s \<longrightarrow> (\<exists>m. r = Inr m)"
      "r = Inl (SocketError ''Failed to receive data'') \<or> r = Inr (first_message (fst (parse (bytes_received h))))"
    using tcp_receive_first [OF feeding_os(1,2) v(1), of "[[6, 0], [0, 0, 7, 8]]"] v(2-) by (auto simp: Let_def)
  have b: "bytes_received h = frame [7, 8] \<and> tcp_is_valid s"
    using feeding_drained [OF _ p(3,4) no_bytes_no_data [OF b0]] by (simp add: MAX_SIZE_def frame_example)
  then have "r = Inr (Some \<lparr>mi_data = [7, 8], mi_length = 2\<rparr>)"
    using p(5,6) parse_frames [of "[[7, 8]]" "[]"] by (auto simp: first_message_def valid_payload_def)
  then show ?thesis using tcp_run.receive [OF c p(1)] b b0 p(2) by auto
qed
theorem tcp_run_conserves_witness:
  "\<exists>s. tcp_run (feeding_os []) loopback_inet Datagram 100 (frame [7, 8]) [] s \<and>
    bytes_sent (trace s) @ backlog s = frame [7, 8]"
proof -
  obtain s where s: "tcp_run (feeding_os []) loopback_inet Datagram 100 (frame [7, 8]) [] s"
    using sent_run by blast
  then show ?thesis using tcp_run_conserves [OF s feeding_posix] by (intro exI [of _ s]) simp
qed

text \<open>
  C4. In every state that operations can reach, the destructor's \<open>close(true)\<close> succeeds, leaves
  the socket without descriptor and never runs into the \<open>LOG(FATAL)\<close> of an invalid state; and the accounted
  size of the send queue is the exact sum of the queued lengths, which never wraps and exceeds the limit by less
  than one message.
\<close>

theorem tcp_run_safe:
  assumes "tcp_run os net mode mx acc del s" and "posix os" and "unat mx + 2 ^ 32 < 2 ^ 64"
  shows "fst (tcp_close os True s) = Inr True \<and> \<not> tcp_is_valid (snd (tcp_close os True s)) \<and>
    unat (m_send_queue_size s) = (\<Sum>m \<leftarrow> m_send_queue s. unat (mo_length m)) \<and>
    unat (m_send_queue_size s) < unat mx + 2 ^ 32"
proof -
  have inv: "fd_ok s" "send_inv s" "queue_bounded s" "m_max_send_queue_size s = mx"
    using tcp_run_accounts [OF assms] by (simp_all add: accounts_def tcp_inv_def tcp_base_def)
  note exact = send_queue_size_exact [OF inv(2,3)]
  have "fst (tcp_close os True s) = Inr True" "\<not> tcp_is_valid (snd (tcp_close os True s))"
    using inv(1) by (cases "m_state s"; auto simp: tcp_close_def fd_ok_def tcp_is_valid_def)+
  then show ?thesis using exact inv(3,4) by (simp add: queue_total_def queue_bounded_def)
qed

theorem tcp_run_safe_witness:
  "\<exists>s. tcp_run (feeding_os []) loopback_inet Datagram 100 (frame [7, 8]) [] s \<and>
    fst (tcp_close (feeding_os []) True s) = Inr True \<and> unat (m_send_queue_size s) < 100 + 2 ^ 32"
proof -
  obtain s where s: "tcp_run (feeding_os []) loopback_inet Datagram 100 (frame [7, 8]) [] s"
    using sent_run by blast
  then show ?thesis using tcp_run_safe [OF s feeding_posix] by (intro exI [of _ s]) simp
qed


definition accepting_os :: os where
  "accepting_os = (feeding_os [])\<lparr>os_accept := \<lambda>h _. if fds_accepted h = [] then Inr 7 else Inl EAGAIN\<rparr>"

lemma accepting_os: "accept_finite accepting_os 1" "fds_positive accepting_os"
proof -
  have "\<not> Suc 0 \<le> length xs" if "xs = []" for xs :: "int list" using that by simp
  then show "accept_finite accepting_os 1" "fds_positive accepting_os"
    by (auto simp: accept_finite_def fds_positive_def accepting_os_def feeding_os_def)
qed




text \<open>
  \<open>close\<close>, as long as \<open>shutdown\<close> reports nothing but \<open>ENOTCONN\<close>: it never aborts; it returns
  false exactly for a graceful close of a connected socket, which keeps its descriptor and waits in
  the state \<open>Shutdown\<close> for the peer, and otherwise returns true with the socket invalid.
\<close>

theorem tcp_close_outcomes:
  assumes "fd_ok s" and "\<forall>e. os_shutdown os (trace s) (m_fd s) = Some e \<longrightarrow> e = ENOTCONN"
  shows "\<exists>b s'. tcp_close os fast s = (Inr b, s') \<and> fd_ok s' \<and>
    (if b then unused s' \<and> \<not> tcp_is_valid s'
     else tcp_is_connected s \<and> \<not> fast \<and> m_state s' = Shutdown \<and> m_fd s' = m_fd s)"
  using assms by (rule tcp_close_total)

theorem tcp_close_outcomes_witness:
  "\<exists>b s'. tcp_close (feeding_os []) False (connected_socket Stream) = (Inr b, s') \<and> fd_ok s'"
  using tcp_close_outcomes [of "connected_socket Stream" "feeding_os []" False]
  by (auto simp: connected_socket_def tcp_new_def fd_ok_def feeding_os_def)

text \<open>
  The \<open>ENOTCONN\<close> branch of \<open>close\<close> forgets the descriptor without closing it and does not wake
  the threads that wait for the send queue: the only system call is \<open>shutdown\<close>.
\<close>

theorem tcp_close_enotconn_leaks:
  assumes "m_state s = Connected" and "os_shutdown os (trace s) (m_fd s) = Some ENOTCONN"
  shows "\<exists>s'. tcp_close os False s = (Inr True, s') \<and> m_fd s' = -1 \<and>
    trace s' = trace s @ [SysShutdown (m_fd s) (Some ENOTCONN)]"
  using assms by (simp add: tcp_close_def Let_def)

definition notconn_os :: os where
  "notconn_os = (feeding_os [])\<lparr>os_shutdown := \<lambda>_ _. Some ENOTCONN\<rparr>"

theorem tcp_close_enotconn_leaks_witness:
  "\<exists>s'. tcp_close notconn_os False (connected_socket Stream) = (Inr True, s') \<and> m_fd s' = -1 \<and>
    trace s' = [SysShutdown 3 (Some ENOTCONN)]"
  using tcp_close_enotconn_leaks [of "connected_socket Stream" notconn_os]
  by (simp add: connected_socket_def notconn_os_def tcp_new_def)

text \<open>
  \<open>accept\<close> takes the descriptor 0 for a connection while \<open>is_valid\<close> and \<open>close\<close> do not: the
  destructor of such a child runs into \<open>LOG(FATAL)\<close>.
\<close>

lemma tcp_child_fd0_aborts:
  "fst (tcp_close os True (tcp_new_child os net mode 0 mx)) = Inl (Fatal ''Invalid state'')"
  by (simp add: tcp_close_def tcp_new_child)

end
