(* ===== verification/Event_Listener.thy ===== *)
theory Event_Listener
  imports Yael_Prelude
begin

text \<open>
  \<open>EventListener\<close> (\<open>include/yael/EventListener.h\<close>): the modes of a listener, and the calls that the
  listeners make to the event loop.  A listener does not own the loop; its operations append their
  calls, in order, to a list in its state, and the theory of the event loop says what each of them does.
\<close>

datatype Mode = ReadOnly | ReadWrite

fun mode_to_string :: "Mode \<Rightarrow> string" where
  "mode_to_string ReadOnly = ''read-only''"
| "mode_to_string ReadWrite = ''read-write''"

datatype loop_call =
    NotifyModeChange int Mode bool   \<comment> \<open>\<open>notify_listener_mode_change(listener, mode, first_time)\<close>\<close>
  | Unregister int                   \<comment> \<open>\<open>unregister_event_listener(listener)\<close>\<close>

end
