(* ===== verification/Network_Listener.thy ===== *)
theory Network_Listener
  imports Tcp_Lifecycle Event_Listener "HOL-Library.Sublist"
begin

text \<open>
  \<open>NetworkSocketListener\<close> (\<open>include/yael/NetworkSocketListener.h\<close>,
  \<open>src/NetworkSocketListener.cpp\<close>): a socket together with its registration at the event loop.  The
  handlers call the socket, the loop and the application.  The calls to the loop are
  appended to \<open>nl_calls\<close>, the calls of the application's callbacks to \<open>nl_log\<close>, both in order; what the
  application does in a callback is the argument \<open>app\<close>.  The entry of a disconnect says whether the
  listener's mutex is held during the callback.

  The socket is a \<open>TcpSocket\<close>; \<open>initialized\<close> is \<open>EventLoop::is_initialized()\<close>.  Dereferencing the empty
  socket pointer is a memory fault.
\<close>

section \<open>State\<close>

datatype SocketType = SocketNone | Acceptor | Connection

datatype net_event =
    NetworkMessage message_in_t    \<comment> \<open>\<open>on_network_message\<close>\<close>
  | NewConnection tcp_socket       \<comment> \<open>\<open>on_new_connection\<close>\<close>
  | Disconnect bool                \<comment> \<open>\<open>on_disconnect\<close>, and whether \<open>m_mutex\<close> is held\<close>

record net_listener =
  nl_socket :: "tcp_socket option"
  nl_socket_type :: SocketType
  nl_fileno :: int
  nl_has_disconnected :: bool
  nl_mode :: Mode
  nl_calls :: "loop_call list"
  nl_log :: "net_event list"

type_synonym 'l app_on = "net_event \<Rightarrow> 'l \<Rightarrow> 'l"
type_synonym app = "net_listener app_on"

definition nl_new :: net_listener where
  "nl_new = \<lparr>nl_socket = None, nl_socket_type = SocketNone, nl_fileno = 1,
     nl_has_disconnected = False, nl_mode = ReadOnly, nl_calls = [], nl_log = []\<rparr>"

definition nl_call :: "loop_call \<Rightarrow> 'a net_listener_scheme \<Rightarrow> 'a net_listener_scheme" where
  "nl_call c l = l\<lparr>nl_calls := nl_calls l @ [c]\<rparr>"

definition nl_callback :: "'a net_listener_scheme app_on \<Rightarrow> net_event \<Rightarrow> 'a net_listener_scheme \<Rightarrow> 'a net_listener_scheme" where
  "nl_callback app e l = app e (l\<lparr>nl_log := nl_log l @ [e]\<rparr>)"

section \<open>Queries and registration\<close>

definition nl_get_fileno :: "'a net_listener_scheme \<Rightarrow> int" where
  "nl_get_fileno l = nl_fileno l"

definition nl_is_valid :: "'a net_listener_scheme \<Rightarrow> bool" where
  "nl_is_valid l = (case nl_socket l of None \<Rightarrow> False | Some s \<Rightarrow> tcp_is_valid s)"

definition nl_is_connected :: "'a net_listener_scheme \<Rightarrow> bool" where
  "nl_is_connected l = (case nl_socket l of None \<Rightarrow> False | Some s \<Rightarrow> tcp_is_connected s)"

definition nl_has_messages :: "'a net_listener_scheme \<Rightarrow> bool" where
  "nl_has_messages l = (case nl_socket l of None \<Rightarrow> False | Some s \<Rightarrow> tcp_has_messages s)"

definition nl_message_slicer :: "'a net_listener_scheme \<Rightarrow> error + slicer" where
  "nl_message_slicer l = (case nl_socket l of None \<Rightarrow> Inl (RuntimeError ''No socket'') | Some s \<Rightarrow> Inr (m_slicer s))"

definition nl_set_socket :: "tcp_socket \<Rightarrow> SocketType \<Rightarrow> 'a net_listener_scheme \<Rightarrow> ('a net_listener_scheme, unit) outcome" where
  "nl_set_socket socket type l =
     (if nl_socket l \<noteq> None then
        (Inl (RuntimeError ''There is already a socket assigned to this listener!''), l)
      else if \<not> tcp_is_valid socket then (Inl (RuntimeError ''Not a valid socket!''), l)
      else (Inr (), l\<lparr>nl_socket := Some socket, nl_socket_type := type, nl_fileno := tcp_get_fileno socket\<rparr>))"

definition nl_new_socket :: "tcp_socket option \<Rightarrow> SocketType \<Rightarrow> (net_listener, unit) outcome" where
  "nl_new_socket socket type =
     (case socket of None \<Rightarrow> (Inr (), nl_new) | Some s \<Rightarrow> nl_set_socket s type nl_new)"

definition nl_release_socket :: "bool \<Rightarrow> 'a net_listener_scheme \<Rightarrow> ('a net_listener_scheme, tcp_socket option) outcome" where
  "nl_release_socket initialized l =
     (let sock = nl_socket l;
          l = l\<lparr>nl_socket := None\<rparr>
      in if \<not> initialized then (Inl (RuntimeError ''Event loop not initialized (yet)!''), l)
         else (Inr sock, nl_call (Unregister (nl_fileno l)) l))"

definition nl_re_register :: "bool \<Rightarrow> 'a net_listener_scheme \<Rightarrow> ('a net_listener_scheme, unit) outcome" where
  "nl_re_register first_time l =
     (case nl_socket l of
        None \<Rightarrow> (Inl MemoryFault, l)
      | Some s \<Rightarrow>
        if \<not> tcp_is_valid s then (Inr (), l)
        else (Inr (), nl_call (NotifyModeChange (nl_fileno l) (nl_mode l) first_time) l))"

definition nl_set_mode :: "Mode \<Rightarrow> 'a net_listener_scheme \<Rightarrow> 'a net_listener_scheme" where
  "nl_set_mode mode l =
     (if mode = nl_mode l then l
      else nl_call (NotifyModeChange (nl_fileno l) mode False) (l\<lparr>nl_mode := mode\<rparr>))"

section \<open>Closing\<close>

text \<open>
  \<open>close_socket_internal\<close> is entered with the mutex held and releases it only after closing a
  valid socket.
\<close>

definition nl_disconnected :: "'a net_listener_scheme app_on \<Rightarrow> bool \<Rightarrow> bool \<Rightarrow> 'a net_listener_scheme \<Rightarrow> 'a net_listener_scheme" where
  "nl_disconnected app initialized held l =
     (let l = l\<lparr>nl_has_disconnected := True\<rparr>;
          l = (if nl_socket_type l = Connection then nl_callback app (Disconnect held) l else l)
      in if initialized then nl_call (Unregister (nl_fileno l)) l else l)"

definition nl_close_socket_internal :: "os \<Rightarrow> 'a net_listener_scheme app_on \<Rightarrow> bool \<Rightarrow> 'a net_listener_scheme \<Rightarrow> ('a net_listener_scheme, unit) outcome" where
  "nl_close_socket_internal os app initialized l =
     (case (case nl_socket l of
              Some s \<Rightarrow>
                if tcp_is_valid s
                then (case tcp_close os False s of (r, s) \<Rightarrow> (r, False, l\<lparr>nl_socket := Some s\<rparr>))
                else (Inr True, True, l)
            | None \<Rightarrow> (Inr True, True, l)) of
        (Inl e, held, l) \<Rightarrow> (Inl e, l)
      | (Inr done, held, l) \<Rightarrow>
          (Inr (), if done \<and> \<not> nl_has_disconnected l then nl_disconnected app initialized held l else l))"

definition nl_close_socket :: "os \<Rightarrow> 'a net_listener_scheme app_on \<Rightarrow> bool \<Rightarrow> 'a net_listener_scheme \<Rightarrow> ('a net_listener_scheme, unit) outcome" where
  "nl_close_socket os app initialized l = nl_close_socket_internal os app initialized l"

text \<open>
  \<open>close_socket\<close> is virtual: the methods that call it take the closer of the object's class as the
  argument \<open>cl\<close>.  For a \<open>NetworkSocketListener\<close> it is \<open>nl_close_socket\<close>.
\<close>

type_synonym 'l nl_closer = "'l \<Rightarrow> ('l, unit) outcome"

definition nl_on_error :: "'a net_listener_scheme nl_closer \<Rightarrow> 'a net_listener_scheme nl_closer" where
  "nl_on_error cl l = cl l"

section \<open>Sending\<close>

definition nl_on_write_ready ::
    "os \<Rightarrow> 'a net_listener_scheme nl_closer \<Rightarrow> 'a net_listener_scheme \<Rightarrow> ('a net_listener_scheme, unit) outcome option" where
  "nl_on_write_ready os cl l =
     (case nl_socket l of
        None \<Rightarrow> Some (Inl MemoryFault, l)
      | Some s \<Rightarrow>
        Option.bind (tcp_do_send os (tcp_close os) s) (\<lambda>(r, s). Some (
          let l = l\<lparr>nl_socket := Some s\<rparr> in
          case (case r of
                  Inr has_more \<Rightarrow> (Inr has_more, l)
                | Inl (SocketError msg) \<Rightarrow>
                    (case cl l of
                       (Inl e, l) \<Rightarrow> (Inl e, l) | (Inr _, l) \<Rightarrow> (Inr False, l))
                | Inl e \<Rightarrow> (Inl e, l)) of
            (Inl e, l) \<Rightarrow> (Inl e, l)
          | (Inr has_more, l) \<Rightarrow>
              (Inr (), if \<not> has_more \<and> nl_is_valid l then nl_set_mode ReadOnly l else l))))"

text \<open>
  The three \<open>send\<close> methods differ in the \<open>send\<close> of the socket that they call, the argument \<open>sock_send\<close>, which
  takes the 32-bit length.  \<open>wait\<close> gives the socket as other threads have left it when
  \<open>wait_send_queue_empty\<close> returns, if it returns.
\<close>

partial_function (option) nl_send_loop ::
    "(u32 \<Rightarrow> tcp_socket \<Rightarrow> (tcp_socket, bool) outcome option) \<Rightarrow> (tcp_socket \<Rightarrow> tcp_socket option) \<Rightarrow>
     'a net_listener_scheme nl_closer \<Rightarrow> u64 \<Rightarrow> bool \<Rightarrow> 'a net_listener_scheme \<Rightarrow> ('a net_listener_scheme, bool) outcome option" where
  "nl_send_loop sock_send wait cl len blocking l =
     (case nl_socket l of
        None \<Rightarrow> Some (Inl MemoryFault, l)
      | Some s \<Rightarrow>
        Option.bind (sock_send (ucast len) s) (\<lambda>(r, s).
          let l = l\<lparr>nl_socket := Some s\<rparr> in
          case r of
            Inr has_more \<Rightarrow> Some (Inr has_more, l)
          | Inl e \<Rightarrow>
            (case e of
               SocketError msg \<Rightarrow>
                 Some (case cl l of
                   (Inl e, l) \<Rightarrow> (Inl e, l) | (Inr _, l) \<Rightarrow> (Inr False, l))
             | SendQueueFull \<Rightarrow>
                 if blocking then
                   Option.bind (wait s) (\<lambda>s.
                     nl_send_loop sock_send wait cl len blocking (l\<lparr>nl_socket := Some s\<rparr>))
                 else
                   Some (case cl l of
                     (Inl e, l) \<Rightarrow> (Inl e, l) | (Inr _, l) \<Rightarrow> (Inr False, l))
             | _ \<Rightarrow> Some (Inl e, l))))"

definition nl_send_with ::
    "(u32 \<Rightarrow> tcp_socket \<Rightarrow> (tcp_socket, bool) outcome option) \<Rightarrow> (tcp_socket \<Rightarrow> tcp_socket option) \<Rightarrow>
     'a net_listener_scheme nl_closer \<Rightarrow> u64 \<Rightarrow> bool \<Rightarrow> 'a net_listener_scheme \<Rightarrow> ('a net_listener_scheme, unit) outcome option" where
  "nl_send_with sock_send wait cl len blocking l =
     Option.bind (nl_send_loop sock_send wait cl len blocking l) (\<lambda>(r, l). Some (
       case r of
         Inl e \<Rightarrow> (Inl e, l)
       | Inr has_more \<Rightarrow>
         if nl_is_valid l then (Inr (), nl_set_mode (if has_more then ReadWrite else ReadOnly) l)
         else cl l))"

definition nl_send_shared where
  "nl_send_shared os wait app initialized data len blocking async =
     nl_send_with (\<lambda>n. tcp_send_shared os data n async) wait (nl_close_socket os app initialized) len blocking"

definition nl_send_unique where
  "nl_send_unique os wait app initialized data len blocking async =
     nl_send_with (\<lambda>n. tcp_send_unique os data n async) wait (nl_close_socket os app initialized) len blocking"

definition nl_send where
  "nl_send os wait app initialized data len blocking async =
     nl_send_with (\<lambda>n. tcp_send os data n async) wait (nl_close_socket os app initialized) len blocking"

section \<open>Receiving\<close>

text \<open>One round of \<open>wait_for_connection\<close>: \<open>True\<close> when it returns, \<open>False\<close> when it polls again.\<close>

definition nl_wait_for_connection :: "'a net_listener_scheme \<Rightarrow> error + bool" where
  "nl_wait_for_connection l =
     (if nl_is_connected l then Inr True
      else case nl_socket l of
        None \<Rightarrow> Inr False
      | Some s \<Rightarrow>
        if tcp_is_listening s then Inl (RuntimeError ''Cannot wait for connection. Is listening.'')
        else Inr (tcp_wait_connection_established s))"

partial_function (option) nl_read_loop ::
    "os \<Rightarrow> 'a net_listener_scheme app_on \<Rightarrow> 'a net_listener_scheme \<Rightarrow> ('a net_listener_scheme, unit) outcome option" where
  "nl_read_loop os app l =
     (case nl_socket l of
        None \<Rightarrow> Some (Inr (), l)
      | Some s \<Rightarrow>
        Option.bind (tcp_receive os s) (\<lambda>(r, s).
          let l = l\<lparr>nl_socket := Some s\<rparr> in
          case r of
            Inr (Some message) \<Rightarrow> nl_read_loop os app (nl_callback app (NetworkMessage message) l)
          | Inr None \<Rightarrow> Some (Inr (), l)
          | Inl e \<Rightarrow> Some (case e of SocketError msg \<Rightarrow> (Inr (), l) | _ \<Rightarrow> (Inl e, l))))"

definition nl_on_read_ready ::
    "os \<Rightarrow> inet \<Rightarrow> 'a net_listener_scheme app_on \<Rightarrow> bool \<Rightarrow> 'a net_listener_scheme \<Rightarrow> ('a net_listener_scheme, unit) outcome option" where
  "nl_on_read_ready os net app initialized l =
     (case nl_socket_type l of
        Acceptor \<Rightarrow>
          (case nl_socket l of
             None \<Rightarrow> Some (Inl MemoryFault, l)
           | Some s \<Rightarrow>
             Option.bind (tcp_accept os net s) (\<lambda>(r, s). Some (
               let l = l\<lparr>nl_socket := Some s\<rparr> in
               case r of
                 Inl e \<Rightarrow> (Inl e, l)
               | Inr result \<Rightarrow> (Inr (), fold (\<lambda>s. nl_callback app (NewConnection s)) result l))))
      | Connection \<Rightarrow>
          Option.bind (nl_read_loop os app l) (\<lambda>(r, l). Some (
            case r of
              Inl e \<Rightarrow> (Inl e, l)
            | Inr _ \<Rightarrow>
              (case nl_socket l of
                 None \<Rightarrow> (Inr (), l)
               | Some s \<Rightarrow>
                 if \<not> tcp_is_valid s then nl_close_socket_internal os app initialized l else (Inr (), l))))
      | SocketNone \<Rightarrow> Some (Inl (RuntimeError ''Unknown socket type!''), l))"

section \<open>What the application and the loop have been told\<close>

fun message_of :: "net_event \<Rightarrow> byte list list" where
  "message_of (NetworkMessage m) = [mi_data m]"
| "message_of _ = []"

definition delivered :: "net_listener \<Rightarrow> byte list list" where
  "delivered l = concat (map message_of (nl_log l))"

fun is_disconnect :: "net_event \<Rightarrow> bool" where
  "is_disconnect (Disconnect held) = True"
| "is_disconnect _ = False"

fun is_unregister :: "loop_call \<Rightarrow> bool" where
  "is_unregister (Unregister fd) = True"
| "is_unregister _ = False"

definition times :: "('a \<Rightarrow> bool) \<Rightarrow> 'a list \<Rightarrow> nat" where
  "times P xs = length (filter P xs)"

lemma times_simps [simp]: "times P [] = 0" "times P (xs @ [x]) = times P xs + (if P x then 1 else 0)"
  by (simp_all add: times_def)

text \<open>
  The invariant of a connection: the socket is well formed; unsent data on a connected socket is
  announced to the loop; the messages handed to the application and those still queued are what was received;
  the application is told of the disconnect, and the loop of the removal, exactly once, after the
  socket has become invalid.
\<close>

definition socket_inv :: "MessageMode \<Rightarrow> net_listener \<Rightarrow> tcp_socket \<Rightarrow> bool" where
  "socket_inv mode l s \<longleftrightarrow> tcp_inv mode s \<and>
     (tcp_is_connected s \<and> backlog s \<noteq> [] \<longrightarrow> nl_mode l = ReadWrite) \<and>
     received_view mode (delivered l) s \<and> (nl_has_disconnected l \<longrightarrow> \<not> tcp_is_valid s)"

definition told_inv :: "net_listener \<Rightarrow> bool" where
  "told_inv l \<longleftrightarrow> nl_socket_type l = Connection \<and>
     times is_disconnect (nl_log l) = (if nl_has_disconnected l then 1 else 0) \<and>
     times is_unregister (nl_calls l) = (if nl_has_disconnected l then 1 else 0)"

definition nl_inv :: "MessageMode \<Rightarrow> net_listener \<Rightarrow> bool" where
  "nl_inv mode l \<longleftrightarrow> told_inv l \<and> (\<exists>s. nl_socket l = Some s \<and> socket_inv mode l s)"

text \<open>An application whose callbacks do not touch the listener.\<close>

definition passive_app :: "'l app_on" where
  "passive_app e l = l"

lemma nl_callback_passive_app [simp]:
  "nl_callback passive_app e l = l\<lparr>nl_log := nl_log l @ [e]\<rparr>"
  by (simp add: nl_callback_def passive_app_def)

lemma tcp_inv_fd_ok: "tcp_inv mode s \<Longrightarrow> fd_ok s"
  by (simp add: tcp_inv_def tcp_base_def)

lemma connected_valid: "fd_ok s \<Longrightarrow> tcp_is_connected s \<Longrightarrow> tcp_is_valid s"
  by (simp add: fd_ok_def tcp_is_connected_def tcp_is_valid_def)

lemma nl_set_mode_simps [simp]:
  "nl_socket (nl_set_mode m l) = nl_socket l" "nl_mode (nl_set_mode m l) = m"
  "nl_has_disconnected (nl_set_mode m l) = nl_has_disconnected l" "nl_log (nl_set_mode m l) = nl_log l"
  "delivered (nl_set_mode m l) = delivered l" "told_inv (nl_set_mode m l) = told_inv l"
  by (auto simp: nl_set_mode_def nl_call_def delivered_def told_inv_def)

section \<open>Closing\<close>

lemma nl_close_total:
  assumes os: "shutdown_ok os" and t: "told_inv l" and s: "nl_socket l = Some s" "fd_ok s"
    "nl_has_disconnected l \<longrightarrow> \<not> tcp_is_valid s"
  obtains l' s' where "nl_close_socket_internal os passive_app True l = (Inr (), l')" "told_inv l'"
    "nl_socket l' = Some s'" "quiet s s'" "fd_ok s'" "\<not> tcp_is_connected s'"
    "nl_has_disconnected l' \<longrightarrow> \<not> tcp_is_valid s'" "nl_mode l' = nl_mode l" "delivered l' = delivered l"
    "\<not> tcp_is_valid s \<Longrightarrow> nl_has_disconnected l' \<and> s' = s"
proof (cases "tcp_is_valid s")
  case False
  have nc: "\<not> tcp_is_connected s" using False s(2) connected_valid by blast
  let ?l = "if nl_has_disconnected l then l else nl_disconnected passive_app True True l"
  have "nl_close_socket_internal os passive_app True l = (Inr (), ?l)"
    using False s(1) by (simp add: nl_close_socket_internal_def)
  moreover have "told_inv ?l" "nl_socket ?l = Some s" "nl_mode ?l = nl_mode l" "delivered ?l = delivered l"
    "nl_has_disconnected ?l"
    using t s(1) by (auto simp: nl_disconnected_def told_inv_def Let_def nl_call_def delivered_def)
  ultimately show thesis using False nc s(2) by (intro that [of ?l s]) simp_all
next
  case True
  have nd: "\<not> nl_has_disconnected l" using True s(3) by blast
  obtain b s' where c: "tcp_close os False s = (Inr b, s')" "fd_ok s'"
      "if b then unused s' \<and> \<not> tcp_is_valid s' else tcp_is_connected s \<and> m_state s' = Shutdown"
    using tcp_close_total [of s os False] s(2) os by (auto simp: shutdown_ok_def split: if_splits)
  have nc: "\<not> tcp_is_connected s'" using c(3) by (auto simp: unused_def tcp_is_connected_def split: if_splits)
  have q: "quiet s s'" using tcp_close_quiet [of s os False] c(1) by simp
  let ?l = "if b then nl_disconnected passive_app True False (l\<lparr>nl_socket := Some s'\<rparr>) else l\<lparr>nl_socket := Some s'\<rparr>"
  have "nl_close_socket_internal os passive_app True l = (Inr (), ?l)"
    using True s(1) c(1) nd by (simp add: nl_close_socket_internal_def)
  moreover have "told_inv ?l" "nl_socket ?l = Some s'" "nl_mode ?l = nl_mode l" "delivered ?l = delivered l"
    "nl_has_disconnected ?l = b"
    using t nd by (auto simp: nl_disconnected_def told_inv_def Let_def nl_call_def delivered_def)
  ultimately show thesis using True nc q c(2,3) by (intro that [of ?l s']) (auto split: if_splits)
qed

section \<open>Sending\<close>

text \<open>The state in which the loop of \<open>send\<close> leaves the listener, before the mode is set.\<close>

definition unsettled :: "MessageMode \<Rightarrow> net_listener \<Rightarrow> tcp_socket \<Rightarrow> bool" where
  "unsettled mode l s \<longleftrightarrow> told_inv l \<and> nl_socket l = Some s \<and> tcp_inv mode s \<and>
     received_view mode (delivered l) s \<and> (nl_has_disconnected l \<longrightarrow> \<not> tcp_is_valid s)"

lemma nl_inv_unsettled: "nl_inv mode l \<longleftrightarrow>
  (\<exists>s. unsettled mode l s \<and> (tcp_is_connected s \<and> backlog s \<noteq> [] \<longrightarrow> nl_mode l = ReadWrite))"
  by (auto simp: nl_inv_def unsettled_def socket_inv_def)

definition same_received :: "tcp_socket \<Rightarrow> tcp_socket \<Rightarrow> bool" where
  "same_received s s' \<longleftrightarrow> same_content (m_slicer s) (m_slicer s') \<and>
     bytes_received (trace s') = bytes_received (trace s) \<and> data_count s' = data_count s \<and>
     m_max_send_queue_size s' = m_max_send_queue_size s"

lemma same_received_refl [simp]: "same_received s s"
  by (simp add: same_received_def same_content_def)

lemma same_received_trans: "same_received s t \<Longrightarrow> same_received t u \<Longrightarrow> same_received s u"
  by (simp add: same_received_def same_content_def)

lemma data_count_append: "trace s' = trace s @ h \<Longrightarrow> bytes_received h = [] \<Longrightarrow> data_count s' = data_count s"
  using no_bytes_no_data [of h] by (simp add: data_count_def)

lemma quiet_same_received: "quiet s s' \<Longrightarrow> same_received s s'"
  using data_count_append [of s' s] by (auto simp: quiet_def same_received_def same_sending_def)

text \<open>Everything that a socket has taken over for sending.\<close>

definition outgoing :: "'a tcp_socket_scheme \<Rightarrow> byte list" where
  "outgoing s = bytes_sent (trace s) @ backlog s"

text \<open>
  What a call on a listener adds to the outgoing bytes: the portions \<open>bss\<close> in their order, and if the connection
  has ended meanwhile some of them; and that it does not touch what has been received.
\<close>

definition grows :: "net_listener \<Rightarrow> byte list list \<Rightarrow> net_listener \<Rightarrow> bool" where
  "grows l bss l' \<longleftrightarrow> (\<exists>s s' css. nl_socket l = Some s \<and> nl_socket l' = Some s' \<and> subseq css bss \<and>
     outgoing s' = outgoing s @ concat css \<and> (tcp_is_connected s' \<longrightarrow> tcp_is_connected s \<and> css = bss))"

definition sends :: "net_listener \<Rightarrow> byte list list \<Rightarrow> net_listener \<Rightarrow> bool" where
  "sends l bss l' \<longleftrightarrow> grows l bss l' \<and> delivered l' = delivered l \<and>
     (\<exists>s s'. nl_socket l = Some s \<and> nl_socket l' = Some s' \<and> same_received s s' \<and> (tcp_is_valid s' \<longrightarrow> tcp_is_valid s))"

lemma grows_trans: "grows l a l1 \<Longrightarrow> grows l1 b l2 \<Longrightarrow> grows l (a @ b) l2"
proof -
  assume g: "grows l a l1" "grows l1 b l2"
  obtain s s1 as where 1: "nl_socket l = Some s" "nl_socket l1 = Some s1" "subseq as a"
      "outgoing s1 = outgoing s @ concat as" "tcp_is_connected s1 \<longrightarrow> tcp_is_connected s \<and> as = a"
    using g(1) unfolding grows_def by blast
  obtain s2 bs where 2: "nl_socket l2 = Some s2" "subseq bs b"
      "outgoing s2 = outgoing s1 @ concat bs" "tcp_is_connected s2 \<longrightarrow> tcp_is_connected s1 \<and> bs = b"
    using g(2) 1(2) unfolding grows_def by auto
  have "outgoing s2 = outgoing s @ concat (as @ bs)" "tcp_is_connected s2 \<longrightarrow> tcp_is_connected s \<and> as @ bs = a @ b"
    using 1(4,5) 2(3,4) by simp_all
  moreover have "subseq (as @ bs) (a @ b)" using 1(3) 2(2) by (rule list_emb_append_mono)
  ultimately show "grows l (a @ b) l2" using 1(1) 2(1) unfolding grows_def by blast
qed

lemma sends_trans: "sends l a l1 \<Longrightarrow> sends l1 b l2 \<Longrightarrow> sends l (a @ b) l2"
  unfolding sends_def by (auto intro: grows_trans same_received_trans)

lemma sendsI:
  assumes "nl_socket l = Some s" and "nl_socket l' = Some s'" and "delivered l' = delivered l" and "same_received s s'"
    and "tcp_is_valid s' \<longrightarrow> tcp_is_valid s" and "tcp_is_connected s' \<longrightarrow> tcp_is_connected s"
  shows "outgoing s' = outgoing s \<Longrightarrow> sends l [] l'"
    and "outgoing s' = outgoing s @ bs \<Longrightarrow> sends l [bs] l'"
    and "outgoing s' \<in> {outgoing s, outgoing s @ bs} \<Longrightarrow> \<not> tcp_is_connected s' \<Longrightarrow> sends l [bs] l'"
proof -
  have *: "sends l bss l'" if "subseq css bss" "outgoing s' = outgoing s @ concat css" "tcp_is_connected s' \<longrightarrow> css = bss" for css bss
    using assms that unfolding sends_def grows_def by blast
  show "outgoing s' = outgoing s \<Longrightarrow> sends l [] l'" "outgoing s' = outgoing s @ bs \<Longrightarrow> sends l [bs] l'"
    using * [of "[]" "[]"] * [of "[bs]" "[bs]"] by simp_all
  then show "outgoing s' \<in> {outgoing s, outgoing s @ bs} \<Longrightarrow> \<not> tcp_is_connected s' \<Longrightarrow> sends l [bs] l'"
    using * [of "[]" "[bs]"] by auto
qed

lemma unsettled_socket:
  assumes "unsettled mode l s" and "tcp_inv mode s'" and "same_received s s'" and "tcp_is_valid s' \<longrightarrow> tcp_is_valid s"
  shows "unsettled mode (l\<lparr>nl_socket := Some s'\<rparr>) s'"
  using assms received_view_cong [of s s' mode "delivered l"]
  by (auto simp: unsettled_def told_inv_def delivered_def same_received_def)

lemma unsettled_close:
  assumes "shutdown_ok os" and "unsettled mode l s"
  obtains l' s' where "nl_close_socket os passive_app True l = (Inr (), l')" "unsettled mode l' s'"
    "\<not> tcp_is_connected s'" "\<not> tcp_is_valid s \<Longrightarrow> nl_has_disconnected l'" "sends l [] l'"
proof -
  have s: "told_inv l" "nl_socket l = Some s" "fd_ok s" "nl_has_disconnected l \<longrightarrow> \<not> tcp_is_valid s"
    using assms(2) tcp_inv_fd_ok by (auto simp: unsettled_def)
  show thesis
  proof (rule nl_close_total [OF assms(1) s])
    fix l' s'
    assume c: "nl_close_socket_internal os passive_app True l = (Inr (), l')" "told_inv l'"
      "nl_socket l' = Some s'" "quiet s s'" "fd_ok s'" "\<not> tcp_is_connected s'"
      "nl_has_disconnected l' \<longrightarrow> \<not> tcp_is_valid s'" "delivered l' = delivered l"
      "\<not> tcp_is_valid s \<Longrightarrow> nl_has_disconnected l' \<and> s' = s"
    have "unsettled mode l' s'"
      using assms(2) c tcp_inv_quiet [of mode s s'] received_view_quiet [OF c(4)] by (simp add: unsettled_def)
    moreover have "outgoing s' = outgoing s"
      using c(4) same_sending_backlog [of s s'] by (auto simp: quiet_def outgoing_def)
    then have "sends l [] l'"
      using c(6,9) by (intro sendsI(1) [OF s(2) c(3,8) quiet_same_received [OF c(4)]]) auto
    ultimately show thesis using c by (intro that [of l' s']) (simp_all add: nl_close_socket_def)
  qed
qed

lemma sends_set_mode: "sends l bss l' \<Longrightarrow> sends l bss (nl_set_mode m l')"
  by (simp add: sends_def grows_def)

lemma sends_closed:
  assumes "outgoing s' \<in> {outgoing s, outgoing s @ bs}" and "sends (l\<lparr>nl_socket := Some s'\<rparr>) [] l'"
    and "nl_socket l = Some s" and "nl_socket l' = Some s''" and "\<not> tcp_is_connected s''" and "same_received s s'"
    and "tcp_is_valid s' \<longrightarrow> tcp_is_valid s"
  shows "sends l [bs] l'"
  using assms by (intro sendsI(3) [of l s l' s''])
    (auto simp: sends_def grows_def delivered_def dest!: list_emb_Nil2 intro: same_received_trans)

text \<open>
  The contract of the socket's three \<open>send\<close> methods that the listener relies on: with the arguments
  that \<open>good\<close> describes they return, keep the socket's invariant, take over exactly the bytes \<open>framed\<close>, report
  whether data is left, and throw nothing but a socket error or, without any effect, a full queue.
\<close>

definition send_contract :: "MessageMode \<Rightarrow> tcp_socket \<Rightarrow> byte list \<Rightarrow> (tcp_socket, bool) outcome option \<Rightarrow> bool" where
  "send_contract mode s bs x \<longleftrightarrow>
    (\<exists>r s'. x = Some (r, s') \<and> tcp_inv mode s' \<and> same_received s s' \<and> (tcp_is_valid s' \<longrightarrow> tcp_is_valid s) \<and>
      (tcp_is_connected s' \<longrightarrow> tcp_is_connected s) \<and>
      (case r of
         Inr has_more \<Rightarrow> (\<not> has_more \<longrightarrow> tcp_is_valid s' \<longrightarrow> backlog s' = []) \<and> outgoing s' = outgoing s @ bs
       | Inl e \<Rightarrow> (\<exists>msg. e = SocketError msg) \<and> outgoing s' \<in> {outgoing s, outgoing s @ bs} \<or>
           e = SendQueueFull \<and> s' = s \<and> tcp_is_valid s \<and> m_max_send_queue_size s \<le> m_send_queue_size s))"

text \<open>
  A blocking call waits for the queue to drain.  \<open>wait_ok\<close>: the other threads do drain it, or close
  the socket.
\<close>

definition wait_ok :: "MessageMode \<Rightarrow> (tcp_socket \<Rightarrow> tcp_socket option) \<Rightarrow> bool" where
  "wait_ok mode wait \<longleftrightarrow> (\<forall>s. tcp_inv mode s \<longrightarrow> (\<exists>s'. wait s = Some s' \<and> tcp_inv mode s' \<and> same_received s s' \<and>
     (tcp_is_valid s' \<longrightarrow> tcp_is_valid s) \<and> \<not> tcp_send_queue_waits s'))"

locale socket_send =
  fixes os :: os and sock_send :: "u32 \<Rightarrow> tcp_socket \<Rightarrow> (tcp_socket, bool) outcome option"
    and good :: "u32 \<Rightarrow> bool" and framed :: "u32 \<Rightarrow> byte list" and mode :: MessageMode
  assumes send_total: "write_bounded os \<Longrightarrow> good n \<Longrightarrow> tcp_inv mode s \<Longrightarrow>
    send_contract mode s (framed n) (sock_send n s)"
begin

text \<open>One round of the loop: the call is settled, or it waits because the queue is full.\<close>

lemma send_loop_cases:
  assumes os: "write_bounded os" "shutdown_ok os" and "good (ucast len)" and s: "unsettled mode l s"
  obtains (settled) has_more l' s' where
      "nl_send_loop sock_send wait (nl_close_socket os passive_app True) len blocking l = Some (Inr has_more, l')"
      "unsettled mode l' s'" "tcp_is_connected s' \<and> \<not> has_more \<longrightarrow> backlog s' = []"
      "sends l [framed (ucast len)] l'"
    | (full) "blocking" "tcp_is_valid s" "m_max_send_queue_size s \<le> m_send_queue_size s"
      "nl_send_loop sock_send wait (nl_close_socket os passive_app True) len blocking l =
        Option.bind (wait s) (\<lambda>s. nl_send_loop sock_send wait (nl_close_socket os passive_app True) len blocking (l\<lparr>nl_socket := Some s\<rparr>))"
proof -
  have inv: "tcp_inv mode s" "nl_socket l = Some s" using s by (simp_all add: unsettled_def)
  obtain r s' where r: "sock_send (ucast len) s = Some (r, s')" "tcp_inv mode s'" "same_received s s'"
      "tcp_is_valid s' \<longrightarrow> tcp_is_valid s" "tcp_is_connected s' \<longrightarrow> tcp_is_connected s"
      "case r of Inr has_more \<Rightarrow> (\<not> has_more \<longrightarrow> tcp_is_valid s' \<longrightarrow> backlog s' = []) \<and>
           outgoing s' = outgoing s @ framed (ucast len)
       | Inl e \<Rightarrow> (\<exists>msg. e = SocketError msg) \<and> outgoing s' \<in> {outgoing s, outgoing s @ framed (ucast len)} \<or>
           e = SendQueueFull \<and> s' = s \<and> tcp_is_valid s \<and> m_max_send_queue_size s \<le> m_send_queue_size s"
    using send_total [OF os(1) assms(3) inv(1)] unfolding send_contract_def by (force split: sum.splits)
  let ?l = "l\<lparr>nl_socket := Some s'\<rparr>"
  have u: "unsettled mode ?l s'" using unsettled_socket [OF s r(2-4)] .
  note snd = sendsI [of l s _ s', OF inv(2) _ _ r(3-5)]
  consider has_more where "r = Inr has_more" | e where "r = Inl e" "(\<exists>msg. e = SocketError msg) \<or> e = SendQueueFull \<and> \<not> blocking"
    | "r = Inl SendQueueFull" "blocking" using r(6) by (cases r) auto
  then show thesis
  proof cases
    case 1
    then show thesis
      using r u inv(2) tcp_inv_fd_ok [of mode s'] connected_valid [of s'] snd(2) [of ?l "framed (ucast len)"]
      by (intro settled [of has_more ?l s']) (simp_all add: nl_send_loop.simps Let_def delivered_def)
  next
    case 2
    obtain l' s'' where c: "nl_close_socket os passive_app True ?l = (Inr (), l')" "unsettled mode l' s''"
        "\<not> tcp_is_connected s''" "sends ?l [] l'"
      using unsettled_close [OF os(2) u] by blast
    then have "nl_send_loop sock_send wait (nl_close_socket os passive_app True) len blocking l = Some (Inr False, l')"
      using r(1) 2 inv(2) by (subst nl_send_loop.simps) (auto simp: Let_def)
    moreover have "outgoing s' \<in> {outgoing s, outgoing s @ framed (ucast len)}" using r(6) 2 by auto
    then have "sends l [framed (ucast len)] l'"
      using c(2-4) u s r(3-5) by (intro sends_closed [OF _ c(4)]) (auto simp: unsettled_def)
    ultimately show thesis using c by (intro settled [of False l' s'']) simp_all
  next
    case 3
    then show thesis using r inv(2) by (intro full) (simp_all add: nl_send_loop.simps [of _ _ _ _ _ l] Let_def)
  qed
qed

lemma send_loop_total:
  assumes os: "write_bounded os" "shutdown_ok os" and "good (ucast len)" and s: "unsettled mode l s"
    and wait: "blocking \<longrightarrow> wait_ok mode wait \<and> 0 < m_max_send_queue_size s"
  obtains has_more l' s' where
    "nl_send_loop sock_send wait (nl_close_socket os passive_app True) len blocking l = Some (Inr has_more, l')"
    "unsettled mode l' s'" "tcp_is_connected s' \<and> \<not> has_more \<longrightarrow> backlog s' = []"
    "\<not> blocking \<longrightarrow> sends l [framed (ucast len)] l'"
proof (rule send_loop_cases [OF os assms(3) s, of wait blocking])
  assume full: "blocking" "nl_send_loop sock_send wait (nl_close_socket os passive_app True) len blocking l =
      Option.bind (wait s) (\<lambda>s. nl_send_loop sock_send wait (nl_close_socket os passive_app True) len blocking (l\<lparr>nl_socket := Some s\<rparr>))"
  have inv: "tcp_inv mode s" using s by (simp add: unsettled_def)
  obtain s1 where w: "wait s = Some s1" "tcp_inv mode s1" "same_received s s1"
      "tcp_is_valid s1 \<longrightarrow> tcp_is_valid s" "\<not> tcp_send_queue_waits s1"
    using wait full(1) inv by (auto simp: wait_ok_def)
  have u: "unsettled mode (l\<lparr>nl_socket := Some s1\<rparr>) s1" using unsettled_socket [OF s w(2-4)] .
  have eq: "nl_send_loop sock_send wait (nl_close_socket os passive_app True) len blocking l =
      nl_send_loop sock_send wait (nl_close_socket os passive_app True) len blocking (l\<lparr>nl_socket := Some s1\<rparr>)"
    using full(2) w(1) by simp
  have "0 < m_max_send_queue_size s1" using wait full(1) w(3) by (simp add: same_received_def)
  then have room: "\<not> (tcp_is_valid s1 \<and> m_max_send_queue_size s1 \<le> m_send_queue_size s1)"
    using w(5) by (auto simp: tcp_send_queue_waits_def word_gt_0)
  show thesis
    by (rule send_loop_cases [OF os assms(3) u, of wait blocking])
      (rule that, simp only: eq, assumption+, simp add: full(1), use room in blast)
qed (use that in blast)

lemma send_with_inv:
  assumes "write_bounded os" "shutdown_ok os" "good (ucast len)" "nl_inv mode l"
    "blocking \<longrightarrow> wait_ok mode wait \<and> (\<forall>s. nl_socket l = Some s \<longrightarrow> 0 < m_max_send_queue_size s)"
  shows "\<exists>l'. nl_send_with sock_send wait (nl_close_socket os passive_app True) len blocking l = Some (Inr (), l') \<and>
    nl_inv mode l' \<and> (\<not> blocking \<longrightarrow> sends l [framed (ucast len)] l')"
proof -
  obtain s0 where s0: "unsettled mode l s0" using assms(4) by (auto simp: nl_inv_unsettled)
  have w: "blocking \<longrightarrow> wait_ok mode wait \<and> 0 < m_max_send_queue_size s0"
    using assms(5) s0 by (simp add: unsettled_def)
  obtain has_more l' s where
    l: "nl_send_loop sock_send wait (nl_close_socket os passive_app True) len blocking l = Some (Inr has_more, l')"
    "unsettled mode l' s" "tcp_is_connected s \<and> \<not> has_more \<longrightarrow> backlog s = []"
    "\<not> blocking \<longrightarrow> sends l [framed (ucast len)] l'"
    using send_loop_total [OF assms(1-3) s0 w] by blast
  have sock: "nl_socket l' = Some s" using l(2) by (simp add: unsettled_def)
  show ?thesis
  proof (cases "tcp_is_valid s")
    case True
    let ?l = "nl_set_mode (if has_more then ReadWrite else ReadOnly) l'"
    have "unsettled mode ?l s" using l(2) by (simp add: unsettled_def)
    then have "nl_inv mode ?l" using l(3) by (auto simp: nl_inv_unsettled)
    then show ?thesis using l(1,4) True sock sends_set_mode by (auto simp: nl_send_with_def nl_is_valid_def)
  next
    case False
    obtain l'' s' where c: "nl_close_socket os passive_app True l' = (Inr (), l'')" "unsettled mode l'' s'"
        "\<not> tcp_is_connected s'" "sends l' [] l''"
      using unsettled_close [OF assms(2) l(2)] by blast
    then have "nl_inv mode l''" by (auto simp: nl_inv_unsettled unsettled_def)
    moreover have "\<not> blocking \<longrightarrow> sends l [framed (ucast len)] l''" using l(4) sends_trans [OF _ c(4)] by fastforce
    ultimately show ?thesis using l(1) False sock c(1) by (simp add: nl_send_with_def nl_is_valid_def)
  qed
qed

end

text \<open>The three \<open>send\<close> methods of the socket fulfil the contract.\<close>

lemma send_contract_accepted:
  assumes "x = Some (r, s')" and "tcp_inv mode s'" and "tcp_is_valid s"
    and "if async then r = Inr True \<and> h = [] else send_end s' r" and "trace s' = trace s @ h"
    and "bytes_sent h @ backlog s' = backlog s @ bs" and "bytes_received h = []" and "same_content (m_slicer s) (m_slicer s')"
    and "m_max_send_queue_size s' = m_max_send_queue_size s" and "m_state s' \<in> {m_state s, Closed}"
  shows "send_contract mode s bs x"
proof -
  have "outgoing s' = outgoing s @ bs" using assms(5,6) by (simp add: outgoing_def)
  moreover have "r = Inr False \<longrightarrow> tcp_is_valid s' \<longrightarrow> backlog s' = []"
    using assms(4) by (auto simp: send_end_def backlog_def split: if_splits)
  moreover have "\<exists>msg. e = SocketError msg" if "r = Inl e" for e
    using that assms(4) by (auto simp: send_end_def split: if_splits)
  ultimately show ?thesis
    using assms(1-3,5,7-10) data_count_append [OF assms(5,7)] unfolding send_contract_def
    by (intro exI [of _ r] exI [of _ s'] conjI) (auto simp: same_received_def tcp_is_connected_def split: sum.split)
qed

lemma send_contract_rejected:
  assumes "n = 0 \<or> \<not> tcp_is_valid s \<or> m_max_send_queue_size s \<le> m_send_queue_size s" and "tcp_inv mode s"
    and "x = Some (Inl (if n = 0 then SocketError a else if \<not> tcp_is_valid s then SocketError b else SendQueueFull), s)"
  shows "send_contract mode s bs x"
  using assms by (auto simp: send_contract_def same_received_def same_content_def)

lemma send_guards:
  fixes n :: u32
  assumes "\<not> (n = 0 \<or> \<not> tcp_is_valid s \<or> m_max_send_queue_size s \<le> m_send_queue_size s)"
  shows "tcp_is_valid s" "m_send_queue_size s < m_max_send_queue_size s" "0 < n"
  using assms by (auto simp: word_gt_0)

interpretation raw: socket_send os "\<lambda>n. tcp_send os data n async"
  "\<lambda>n. unat n \<le> length data \<and> unat n + 4 < 2 ^ 32" "\<lambda>n. wire_of mode (take (unat n) data)" mode
  for os data async mode
proof
  fix n :: u32 and s :: tcp_socket
  assume a: "write_bounded os" "unat n \<le> length data \<and> unat n + 4 < 2 ^ 32" "tcp_inv mode s"
  show "send_contract mode s (wire_of mode (take (unat n) data)) (tcp_send os data n async s)"
  proof (cases "n = 0 \<or> \<not> tcp_is_valid s \<or> m_max_send_queue_size s \<le> m_send_queue_size s")
    case True
    from send_contract_rejected [OF this a(3) tcp_send_rejected(1) [OF _ this]] a(2) show ?thesis by blast
  next
    case False
    note ok = send_guards [OF False]
    show ?thesis
      by (rule tcp_send_total [OF a(1,3) ok, of data async])
        (use a(2) in simp, use a(2) in simp, rule send_contract_accepted [OF _ _ ok(1)])
  qed
qed

interpretation shared: socket_send os "\<lambda>n. tcp_send_shared os data n async"
  "\<lambda>n. unat n \<le> length data" "\<lambda>n. take (unat n) data" mode for os data async mode
proof
  fix n :: u32 and s :: tcp_socket
  assume a: "write_bounded os" "unat n \<le> length data" "tcp_inv mode s"
  show "send_contract mode s (take (unat n) data) (tcp_send_shared os data n async s)"
  proof (cases "n = 0 \<or> \<not> tcp_is_valid s \<or> m_max_send_queue_size s \<le> m_send_queue_size s")
    case True
    from send_contract_rejected [OF this a(3) tcp_send_rejected(2) [OF a(2) this]] show ?thesis .
  next
    case False
    note ok = send_guards [OF False]
    show ?thesis
      by (rule tcp_send_shared_total [OF a(1,3) ok a(2), of async]) (rule send_contract_accepted [OF _ _ ok(1)])
  qed
qed

interpretation unique: socket_send os "\<lambda>n. tcp_send_unique os data n async"
  "\<lambda>n. unat n = length data \<and> unat n + 4 < 2 ^ 32" "\<lambda>n. wire_of mode data" mode for os data async mode
proof
  fix n :: u32 and s :: tcp_socket
  assume a: "write_bounded os" "unat n = length data \<and> unat n + 4 < 2 ^ 32" "tcp_inv mode s"
  show "send_contract mode s (wire_of mode data) (tcp_send_unique os data n async s)"
  proof (cases "n = 0 \<or> \<not> tcp_is_valid s \<or> m_max_send_queue_size s \<le> m_send_queue_size s")
    case True
    from send_contract_rejected [OF this a(3) tcp_send_rejected(3) [OF _ this]] a(2) show ?thesis by simp
  next
    case False
    note ok = send_guards [OF False]
    have d: "data \<noteq> []" "length data + 4 < 2 ^ 32" and n: "of_nat (length data) = n"
      using ok(3) a(2) by (auto simp: word_less_nat_alt word_unat_eq_iff unat_of_nat)
    show ?thesis
      by (rule tcp_send_unique_total [OF a(1,3) ok(2,1) d, of async, unfolded n])
        (rule send_contract_accepted [OF _ _ ok(1)])
  qed
qed

lemma nl_on_write_ready_inv:
  assumes os: "write_bounded os" "shutdown_ok os" and l: "nl_inv mode l"
  shows "\<exists>l'. nl_on_write_ready os (nl_close_socket os passive_app True) l = Some (Inr (), l') \<and> nl_inv mode l' \<and> sends l [] l'"
proof -
  obtain s where s: "unsettled mode l s" "tcp_is_connected s \<and> backlog s \<noteq> [] \<longrightarrow> nl_mode l = ReadWrite"
    using l by (auto simp: nl_inv_unsettled)
  have inv: "tcp_inv mode s" and sock: "nl_socket l = Some s" using s(1) by (simp_all add: unsettled_def)
  obtain r s' where d: "tcp_do_send os (tcp_close os) s = Some (r, s')" "conserves s s'" "tcp_inv mode s'"
      "send_end s' r" "same_content (m_slicer s) (m_slicer s')" "m_state s' \<in> {m_state s, Closed}"
      "m_fd s' \<in> {m_fd s, -1}"
    using tcp_do_send_total [OF os(1) inv] by blast
  let ?l = "l\<lparr>nl_socket := Some s'\<rparr>"
  have sr: "same_received s s'" "tcp_is_valid s' \<longrightarrow> tcp_is_valid s" "tcp_is_connected s' \<longrightarrow> tcp_is_connected s"
      "outgoing s' = outgoing s"
    using d(2,5,6,7) data_count_append [of s' s]
    by (auto simp: conserves_def same_received_def tcp_is_valid_def tcp_is_connected_def outgoing_def)
  have u: "unsettled mode ?l s'" using unsettled_socket [OF s(1) d(3) sr(1,2)] .
  have snd: "sends l [] ?l" using sendsI(1) [OF sock, of ?l s'] sr by (simp add: delivered_def)
  have rw: "tcp_is_connected s' \<and> backlog s' \<noteq> [] \<longrightarrow> nl_mode l = ReadWrite"
    using s(2) d(2,6) by (auto simp: conserves_def tcp_is_connected_def)
  show ?thesis
  proof (cases r)
    case (Inl e)
    then have e: "\<exists>msg. e = SocketError msg" using d(4) by (auto simp: send_end_def)
    obtain l' s'' where c: "nl_close_socket os passive_app True ?l = (Inr (), l')" "unsettled mode l' s''"
        "\<not> tcp_is_connected s''" "sends ?l [] l'"
      using unsettled_close [OF os(2) u] by blast
    let ?l' = "if nl_is_valid l' then nl_set_mode ReadOnly l' else l'"
    have "nl_on_write_ready os (nl_close_socket os passive_app True) l = Some (Inr (), ?l')"
      using e sock d(1) Inl c(1) by (auto simp: nl_on_write_ready_def Let_def)
    moreover have "nl_inv mode ?l'" using c(2,3) by (auto simp: nl_inv_unsettled unsettled_def)
    moreover have "sends l [] ?l'" using sends_trans [OF snd c(4)] sends_set_mode by auto
    ultimately show ?thesis by blast
  next
    case (Inr has_more)
    let ?l' = "if \<not> has_more \<and> nl_is_valid ?l then nl_set_mode ReadOnly ?l else ?l"
    have "nl_on_write_ready os (nl_close_socket os passive_app True) l = Some (Inr (), ?l')"
      using sock d(1) Inr by (simp add: nl_on_write_ready_def Let_def)
    moreover have "\<not> has_more \<Longrightarrow> tcp_is_valid s' \<Longrightarrow> backlog s' = []"
      using Inr d(4) by (auto simp: send_end_def backlog_def)
    then have "nl_inv mode ?l'"
      using u rw by (auto simp: nl_inv_unsettled unsettled_def nl_is_valid_def)
    moreover have "sends l [] ?l'" using snd sends_set_mode by auto
    ultimately show ?thesis by blast
  qed
qed

section \<open>Receiving\<close>

lemma unsettled_message:
  assumes "unsettled mode l s" and "tcp_inv mode s'" and "received_view mode (delivered l @ ms) s'"
    and "recv_frame s s'"
  shows "ms = [] \<Longrightarrow> unsettled mode (l\<lparr>nl_socket := Some s'\<rparr>) s'"
    and "ms = [mi_data m] \<Longrightarrow>
      unsettled mode (nl_callback passive_app (NetworkMessage m) (l\<lparr>nl_socket := Some s'\<rparr>)) s'"
  using assms by (auto simp: unsettled_def told_inv_def delivered_def recv_frame_def tcp_is_valid_def)

lemma nl_read_loop_total:
  assumes os: "posix os" "recv_finite os k" and "unsettled mode l s"
    and "tcp_is_connected s \<and> backlog s \<noteq> [] \<longrightarrow> nl_mode l = ReadWrite"
  obtains l' s' where "nl_read_loop os passive_app l = Some (Inr (), l')" "unsettled mode l' s'"
    "tcp_is_connected s' \<and> backlog s' \<noteq> [] \<longrightarrow> nl_mode l' = ReadWrite"
    "tcp_is_valid s' \<longrightarrow> slicer_msgs (m_slicer s') = [] \<and> recv_ended (m_fd s') (trace s') True"
  using assms(3-)
proof (induction "(s, l)" arbitrary: s l thesis
    rule: wf_induct_rule [OF wf_measures [of "[\<lambda>(s, l). k - data_count s, \<lambda>(s, l). length (slicer_msgs (m_slicer s))]"]])
  case 1
  note u = "1.prems"(2) and rw = "1.prems"(3)
  have inv: "tcp_inv mode s" "received_view mode (delivered l) s" and sock: "nl_socket l = Some s"
    using u by (simp_all add: unsettled_def)
  obtain r s' where r: "tcp_receive os s = Some (r, s')" "tcp_inv mode s'"
      "received_view mode (delivered l @ (case r of Inr (Some m) \<Rightarrow> [mi_data m] | _ \<Rightarrow> [])) s'" "recv_frame s s'"
      "case r of Inl e \<Rightarrow> (\<exists>msg. e = SocketError msg) \<and> \<not> tcp_is_valid s'
       | Inr None \<Rightarrow> slicer_msgs (m_slicer s') = []
       | Inr (Some m) \<Rightarrow> data_count s < data_count s' \<and> data_count s < k \<or>
         data_count s' = data_count s \<and> length (slicer_msgs (m_slicer s')) < length (slicer_msgs (m_slicer s))"
      "tcp_is_valid s' \<longrightarrow> recv_ended (m_fd s') (trace s') True"
    using tcp_receive_step [OF os inv] by blast
  let ?l = "l\<lparr>nl_socket := Some s'\<rparr>"
  note um = unsettled_message [OF u r(2,3,4)]
  have rw': "tcp_is_connected s' \<and> backlog s' \<noteq> [] \<longrightarrow> nl_mode l = ReadWrite"
    using rw r(4) same_sending_backlog [of s s'] by (auto simp: recv_frame_def tcp_is_connected_def)
  consider (none) "r = Inr None" | (error) msg where "r = Inl (SocketError msg)" | (msg) m where "r = Inr (Some m)"
    using r(5) by (cases r) (auto split: option.splits)
  then show thesis
  proof cases
    case none
    then show thesis using r um(1) rw' sock
      by (intro "1.prems"(1) [of ?l s']) (simp_all add: nl_read_loop.simps [of os _ l])
  next
    case error
    then show thesis using r um(1) rw' sock
      by (intro "1.prems"(1) [of ?l s']) (simp_all add: nl_read_loop.simps [of os _ l])
  next
    case (msg m)
    let ?l' = "nl_callback passive_app (NetworkMessage m) ?l"
    have eq: "nl_read_loop os passive_app l = nl_read_loop os passive_app ?l'"
      using msg r(1) sock by (simp add: nl_read_loop.simps [of os _ l])
    have lt: "((s', ?l'), (s, l)) \<in> measures [\<lambda>(s, l). k - data_count s, \<lambda>(s, l). length (slicer_msgs (m_slicer s))]"
      using r(5) msg by auto
    have u': "unsettled mode ?l' s'" using um(2) [of m] msg by simp
    show thesis
      by (rule "1.hyps" [OF lt _ u']) (use rw' "1.prems"(1) eq in auto)
  qed
qed

lemma nl_on_read_ready_total:
  assumes os: "posix os" "shutdown_ok os" and l: "nl_inv mode l"
  obtains l' s' where "nl_on_read_ready os net passive_app True l = Some (Inr (), l')" "nl_inv mode l'"
    "nl_socket l' = Some s'"
    "tcp_is_valid s' \<longrightarrow> slicer_msgs (m_slicer s') = [] \<and> recv_ended (m_fd s') (trace s') True"
    "\<not> tcp_is_valid s' \<Longrightarrow> nl_has_disconnected l'"
proof -
  obtain k where k: "recv_finite os k" using os(1) by (auto simp: posix_def)
  obtain s where s: "unsettled mode l s" "tcp_is_connected s \<and> backlog s \<noteq> [] \<longrightarrow> nl_mode l = ReadWrite"
    using l by (auto simp: nl_inv_unsettled)
  have type: "nl_socket_type l = Connection" using s(1) by (simp add: unsettled_def told_inv_def)
  show thesis
  proof (rule nl_read_loop_total [OF os(1) k s])
    fix l1 s1
    assume r: "nl_read_loop os passive_app l = Some (Inr (), l1)" "unsettled mode l1 s1"
      "tcp_is_connected s1 \<and> backlog s1 \<noteq> [] \<longrightarrow> nl_mode l1 = ReadWrite"
      "tcp_is_valid s1 \<longrightarrow> slicer_msgs (m_slicer s1) = [] \<and> recv_ended (m_fd s1) (trace s1) True"
    have u: "told_inv l1" "nl_socket l1 = Some s1" "fd_ok s1" "nl_has_disconnected l1 \<longrightarrow> \<not> tcp_is_valid s1"
      using r(2) tcp_inv_fd_ok by (auto simp: unsettled_def)
    show thesis
    proof (cases "tcp_is_valid s1")
      case True
      then show thesis using r u type
        by (intro that [of l1 s1]) (auto simp: nl_on_read_ready_def nl_inv_unsettled)
    next
      case False
      show thesis
      proof (rule nl_close_total [OF os(2) u])
        fix l2 s2
        assume c: "nl_close_socket_internal os passive_app True l1 = (Inr (), l2)" "told_inv l2"
          "nl_socket l2 = Some s2" "\<not> tcp_is_connected s2" "delivered l2 = delivered l1"
          "\<not> tcp_is_valid s1 \<Longrightarrow> nl_has_disconnected l2 \<and> s2 = s1"
        have "unsettled mode l2 s2" using c False r(2) by (simp add: unsettled_def)
        then show thesis using c False r(1) u(2) type
          by (intro that [of l2 s2]) (auto simp: nl_on_read_ready_def nl_inv_unsettled)
      qed
    qed
  qed
qed

section \<open>The life of a connection\<close>

inductive nl_run :: "os \<Rightarrow> inet \<Rightarrow> MessageMode \<Rightarrow> net_listener \<Rightarrow> bool" for os net mode where
  start: "tcp_inv mode s \<Longrightarrow> backlog s = [] \<Longrightarrow> received_view mode [] s \<Longrightarrow>
    nl_new_socket (Some s) Connection = (Inr (), l) \<Longrightarrow> nl_run os net mode l"
| on_read: "nl_run os net mode l \<Longrightarrow> nl_on_read_ready os net passive_app True l = Some (r, l') \<Longrightarrow> nl_run os net mode l'"
| on_write: "nl_run os net mode l \<Longrightarrow> nl_on_write_ready os (nl_close_socket os passive_app True) l = Some (r, l') \<Longrightarrow> nl_run os net mode l'"
| send: "nl_run os net mode l \<Longrightarrow> unat (ucast len :: u32) \<le> length data \<Longrightarrow> unat (ucast len :: u32) + 4 < 2 ^ 32 \<Longrightarrow>
    nl_send os wait passive_app True data len False async l = Some (r, l') \<Longrightarrow> nl_run os net mode l'"
| send_shared: "nl_run os net mode l \<Longrightarrow> unat (ucast len :: u32) \<le> length data \<Longrightarrow>
    nl_send_shared os wait passive_app True data len False async l = Some (r, l') \<Longrightarrow> nl_run os net mode l'"
| send_unique: "nl_run os net mode l \<Longrightarrow> unat (ucast len :: u32) = length data \<Longrightarrow> unat (ucast len :: u32) + 4 < 2 ^ 32 \<Longrightarrow>
    nl_send_unique os wait passive_app True data len False async l = Some (r, l') \<Longrightarrow> nl_run os net mode l'"
| on_error: "nl_run os net mode l \<Longrightarrow> nl_on_error (nl_close_socket os passive_app True) l = (r, l') \<Longrightarrow> nl_run os net mode l'"
| close: "nl_run os net mode l \<Longrightarrow> nl_close_socket os passive_app True l = (r, l') \<Longrightarrow> nl_run os net mode l'"
| re_register: "nl_run os net mode l \<Longrightarrow> nl_re_register first_time l = (r, l') \<Longrightarrow> nl_run os net mode l'"

lemma nl_close_inv:
  assumes "shutdown_ok os" and "nl_inv mode l" and "nl_close_socket os passive_app True l = (r, l')"
  shows "nl_inv mode l'"
proof -
  obtain s where "unsettled mode l s" using assms(2) by (auto simp: nl_inv_unsettled)
  from unsettled_close [OF assms(1) this] show ?thesis using assms(3) by (auto simp: nl_inv_unsettled)
qed

lemma nl_re_register_inv:
  assumes "nl_inv mode l" and "nl_re_register first_time l = (r, l')"
  shows "nl_inv mode l'"
  using assms by (auto simp: nl_inv_def socket_inv_def told_inv_def nl_re_register_def nl_call_def delivered_def
      split: if_splits)

lemma nl_run_inv:
  assumes "nl_run os net mode l" and os: "posix os" "shutdown_ok os"
  shows "nl_inv mode l"
  using assms(1)
proof induction
  case (start s l)
  then show ?case
    by (auto simp: nl_new_socket_def nl_set_socket_def nl_new_def nl_inv_def socket_inv_def told_inv_def
        delivered_def split: if_splits)
next
  case (on_read l r l')
  then show ?case using nl_on_read_ready_total [OF os on_read.IH, of net] by auto
next
  case (on_write l r l')
  then show ?case using nl_on_write_ready_inv [OF _ os(2) on_write.IH] os(1) by (auto simp: posix_def)
next
  case (send l len data wait async r l')
  then show ?case using raw.send_with_inv [OF _ os(2) _ send.IH, of len data False wait async] os(1)
    by (auto simp: posix_def nl_send_def)
next
  case (send_shared l len data wait async r l')
  then show ?case using shared.send_with_inv [OF _ os(2) _ send_shared.IH, of len data False wait async] os(1)
    by (auto simp: posix_def nl_send_shared_def)
next
  case (send_unique l len data wait async r l')
  then show ?case using unique.send_with_inv [OF _ os(2) _ send_unique.IH, of len data False wait async] os(1)
    by (auto simp: posix_def nl_send_unique_def)
next
  case (on_error l r l')
  then show ?case using nl_close_inv [OF os(2)] by (simp add: nl_on_error_def)
qed (use nl_close_inv [OF os(2)] nl_re_register_inv in blast)+

section \<open>Properties\<close>

text \<open>
  A connection over any sequence of handler calls and sends: while a connected socket has unsent
  data its listener is in the mode that wakes it for writing, so that no data is stuck;
  the messages handed to the application, with those still queued in the socket, are the parse of the
  bytes received; and the application is told of the disconnect, and the loop of the removal, at most
  once, exactly when the flag is set, and only after the socket has become invalid.
\<close>

theorem nl_run_invariant:
  assumes "nl_run os net mode l" and "posix os" and "shutdown_ok os"
  shows "\<exists>s. nl_socket l = Some s \<and>
    (tcp_is_connected s \<and> backlog s \<noteq> [] \<longrightarrow> nl_mode l = ReadWrite) \<and>
    received_view mode (delivered l) s \<and>
    times is_disconnect (nl_log l) = (if nl_has_disconnected l then 1 else 0) \<and>
    times is_unregister (nl_calls l) = (if nl_has_disconnected l then 1 else 0) \<and>
    (nl_has_disconnected l \<longrightarrow> \<not> tcp_is_valid s)"
  using nl_run_inv [OF assms] by (auto simp: nl_inv_def socket_inv_def told_inv_def)

definition connected_listener :: net_listener where
  "connected_listener = nl_new\<lparr>nl_socket := Some (connected_socket Datagram), nl_socket_type := Connection, nl_fileno := 3\<rparr>"

lemma connected_listener_run: "nl_run (feeding_os chunks) net Datagram connected_listener"
proof (rule start [of _ "connected_socket Datagram"])
  show "nl_new_socket (Some (connected_socket Datagram)) Connection = (Inr (), connected_listener)"
    by (simp add: nl_new_socket_def nl_set_socket_def connected_listener_def nl_new_def tcp_get_fileno_def
        connected_socket_def tcp_is_valid_def)
qed (simp_all del: make_slicer.simps)

theorem nl_run_invariant_witness:
  "\<exists>s. nl_socket connected_listener = Some s \<and> received_view Datagram (delivered connected_listener) s"
  using nl_run_invariant [OF connected_listener_run feeding_posix feeding_shutdown_ok] by blast

text \<open>
  The read handler of a connection returns, and hands over everything that the kernel had: it
  stops only after a \<open>recv\<close> that would block, with no complete message left in the socket, unless the socket has become
  invalid; and whenever it has become invalid, the application has been told.
\<close>

theorem nl_on_read_ready_drains:
  assumes "nl_run os net mode l" and "posix os" and "shutdown_ok os"
  shows "\<exists>l' s'. nl_on_read_ready os net passive_app True l = Some (Inr (), l') \<and> nl_socket l' = Some s' \<and>
    received_view mode (delivered l') s' \<and>
    (tcp_is_valid s' \<longrightarrow> slicer_msgs (m_slicer s') = [] \<and> recv_ended (m_fd s') (trace s') True) \<and>
    (\<not> tcp_is_valid s' \<longrightarrow> times is_disconnect (nl_log l') = 1)"
  by (rule nl_on_read_ready_total [OF assms(2,3) nl_run_inv [OF assms], of net])
    (auto simp: nl_inv_def socket_inv_def told_inv_def)

theorem nl_on_read_ready_drains_witness:
  "\<exists>l' s'. nl_on_read_ready (feeding_os [[6, 0, 0, 0, 7, 8]]) loopback_inet passive_app True connected_listener =
      Some (Inr (), l') \<and> nl_socket l' = Some s' \<and> received_view Datagram (delivered l') s'"
  using nl_on_read_ready_drains [OF connected_listener_run feeding_posix feeding_shutdown_ok] by blast

lemma nl_send_sends:
  assumes "nl_run os net mode l" and "posix os" and "shutdown_ok os"
    and "unat (ucast len :: u32) \<le> length data" and "unat (ucast len :: u32) + 4 < 2 ^ 32"
    and "blocking \<longrightarrow> wait_ok mode wait \<and> (\<forall>s. nl_socket l = Some s \<longrightarrow> 0 < m_max_send_queue_size s)"
  shows "\<exists>l'. nl_send os wait passive_app True data len blocking async l = Some (Inr (), l') \<and> nl_inv mode l' \<and>
    (\<not> blocking \<longrightarrow> sends l [wire_of mode (take (unat (ucast len :: u32)) data)] l')"
proof -
  have wb: "write_bounded os" using assms(2) by (simp add: posix_def)
  show ?thesis
    unfolding nl_send_def
    by (rule raw.send_with_inv [OF wb assms(3) _ nl_run_inv [OF assms(1-3)]]) (use assms(4-6) in auto)
qed



lemma ucast_high_bit: "(ucast (2 ^ 32 + ucast (n :: u32) :: u64) :: u32) = ucast (ucast n :: u64)"
proof -
  have n: "unat n < 2 ^ 32" using unsigned_less [of n] by simp
  then have "take_bit 64 (unat n) = unat n" by (intro take_bit_nat_eq_self) simp
  then have u: "unat (ucast n :: u64) = unat n" "unat (2 ^ 32 + ucast n :: u64) = 2 ^ 32 + unat n"
    using n by (simp_all add: unat_word_ariths unsigned_ucast_eq)
  have down: "unat (ucast x :: u32) = unat x mod 2 ^ 32" for x :: u64
    by (simp add: unsigned_ucast_eq take_bit_eq_mod)
  show ?thesis unfolding word_unat_eq_iff down u by (simp del: add_2_eq_Suc' add_2_eq_Suc)
qed

lemma nl_send_loop_length_le:
  assumes "ucast len = (ucast n :: u32)" and "nl_send_loop sock_send wait cl len blocking l = Some y"
  shows "nl_send_loop sock_send wait cl n blocking l = Some y"
proof -
  let ?P = "\<lambda>sock_send wait cl len blocking l y. ucast len = (ucast n :: u32) \<longrightarrow>
    nl_send_loop sock_send wait cl n blocking l = Some y"
  have "?P sock_send wait cl len blocking l y"
    by (rule nl_send_loop.raw_induct [of ?P, OF _ assms(2)], subst nl_send_loop.simps)
      (fastforce split: option.splits sum.splits error.splits bind_splits simp: Let_def)
  then show ?thesis using assms(1) by simp
qed

lemma nl_send_loop_length:
  assumes "ucast len = (ucast n :: u32)"
  shows "nl_send_loop sock_send wait cl len blocking l =
    nl_send_loop sock_send wait cl n blocking l"
  using nl_send_loop_length_le [OF assms] nl_send_loop_length_le [OF assms [symmetric]]
  by (metis not_Some_eq)

text \<open>
  The length of a \<open>send\<close> is a \<open>size_t\<close> that the call of the socket truncates to 32 bits: a
  message of \<open>2 ^ 32 + n\<close> bytes is sent as one of \<open>n\<close> bytes, without an error.
\<close>

lemma nl_send_truncates:
  "nl_send os wait app initialized data (2 ^ 32 + ucast (n :: u32)) blocking async l =
   nl_send os wait app initialized data (ucast n) blocking async l"
  unfolding nl_send_def nl_send_with_def nl_send_loop_length [OF ucast_high_bit [of n]] by (rule refl)

text \<open>
  When the peer closes the connection, the read handler calls \<open>on_disconnect\<close> with the mutex of
  the listener held: a callback that calls \<open>is_valid\<close>, \<open>is_connected\<close> or \<open>send\<close> deadlocks.
\<close>

lemma nl_disconnect_under_lock:
  assumes "nl_socket l = Some s" and "\<not> tcp_is_valid s" and "\<not> nl_has_disconnected l" and "nl_socket_type l = Connection"
  shows "\<exists>l'. nl_close_socket_internal os passive_app initialized l = (Inr (), l') \<and>
    nl_log l' = nl_log l @ [Disconnect True]"
  using assms by (simp add: nl_close_socket_internal_def nl_disconnected_def Let_def nl_call_def)

text \<open>
  An acceptor does not catch the exception of \<open>accept\<close>: an error other than \<open>EAGAIN\<close> leaves the
  handler, and with it the worker thread, with the exception.
\<close>

lemma tcp_accept_error:
  assumes "fd_ok s" and "tcp_is_listening s"
    and "os_accept os (trace s) (m_fd s) = Inl e" and "e \<noteq> EAGAIN"
  shows "\<exists>s'. tcp_accept os net s = Some (Inl (SocketError ''Failed to accept new connection''), s')"
  using assms
  by (simp add: tcp_accept_def tcp_accept_loop.simps [of os net _ s] tcp_internal_accept_def Let_def close_then_def
      tcp_close_def tcp_is_listening_def fd_ok_def)

lemma nl_accept_error_escapes:
  assumes "nl_socket l = Some s" and "nl_socket_type l = Acceptor" and "fd_ok s" and "tcp_is_listening s"
    and "os_accept os (trace s) (m_fd s) = Inl e" and "e \<noteq> EAGAIN"
  shows "\<exists>l'. nl_on_read_ready os net app initialized l =
    Some (Inl (SocketError ''Failed to accept new connection''), l')"
  using assms(1,2) tcp_accept_error [OF assms(3-6), of net] by (auto simp: nl_on_read_ready_def Let_def)

lemma tcp_do_send_reset:
  assumes "tcp_inv mode s" and "tcp_is_valid s" and "m_current_message s = Some m" and "remaining m \<noteq> []"
    and "os_write os (trace s) (m_fd s) (remaining m) \<in> {WriteErr ECONNRESET, WriteErr EPIPE, WriteN 0}"
  obtains s' where "tcp_do_send os (tcp_close os) s = Some (Inr False, s')" "\<not> tcp_is_valid s'"
proof -
  have m: "message_ok m" using assms(1,3) by (simp add: tcp_inv_def send_inv_def)
  have pos: "mo_sent_pos m < mo_length m"
    using m assms(4) by (auto simp: remaining_def message_ok_def word_less_nat_alt word_le_nat_alt)
  have nx: "tcp_next_message s = Some s" using assms(3) by (simp add: tcp_next_message_def)
  define x where "x = os_write os (trace s) (m_fd s) (remaining m)"
  obtain b s' where c: "tcp_close os True (sys (SysWrite (m_fd s) (remaining m) x) s) = (Inr b, s')" "\<not> tcp_is_valid s'"
    using assms(2) by (simp add: tcp_close_def tcp_is_valid_def)
  have "tcp_write_loop os (tcp_close os) s = Some (Inr (Some False), s')"
    using tcp_write_loop_step [OF assms(3) m pos, of os "tcp_close os"] assms(5) c(1)
    by (auto simp: close_then_def simp flip: x_def)
  then show thesis using nx assms(2) c(2) by (intro that [of s']) (simp_all add: tcp_do_send.simps [of os _ s])
qed

text \<open>
  C38. A connection that is found reset while \<open>on_write_ready\<close> sends the backlog: \<open>do_send\<close> closes the
  socket and reports that nothing is left to send, so the handler returns without telling the
  application or the loop, and \<open>re_register\<close> does nothing either.  The listener
  stays in the table, with no event to come.
\<close>

theorem nl_write_reset_untold:
  assumes "nl_socket l = Some s" and "tcp_inv mode s" and "tcp_is_valid s"
    and "m_current_message s = Some m" and "remaining m \<noteq> []"
    and "os_write os (trace s) (m_fd s) (remaining m) \<in> {WriteErr ECONNRESET, WriteErr EPIPE, WriteN 0}"
  shows "\<exists>l'. nl_on_write_ready os cl l = Some (Inr (), l') \<and> \<not> nl_is_valid l' \<and>
    nl_log l' = nl_log l \<and> nl_calls l' = nl_calls l \<and> nl_re_register first_time l' = (Inr (), l')"
  by (rule tcp_do_send_reset [OF assms(2-6)])
    (use assms(1) in \<open>simp add: nl_on_write_ready_def Let_def nl_is_valid_def nl_re_register_def\<close>)

definition half_sent :: tcp_socket where
  "half_sent = (connected_socket Datagram)\<lparr>m_current_message :=
     Some \<lparr>mo_length = 6, mo_sent_pos = 2, mo_is_shared = False, mo_data = [6, 0, 0, 0, 7, 8]\<rparr>\<rparr>"

theorem nl_write_reset_untold_witness:
  "\<exists>l'. nl_on_write_ready ((feeding_os [])\<lparr>os_write := \<lambda>_ _ _. WriteErr EPIPE\<rparr>)
      (nl_close_socket (feeding_os []) passive_app True) (connected_listener\<lparr>nl_socket := Some half_sent\<rparr>) = Some (Inr (), l') \<and> \<not> nl_is_valid l' \<and> nl_log l' = []"
proof -
  have "tcp_inv Datagram half_sent"
    using tcp_inv_connected_socket(1) [of Datagram]
    by (simp add: tcp_inv_def tcp_base_def send_inv_def queue_bounded_def fd_ok_def half_sent_def message_ok_def)
  then show ?thesis
    using nl_write_reset_untold [of "connected_listener\<lparr>nl_socket := Some half_sent\<rparr>" half_sent Datagram
        "\<lparr>mo_length = 6, mo_sent_pos = 2, mo_is_shared = False, mo_data = [6, 0, 0, 0, 7, 8]\<rparr>" "(feeding_os [])\<lparr>os_write := \<lambda>_ _ _. WriteErr EPIPE\<rparr>"
        "nl_close_socket (feeding_os []) passive_app True" False]
    by (auto simp: half_sent_def tcp_is_valid_def connected_socket_def remaining_def connected_listener_def nl_new_def)
qed

end
