(* ===== verification/Time_Listener.thy ===== *)
theory Time_Listener
  imports Event_Listener "HOL-Library.Signed_Division"
begin

text \<open>
  \<open>TimeEventListener\<close> (\<open>include/yael/TimeEventListener.h\<close>, \<open>src/TimeEventListener.cpp\<close>): the queue of
  due times, the kernel timer behind it and the handler that fires the events.  The
  \<open>std::multiset\<close> of due times is a sorted list, whose head is \<open>begin()\<close>.

  The clock, the kernel's answer to \<open>timerfd_settime\<close>, the value read from the timer and the
  application's \<open>on_time_event\<close> are arguments.  The field \<open>tl_timer\<close> is the kernel's one-shot timer:
  the value it was last armed with, and none once it has expired.
\<close>

section \<open>State and operations\<close>

record itimerspec =
  tv_sec :: int
  tv_nsec :: int

record time_listener =
  tl_fileno :: int
  tl_fd :: int
  tl_events :: "u64 list"
  tl_timer :: "itimerspec option"
  tl_calls :: "loop_call list"

definition tl_new :: "int \<Rightarrow> time_listener" where
  "tl_new fd = \<lparr>tl_fileno = fd, tl_fd = fd, tl_events = [], tl_timer = None, tl_calls = []\<rparr>"

definition tl_is_valid :: "time_listener \<Rightarrow> bool" where
  "tl_is_valid t \<longleftrightarrow> tl_fd t \<ge> 0"

definition tl_get_fileno :: "time_listener \<Rightarrow> int" where
  "tl_get_fileno t = tl_fileno t"

text \<open>\<open>initialized\<close> is \<open>EventLoop::is_initialized()\<close>.\<close>

definition tl_close_socket :: "bool \<Rightarrow> time_listener \<Rightarrow> time_listener" where
  "tl_close_socket initialized t =
     (if tl_fd t < 0 then t
      else
        let t = t\<lparr>tl_fd := -1, tl_timer := None\<rparr> in
        if initialized then t\<lparr>tl_calls := tl_calls t @ [Unregister (tl_fileno t)]\<rparr> else t)"

definition tl_on_error :: "bool \<Rightarrow> time_listener \<Rightarrow> time_listener" where
  "tl_on_error initialized t = tl_close_socket initialized t"

definition tl_re_register :: "bool \<Rightarrow> time_listener \<Rightarrow> time_listener" where
  "tl_re_register first_time t =
     (if \<not> tl_is_valid t then t
      else t\<lparr>tl_calls := tl_calls t @ [NotifyModeChange (tl_fileno t) ReadOnly first_time]\<rparr>)"

definition tl_timer_value :: "u64 \<Rightarrow> itimerspec" where
  "tl_timer_value delay =
     (if delay = 0 then \<lparr>tv_sec = 0, tv_nsec = 1\<rparr>
      else \<lparr>tv_sec = sint delay sdiv 1000, tv_nsec = sint (delay mod 1000) * 1000000\<rparr>)"

definition tl_internal_schedule ::
    "(itimerspec \<Rightarrow> int) \<Rightarrow> u64 \<Rightarrow> time_listener \<Rightarrow> bool \<times> time_listener" where
  "tl_internal_schedule settime delay t =
     (let new_value = tl_timer_value delay
      in if settime new_value \<noteq> 0 then (False, t)
         else (True, t\<lparr>tl_timer := Some new_value\<rparr>))"

definition tl_schedule ::
    "(itimerspec \<Rightarrow> int) \<Rightarrow> u64 \<Rightarrow> u64 \<Rightarrow> time_listener \<Rightarrow> bool \<times> time_listener" where
  "tl_schedule settime now delay t =
     (if tl_fd t < 0 then (False, t)
      else
        let is_scheduled = tl_events t \<noteq> [];
            start = now + delay;
            first = (case tl_events t of [] \<Rightarrow> True | e # _ \<Rightarrow> start < e);
            t = t\<lparr>tl_events := insort start (tl_events t)\<rparr>;
            is_scheduled = (if first then False else is_scheduled)
        in if is_scheduled then (True, t) else tl_internal_schedule settime delay t)"

definition tl_unschedule :: "time_listener \<Rightarrow> bool \<times> time_listener" where
  "tl_unschedule t = (tl_events t \<noteq> [], t\<lparr>tl_events := []\<rparr>)"

text \<open>The loop that erases the due events and counts them.\<close>

fun tl_take_due :: "u64 \<Rightarrow> nat \<Rightarrow> u64 list \<Rightarrow> nat \<times> u64 list" where
  "tl_take_due now count [] = (count, [])"
| "tl_take_due now count (it # rest) =
     (if it \<le> now then tl_take_due now (Suc count) rest else (count, it # rest))"

text \<open>The last block of the handler, after the callbacks.\<close>

definition tl_rearm :: "(itimerspec \<Rightarrow> int) \<Rightarrow> u64 \<Rightarrow> time_listener \<Rightarrow> (time_listener, unit) outcome" where
  "tl_rearm settime now t =
     (case tl_events t of
        [] \<Rightarrow> (Inr (), t)
      | next_event # _ \<Rightarrow>
        if tl_fd t \<ge> 0 then
          if next_event < now then (Inl (Fatal ''Invalid state''), t)
          else (Inr (), snd (tl_internal_schedule settime (next_event - now) t))
        else (Inr (), t))"

text \<open>\<open>buf\<close> is what \<open>read\<close> returns: the number of expirations, or none after a short read.\<close>

definition tl_on_read_ready ::
    "(itimerspec \<Rightarrow> int) \<Rightarrow> (time_listener \<Rightarrow> time_listener) \<Rightarrow> u64 option \<Rightarrow> u64 \<Rightarrow> time_listener \<Rightarrow>
     (time_listener, unit) outcome" where
  "tl_on_read_ready settime on_time_event buf now t =
     (case buf of
        None \<Rightarrow> (Inl (Fatal ''Failed to read from timefd''), t)
      | Some buf \<Rightarrow>
        if buf = 1 then
          (case tl_take_due now 0 (tl_events t) of (count, rest) \<Rightarrow>
             tl_rearm settime now ((on_time_event ^^ count) (t\<lparr>tl_events := rest, tl_timer := None\<rparr>)))
        else (Inr (), t))"

section \<open>The timer value\<close>

text \<open>The duration of an armed timer in nanoseconds.\<close>

definition timer_ns :: "itimerspec \<Rightarrow> int" where
  "timer_ns v = tv_sec v * 1000000000 + tv_nsec v"

text \<open>What \<open>timerfd_settime\<close> accepts, from its manual page.\<close>

definition settime_ok :: "(itimerspec \<Rightarrow> int) \<Rightarrow> bool" where
  "settime_ok settime \<longleftrightarrow> (\<forall>v. 0 \<le> tv_sec v \<longrightarrow> 0 \<le> tv_nsec v \<longrightarrow> tv_nsec v < 1000000000 \<longrightarrow> settime v = 0)"

lemma sint_u64_small: "unat (w :: u64) < 2 ^ 63 \<Longrightarrow> sint w = int (unat w)"
proof -
  assume "unat w < 2 ^ 63"
  then have "unat w < 9223372036854775808" by simp
  moreover have "uint w = int (unat w)" by simp
  ultimately have "uint w < 9223372036854775808" by linarith
  then have "signed_take_bit 63 (uint w) = uint w"
    by (intro signed_take_bit_int_eq_self) (simp_all add: order_trans [OF _ uint_ge_0])
  then show ?thesis by (simp add: sint_uint)
qed

lemma int_sdiv: "int n sdiv int d = int (n div d)"
  by (cases "n = 0") (simp_all add: signed_divide_int_def zdiv_int sgn_if)

lemma timer_value:
  assumes "unat delay < 2 ^ 63"
  shows "timer_ns (tl_timer_value delay) = (if delay = 0 then 1 else int (unat delay) * 1000000)"
    and "0 \<le> tv_sec (tl_timer_value delay)"
    and "0 \<le> tv_nsec (tl_timer_value delay)" and "tv_nsec (tl_timer_value delay) < 1000000000"
proof -
  have m: "unat (delay mod 1000) = unat delay mod 1000" by (simp add: unat_mod)
  then have "unat (delay mod 1000) < 1000" by simp
  then have "unat (delay mod 1000) < 2 ^ 63" by simp
  then have s: "sint delay = int (unat delay)" "sint (delay mod 1000) = int (unat delay mod 1000)"
    using assms by (simp_all add: sint_u64_small m del: of_nat_mod)
  have d: "int (unat delay) sdiv 1000 = int (unat delay div 1000)"
    using int_sdiv [of "unat delay" 1000] by (simp only: of_nat_numeral)
  have "int (n div 1000) * 1000 + int (n mod 1000) = int n" for n
    using arg_cong [OF div_mult_mod_eq [of n 1000], of int] by (simp only: of_nat_add of_nat_mult of_nat_numeral)
  from this [of "unat delay"]
  have "int (unat delay div 1000) * 1000000000 + int (unat delay mod 1000) * 1000000 = int (unat delay) * 1000000"
    by linarith
  then show "timer_ns (tl_timer_value delay) = (if delay = 0 then 1 else int (unat delay) * 1000000)"
    by (simp only: timer_ns_def tl_timer_value_def s d itimerspec.simps split: if_split) simp
  show "0 \<le> tv_sec (tl_timer_value delay)" "0 \<le> tv_nsec (tl_timer_value delay)"
    "tv_nsec (tl_timer_value delay) < 1000000000"
    by (simp_all only: tl_timer_value_def s d itimerspec.simps split: if_split) auto
qed

section \<open>The queue\<close>

text \<open>
  Due times are sorted and representable as signed milliseconds, and while any is queued on a
  valid listener the kernel timer is armed.
\<close>

definition events_ok :: "u64 list \<Rightarrow> bool" where
  "events_ok es \<longleftrightarrow> sorted es \<and> (\<forall>e\<in>set es. unat e < 2 ^ 63)"

definition time_inv :: "time_listener \<Rightarrow> bool" where
  "time_inv t \<longleftrightarrow> events_ok (tl_events t) \<and>
     (tl_is_valid t \<longrightarrow> tl_events t \<noteq> [] \<longrightarrow> tl_timer t \<noteq> None)"

lemma internal_schedule:
  assumes "settime_ok settime" and "unat delay < 2 ^ 63"
  shows "tl_internal_schedule settime delay t = (True, t\<lparr>tl_timer := Some (tl_timer_value delay)\<rparr>)"
  using assms timer_value(2-4) [OF assms(2)] by (simp add: tl_internal_schedule_def settime_ok_def)

lemma events_ok_insort: "events_ok es \<Longrightarrow> unat e < 2 ^ 63 \<Longrightarrow> events_ok (insort e es)"
  by (auto simp: events_ok_def set_insort_key sorted_insort)

lemma take_due: "sorted es \<Longrightarrow>
  tl_take_due now n es = (n + length (filter (\<lambda>e. e \<le> now) es), filter (\<lambda>e. now < e) es)"
proof (induction es arbitrary: n)
  case (Cons e es)
  show ?case
  proof (cases "e \<le> now")
    case False
    then have "\<forall>x\<in>set (e # es). now < x" using Cons.prems by auto
    then have "filter (\<lambda>e. e \<le> now) (e # es) = []" "filter (\<lambda>e. now < e) (e # es) = e # es"
      by (auto simp: filter_empty_conv filter_id_conv)
    then show ?thesis using False by simp
  qed (use Cons in auto)
qed simp

lemma sum_below_63: "unat (a :: u64) + unat b < 2 ^ 63 \<Longrightarrow> unat (a + b) = unat a + unat b"
  by (simp add: unat_word_ariths)

lemma tl_schedule:
  assumes "settime_ok settime" and inv: "time_inv t" and "tl_is_valid t" and "unat now + unat delay < 2 ^ 63"
  obtains t' where "tl_schedule settime now delay t = (True, t')" "time_inv t'"
    "tl_events t' = insort (now + delay) (tl_events t)" "tl_fd t' = tl_fd t"
    "tl_timer t' = (if tl_events t = [] \<or> now + delay < hd (tl_events t)
       then Some (tl_timer_value delay) else tl_timer t)"
proof -
  let ?t = "t\<lparr>tl_events := insort (now + delay) (tl_events t)\<rparr>"
  have ok: "events_ok (insort (now + delay) (tl_events t))"
    using inv assms(4) by (intro events_ok_insort) (simp_all add: time_inv_def sum_below_63)
  have arm: "tl_internal_schedule settime delay ?t = (True, ?t\<lparr>tl_timer := Some (tl_timer_value delay)\<rparr>)"
    using assms(4) by (intro internal_schedule [OF assms(1)]) simp
  have v: "0 \<le> tl_fd t" using assms(3) by (simp add: tl_is_valid_def)
  show thesis
  proof (cases "tl_events t = [] \<or> now + delay < hd (tl_events t)")
    case True
    have "tl_schedule settime now delay t = (True, ?t\<lparr>tl_timer := Some (tl_timer_value delay)\<rparr>)"
      using True v arm by (cases "tl_events t") (simp_all add: tl_schedule_def Let_def)
    then show thesis
      using True ok by (intro that [of "?t\<lparr>tl_timer := Some (tl_timer_value delay)\<rparr>"]) (simp_all add: time_inv_def)
  next
    case False
    then have "tl_schedule settime now delay t = (True, ?t)"
      using v by (cases "tl_events t") (simp_all add: tl_schedule_def Let_def)
    moreover have "tl_timer t \<noteq> None" using False inv assms(3) by (simp add: time_inv_def)
    ultimately show thesis using False ok by (intro that [of ?t]) (simp_all add: time_inv_def)
  qed
qed

text \<open>What an application may do in a callback, at the time of the wake-up or later.\<close>

inductive time_ops :: "(itimerspec \<Rightarrow> int) \<Rightarrow> u64 \<Rightarrow> time_listener \<Rightarrow> time_listener \<Rightarrow> bool"
  for settime now where
  start: "time_ops settime now t t"
| schedule: "time_ops settime now t t' \<Longrightarrow> now \<le> now' \<Longrightarrow> unat now' + unat delay < 2 ^ 63 \<Longrightarrow>
    time_ops settime now t (snd (tl_schedule settime now' delay t'))"
| unschedule: "time_ops settime now t t' \<Longrightarrow> time_ops settime now t (snd (tl_unschedule t'))"
| close: "time_ops settime now t t' \<Longrightarrow> time_ops settime now t (tl_close_socket b t')"

text \<open>During the callbacks the timer need not be armed; everything queued lies in the future.\<close>

definition due_later :: "u64 \<Rightarrow> time_listener \<Rightarrow> bool" where
  "due_later now t \<longleftrightarrow> events_ok (tl_events t) \<and> (\<forall>e\<in>set (tl_events t). now \<le> e)"

lemma schedule_due_later:
  assumes "due_later now t" and "now \<le> now'" and "unat now' + unat delay < 2 ^ 63"
  shows "due_later now (snd (tl_schedule settime now' delay t))"
proof -
  have e: "unat (now' + delay) = unat now' + unat delay" using assms(3) by (rule sum_below_63)
  then have "now \<le> now' + delay" using assms(2) by (simp add: word_le_nat_alt)
  then have "due_later now (t\<lparr>tl_events := insort (now' + delay) (tl_events t)\<rparr>)"
    using assms(1,3) e by (simp add: due_later_def events_ok_insort set_insort_key)
  then show ?thesis
    using assms(1) by (auto simp: tl_schedule_def Let_def tl_internal_schedule_def due_later_def)
qed

lemma due_later_frame:
  "due_later now (snd (tl_unschedule t))" "due_later now (tl_close_socket b t) = due_later now t"
  by (simp_all add: due_later_def events_ok_def tl_unschedule_def tl_close_socket_def Let_def)

lemma time_ops_due_later:
  assumes "time_ops settime now t t'" and "due_later now t"
  shows "due_later now t'"
  using assms
proof induction
  case (schedule t t' now' delay)
  from schedule_due_later [OF schedule.IH [OF schedule.prems] schedule.hyps(2,3)] show ?case .
qed (simp_all only: due_later_frame)

lemma callbacks_due_later:
  assumes "\<forall>t. time_ops settime now t (cb t)" and "due_later now t"
  shows "due_later now ((cb ^^ n) t)"
  using assms by (induction n) (auto intro: time_ops_due_later)

lemma rearm:
  assumes "settime_ok settime" and "due_later now t"
  obtains t' where "tl_rearm settime now t = (Inr (), t')" "time_inv t'" "tl_events t' = tl_events t"
    "tl_fd t' = tl_fd t"
    "tl_is_valid t \<Longrightarrow> tl_events t \<noteq> [] \<Longrightarrow> tl_timer t' = Some (tl_timer_value (hd (tl_events t) - now))"
proof (cases "tl_events t")
  case Nil
  then show thesis using assms by (intro that [of t]) (simp_all add: tl_rearm_def time_inv_def due_later_def)
next
  case (Cons e es)
  have e: "now \<le> e" "unat e < 2 ^ 63" using assms(2) Cons by (auto simp: due_later_def events_ok_def)
  then have "unat (e - now) < 2 ^ 63"
    by (simp add: unat_sub_small word_le_nat_alt)
  note arm = internal_schedule [OF assms(1) this, of t]
  show thesis
  proof (cases "tl_is_valid t")
    case True
    then show thesis
      using Cons e(1) arm assms(2)
      by (intro that [of "t\<lparr>tl_timer := Some (tl_timer_value (e - now))\<rparr>"])
        (auto simp: tl_rearm_def tl_is_valid_def time_inv_def due_later_def)
  next
    case False
    then show thesis
      using Cons assms(2) by (intro that [of t])
        (simp_all add: tl_rearm_def tl_is_valid_def time_inv_def due_later_def)
  qed
qed

section \<open>Properties\<close>

text \<open>
  C32. The handler of an expired timer: the callback runs exactly once for every event that is due,
  each of them removed before the first callback; what the callbacks schedule stays queued; and afterwards,
  unless nothing is queued or the listener was closed, the timer is armed for exactly the time from
  the wake-up to the earliest event, so that no event is forgotten.  The callbacks may schedule,
  unschedule and close.
\<close>

theorem time_events_fire:
  assumes "settime_ok settime" and "time_inv t" and "\<forall>u. time_ops settime now u (cb u)"
  shows "\<exists>t'. tl_on_read_ready settime cb (Some 1) now t = (Inr (), t') \<and> time_inv t' \<and>
    (let u = (cb ^^ length (filter (\<lambda>e. e \<le> now) (tl_events t)))
       (t\<lparr>tl_events := filter (\<lambda>e. now < e) (tl_events t), tl_timer := None\<rparr>)
     in tl_events t' = tl_events u \<and> tl_fd t' = tl_fd u \<and>
        (tl_is_valid u \<and> tl_events u \<noteq> [] \<longrightarrow>
         tl_timer t' = Some (tl_timer_value (hd (tl_events u) - now))))"
proof -
  let ?n = "length (filter (\<lambda>e. e \<le> now) (tl_events t))"
  let ?t = "t\<lparr>tl_events := filter (\<lambda>e. now < e) (tl_events t), tl_timer := None\<rparr>"
  have ok: "events_ok (tl_events t)" using assms(2) by (simp add: time_inv_def)
  then have "due_later now ?t" by (auto simp: due_later_def events_ok_def intro: sorted_wrt_filter)
  then have u: "due_later now ((cb ^^ ?n) ?t)" by (rule callbacks_due_later [OF assms(3)])
  have eq: "tl_on_read_ready settime cb (Some 1) now t = tl_rearm settime now ((cb ^^ ?n) ?t)"
    using ok take_due [of "tl_events t" now 0] by (simp add: tl_on_read_ready_def events_ok_def)
  show ?thesis
    by (rule rearm [OF assms(1) u]) (auto simp: eq Let_def)
qed

theorem time_events_fire_witness:
  "\<exists>t'. tl_on_read_ready (\<lambda>_. 0) (\<lambda>u. snd (tl_schedule (\<lambda>_. 0) 50 7 u)) (Some 1) 50
      \<lparr>tl_fileno = 4, tl_fd = 4, tl_events = [10, 50, 60], tl_timer = Some (tl_timer_value 1), tl_calls = []\<rparr> =
      (Inr (), t') \<and> time_inv t'"
proof -
  have cb: "\<forall>u. time_ops (\<lambda>_. 0) 50 u (snd (tl_schedule (\<lambda>_. 0) 50 7 u))"
    using schedule [OF start, of 50 50 7 "\<lambda>_. 0"] by simp
  show ?thesis
    using time_events_fire [OF _ _ cb, of
      "\<lparr>tl_fileno = 4, tl_fd = 4, tl_events = [10, 50, 60], tl_timer = Some (tl_timer_value 1), tl_calls = []\<rparr>"]
    by (auto simp: settime_ok_def time_inv_def events_ok_def)
qed

text \<open>
  \<open>schedule\<close> on a valid listener puts the due time in its place in the queue and succeeds; the
  timer is armed for the delay when the new event is the earliest, and otherwise keeps running for
  the event that is; in both cases the invariant holds, so some event will wake the listener.
\<close>

theorem time_schedule_arms:
  assumes "settime_ok settime" and "time_inv t" and "tl_is_valid t" and "unat now + unat delay < 2 ^ 63"
  shows "\<exists>t'. tl_schedule settime now delay t = (True, t') \<and> time_inv t' \<and>
    tl_events t' = insort (now + delay) (tl_events t) \<and>
    (if hd (tl_events t') = now + delay \<and> now + delay \<notin> set (tl_events t)
     then timer_ns (the (tl_timer t')) = max 1 (int (unat delay) * 1000000)
     else tl_timer t' = tl_timer t)"
proof (rule tl_schedule [OF assms])
  fix t'
  assume t': "tl_schedule settime now delay t = (True, t')" "time_inv t'"
    "tl_events t' = insort (now + delay) (tl_events t)"
    "tl_timer t' = (if tl_events t = [] \<or> now + delay < hd (tl_events t)
       then Some (tl_timer_value delay) else tl_timer t)"
  have "sorted (tl_events t)" using assms(2) by (simp add: time_inv_def events_ok_def)
  then have first: "hd (tl_events t') = now + delay \<and> now + delay \<notin> set (tl_events t) \<longleftrightarrow>
      tl_events t = [] \<or> now + delay < hd (tl_events t)"
    unfolding t'(3) by (cases "tl_events t") auto
  have "unat delay < 2 ^ 63" using assms(4) by simp
  moreover have "(if n = 0 then 1 else int n * 1000000) = max 1 (int n * 1000000)" for n
    by (cases n) simp_all
  ultimately have "timer_ns (tl_timer_value delay) = max 1 (int (unat delay) * 1000000)"
    using timer_value(1) [of delay] unfolding unat_eq_zero [symmetric] by (simp only:)
  then show ?thesis using t' first by (intro exI [of _ t']) simp
qed

theorem time_schedule_arms_witness:
  "\<exists>t'. tl_schedule (\<lambda>_. 0) 50 7 (tl_new 4) = (True, t') \<and> time_inv t' \<and> tl_events t' = [57]"
  using time_schedule_arms [of "\<lambda>_. 0" "tl_new 4" 50 7]
  by (auto simp: settime_ok_def time_inv_def events_ok_def tl_new_def tl_is_valid_def)

text \<open>
  A callback that schedules an event whose due time lies before the wake-up, because the sum of
  clock and delay wraps around or the real-time clock was set back, takes the process down when the
  handler re-arms its timer.
\<close>

lemma time_schedule_past_aborts:
  assumes "tl_events t = [e]" and "e \<le> now" and "tl_is_valid t" and "now' + delay < now"
  shows "fst (tl_on_read_ready settime (\<lambda>u. snd (tl_schedule settime now' delay u)) (Some 1) now t) =
    Inl (Fatal ''Invalid state'')"
  using assms
  by (auto simp: tl_on_read_ready_def tl_schedule_def tl_internal_schedule_def tl_rearm_def Let_def tl_is_valid_def)

end
