(* ===== verification/Event_Loop.thy ===== *)
theory Event_Loop
  imports Event_Listener "HOL-Library.AList"
begin

text \<open>
  \<open>EventLoop\<close> (\<open>include/yael/EventLoop.h\<close>, \<open>src/EventLoop.cpp\<close>): the table of registered listeners,
  what the loop asks of \<open>epoll\<close>, the semaphore that ends the worker threads, and the steps of a
  worker thread.

  The table is an association list with distinct keys; no statement depends on its order, which for
  an \<open>unordered_map\<close> is not specified.  Listeners are objects of a type \<open>'l\<close>; their
  handlers are arguments of the operations that call them and answer with the calls they make back
  to the loop.  The answers of \<open>epoll_ctl\<close> only reach the log, so its calls are recorded in order.  The
  counter of the \<open>eventfd\<close> is part of the state, with the semantics of its manual page.
\<close>

section \<open>State\<close>

definition EPOLLIN :: u32 where "EPOLLIN = 0x1"
definition EPOLLOUT :: u32 where "EPOLLOUT = 0x4"
definition EPOLLERR :: u32 where "EPOLLERR = 0x8"
definition EPOLLRDHUP :: u32 where "EPOLLRDHUP = 0x2000"
definition EPOLLONESHOT :: u32 where "EPOLLONESHOT = 0x40000000"
definition EPOLLET :: u32 where "EPOLLET = 0x80000000"

lemmas epoll_flag_defs = EPOLLIN_def EPOLLOUT_def EPOLLERR_def EPOLLRDHUP_def EPOLLONESHOT_def EPOLLET_def

definition BASE_EPOLL_FLAGS :: u32 where
  "BASE_EPOLL_FLAGS = EPOLLERR OR EPOLLRDHUP OR EPOLLONESHOT"

datatype epoll_op = CtlAdd u32 | CtlMod u32 | CtlDel

datatype EventType = TypeNone | TypeRead | TypeWrite | TypeReadWrite | TypeError

record 'l event_loop =
  el_okay :: bool
  el_listeners :: "(int \<times> 'l) list"
  el_semaphore :: int
  el_semaphore_count :: nat
  el_epoll :: "(int \<times> epoll_op) list"
  el_num_threads :: int
  el_threads :: int    \<comment> \<open>the threads in \<open>m_threads\<close> that have not been joined\<close>

fun get_flags :: "Mode \<Rightarrow> u32" where
  "get_flags ReadOnly = EPOLLIN OR BASE_EPOLL_FLAGS"
| "get_flags ReadWrite = EPOLLIN OR EPOLLOUT OR BASE_EPOLL_FLAGS"

section \<open>Registration\<close>

definition el_register_socket :: "int \<Rightarrow> u32 \<Rightarrow> bool \<Rightarrow> 'l event_loop \<Rightarrow> 'l event_loop" where
  "el_register_socket fileno flags modify s =
     s\<lparr>el_epoll := el_epoll s @ [(fileno, if modify then CtlMod flags else CtlAdd flags)]\<rparr>"

definition el_new :: "int \<Rightarrow> int \<Rightarrow> int \<Rightarrow> error + 'l event_loop" where
  "el_new epoll_fd semaphore num_threads =
     (if epoll_fd < 0 then Inl (Fatal ''epoll_create1() failed'')
      else Inr (el_register_socket semaphore (EPOLLIN OR EPOLLET) False
        \<lparr>el_okay = True, el_listeners = [], el_semaphore = semaphore, el_semaphore_count = 0,
         el_epoll = [], el_num_threads = num_threads, el_threads = 0\<rparr>))"

definition el_notify_listener_mode_change :: "int \<Rightarrow> Mode \<Rightarrow> bool \<Rightarrow> 'l event_loop \<Rightarrow> 'l event_loop" where
  "el_notify_listener_mode_change fileno mode first_time s =
     (let flags = get_flags mode in
      case map_of (el_listeners s) fileno of
        None \<Rightarrow> s
      | Some _ \<Rightarrow> el_register_socket fileno flags (\<not> first_time) s)"

definition el_unregister_event_listener :: "int \<Rightarrow> 'l event_loop \<Rightarrow> 'l event_loop" where
  "el_unregister_event_listener fileno s =
     (case map_of (el_listeners s) fileno of
        None \<Rightarrow> s
      | Some _ \<Rightarrow>
        s\<lparr>el_epoll := el_epoll s @ [(fileno, CtlDel)],
          el_listeners := AList.delete fileno (el_listeners s)\<rparr>)"

fun el_call :: "loop_call \<Rightarrow> 'l event_loop \<Rightarrow> 'l event_loop" where
  "el_call (NotifyModeChange fileno mode first_time) s = el_notify_listener_mode_change fileno mode first_time s"
| "el_call (Unregister fileno) s = el_unregister_event_listener fileno s"

definition el_calls :: "loop_call list \<Rightarrow> 'l event_loop \<Rightarrow> 'l event_loop" where
  "el_calls cs s = fold el_call cs s"

text \<open>
  \<open>register_event_listener\<close>: \<open>None\<close> is a thread that waits because the descriptor is still in use.
  The argument \<open>re_register\<close> is what \<open>listener->re_register(true)\<close> calls.
\<close>

definition el_register_event_listener ::
    "int \<Rightarrow> 'l \<Rightarrow> loop_call list \<Rightarrow> 'l event_loop \<Rightarrow> 'l event_loop option" where
  "el_register_event_listener idx listener re_register s =
     (case map_of (el_listeners s) idx of
        Some _ \<Rightarrow> None
      | None \<Rightarrow> Some (el_calls re_register (s\<lparr>el_listeners := el_listeners s @ [(idx, listener)]\<rparr>)))"

section \<open>Starting and stopping\<close>

definition el_increment_semaphore :: "'l event_loop \<Rightarrow> 'l event_loop" where
  "el_increment_semaphore s = s\<lparr>el_semaphore_count := el_semaphore_count s + 1\<rparr>"

definition el_decrement_semaphore :: "'l event_loop \<Rightarrow> ('l event_loop, unit) outcome" where
  "el_decrement_semaphore s =
     (if el_semaphore_count s = 0 then (Inl (Fatal ''Invalid state''), s)
      else (Inr (), s\<lparr>el_semaphore_count := el_semaphore_count s - 1\<rparr>))"

text \<open>\<open>run\<close> creates the threads and \<open>wait\<close> joins them; what they do is \<open>thread_loop\<close>.\<close>

definition el_run_threads :: "int \<Rightarrow> int \<Rightarrow> error + int" where
  "el_run_threads hardware_concurrency num_threads =
     (if num_threads \<le> 0 then
        let num_threads = 2 * hardware_concurrency in
        if num_threads \<le> 0 then Inl (Fatal ''Could not detect number of hardware threads supported!'')
        else Inr num_threads
      else Inr num_threads)"

definition el_run :: "int \<Rightarrow> 'l event_loop \<Rightarrow> error + 'l event_loop" where
  "el_run hardware_concurrency s =
     (case el_run_threads hardware_concurrency (el_num_threads s) of
        Inl e \<Rightarrow> Inl e
      | Inr n \<Rightarrow> Inr (s\<lparr>el_threads := el_threads s + n\<rparr>))"

definition el_wait :: "'l event_loop \<Rightarrow> 'l event_loop" where
  "el_wait s = s\<lparr>el_threads := 0\<rparr>"

text \<open>
  The singleton: the instance or none.  Deleting an instance destroys its threads, which terminates the process
  when one of them has not been joined.
\<close>

definition el_is_initialized :: "'l event_loop option \<Rightarrow> bool" where
  "el_is_initialized inst \<longleftrightarrow> inst \<noteq> None"

definition el_get_instance :: "'l event_loop option \<Rightarrow> error + 'l event_loop" where
  "el_get_instance inst =
     (case inst of None \<Rightarrow> Inl (RuntimeError ''Event loop not initialized (yet)!'') | Some s \<Rightarrow> Inr s)"

definition el_initialize ::
    "int \<Rightarrow> int \<Rightarrow> int \<Rightarrow> int \<Rightarrow> 'l event_loop option \<Rightarrow> error + 'l event_loop option" where
  "el_initialize epoll_fd semaphore hardware_concurrency num_threads inst =
     (case inst of
        Some s \<Rightarrow> Inr (Some s)
      | None \<Rightarrow>
        (case el_new epoll_fd semaphore num_threads of
           Inl e \<Rightarrow> Inl e
         | Inr s \<Rightarrow> map_sum id Some (el_run hardware_concurrency s)))"

definition el_destroy :: "'l event_loop option \<Rightarrow> error + 'l event_loop option" where
  "el_destroy inst =
     (case inst of
        None \<Rightarrow> Inl (Fatal ''Cannot destroy event loop: instance does not exist'')
      | Some s \<Rightarrow>
        if el_okay s then Inl (Fatal ''Cannot stop event loop: has to be stopped first!'')
        else if el_threads s \<noteq> 0 then Inl (Fatal ''std::terminate'')
        else Inr None)"

text \<open>
  The first loop of \<open>stop\<close>: \<open>close_socket\<close> of a listener changes the listeners' own state, of type
  \<open>'e\<close>, and makes calls to the loop, or ends the process.  The second loop waits for the same
  condition, which then holds.
\<close>

partial_function (option) el_close_all ::
    "('l \<Rightarrow> 'e \<Rightarrow> ('e, loop_call list) outcome) \<Rightarrow> 'l event_loop \<times> 'e \<Rightarrow>
     ('l event_loop \<times> 'e, unit) outcome option" where
  "el_close_all close_socket se =
     (case el_listeners (fst se) of
        [] \<Rightarrow> Some (Inr (), se)
      | (_, listener) # _ \<Rightarrow>
        (case close_socket listener (snd se) of
           (Inl err, e) \<Rightarrow> Some (Inl err, (fst se, e))
         | (Inr cs, e) \<Rightarrow> el_close_all close_socket (el_calls cs (fst se), e)))"

definition el_stop ::
    "('l \<Rightarrow> 'e \<Rightarrow> ('e, loop_call list) outcome) \<Rightarrow> 'l event_loop \<times> 'e \<Rightarrow>
     ('l event_loop \<times> 'e, unit) outcome option" where
  "el_stop close_socket se =
     (if \<not> el_okay (fst se) then Some (Inr (), se)
      else map_option (\<lambda>(r, s, e). (r, if r = Inr () then el_increment_semaphore s else s, e))
        (el_close_all close_socket (map_prod (el_okay_update (\<lambda>_. False)) id se)))"

section \<open>The worker threads\<close>

text \<open>One return of \<open>epoll_wait\<close>: an error or one event.\<close>

datatype wait_res = WaitErr | WaitEvent int u32

definition event_type :: "u32 \<Rightarrow> EventType option" where
  "event_type flags =
     (let has_read = flags AND EPOLLIN \<noteq> 0;
          has_write = flags AND EPOLLOUT \<noteq> 0;
          has_error = flags AND EPOLLERR \<noteq> 0
      in if has_read \<and> has_write then Some TypeReadWrite
         else if has_read then Some TypeRead
         else if has_write then Some TypeWrite
         else if has_error then Some TypeError
         else None)"

text \<open>
  \<open>update\<close>.  Each return of \<open>epoll_wait\<close> comes with whether another thread has stopped the loop in
  the meantime.  \<open>None\<close> is a thread that still waits.  An error of \<open>epoll_wait\<close> is retried as long as
  the loop is okay, so that the code after the loop sees an error only when the loop was stopped.
\<close>

fun el_update :: "(wait_res \<times> bool) list \<Rightarrow> 'l event_loop \<Rightarrow>
    ('l event_loop, 'l option \<times> EventType) outcome option" where
  "el_update obs s =
     (if \<not> el_okay s then Some (Inr (None, TypeNone), el_increment_semaphore s)
      else case obs of
        [] \<Rightarrow> None
      | (w, stopped) # obs \<Rightarrow>
        let s = (if stopped then s\<lparr>el_okay := False\<rparr> else s) in
        (case w of
           WaitErr \<Rightarrow> el_update obs s
         | WaitEvent fd flags \<Rightarrow>
           if fd = el_semaphore s then
             (case el_decrement_semaphore s of
                (Inl e, s) \<Rightarrow> Some (Inl e, s)
              | (Inr _, s) \<Rightarrow>
                if el_okay s then el_update obs s
                else Some (Inr (None, TypeNone), el_increment_semaphore s))
           else
             (case event_type flags of
                None \<Rightarrow> Some (Inl (Fatal ''Invalid event flag''), s)
              | Some type \<Rightarrow> Some (Inr (map_of (el_listeners s) fd, type), s))))"

declare el_update.simps [simp del]

text \<open>
  The body of the loop of \<open>thread_loop\<close>: \<open>False\<close> when the thread ends.  The argument \<open>h\<close> is the
  handlers of the listeners and their \<open>re_register(false)\<close>; a handler may not return, and an exception that
  leaves it ends the thread.
\<close>

datatype handler = OnRead | OnWrite | OnError | ReRegister

fun el_handlers :: "EventType \<Rightarrow> handler list" where
  "el_handlers TypeReadWrite = [OnRead, OnWrite]"
| "el_handlers TypeRead = [OnRead]"
| "el_handlers TypeWrite = [OnWrite]"
| "el_handlers TypeError = [OnError]"
| "el_handlers TypeNone = []"

fun el_run_handlers :: "(handler \<Rightarrow> 'e \<Rightarrow> ('e, loop_call list) outcome option) \<Rightarrow> handler list \<Rightarrow>
    'l event_loop \<times> 'e \<Rightarrow> ('l event_loop \<times> 'e, bool) outcome option" where
  "el_run_handlers h [] se = Some (Inr True, se)"
| "el_run_handlers h (x # xs) se =
     (case h x (snd se) of
        None \<Rightarrow> None
      | Some (Inl err, e) \<Rightarrow> Some (Inl err, (fst se, e))
      | Some (Inr cs, e) \<Rightarrow> el_run_handlers h xs (el_calls cs (fst se), e))"

definition el_thread_step ::
    "('l \<Rightarrow> handler \<Rightarrow> 'e \<Rightarrow> ('e, loop_call list) outcome option) \<Rightarrow> (wait_res \<times> bool) list \<Rightarrow> 'l event_loop \<times> 'e \<Rightarrow>
     ('l event_loop \<times> 'e, bool) outcome option" where
  "el_thread_step h obs se =
     (if \<not> el_okay (fst se) then Some (Inr False, se)
      else case el_update obs (fst se) of
        None \<Rightarrow> None
      | Some (Inl e, s) \<Rightarrow> Some (Inl e, (s, snd se))
      | Some (Inr (None, type), s) \<Rightarrow> Some (Inr False, (s, snd se))
      | Some (Inr (Some listener, type), s) \<Rightarrow>
        if type = TypeNone then Some (Inl (Fatal ''Invalid event type!''), (s, snd se))
        else el_run_handlers (h listener) (el_handlers type @ [ReRegister]) (s, snd se))"

section \<open>The table and the interest set of \<open>epoll\<close>\<close>

text \<open>Which descriptors \<open>epoll\<close> watches after a sequence of calls.\<close>

fun epoll_step :: "int \<times> epoll_op \<Rightarrow> int set \<Rightarrow> int set" where
  "epoll_step (fd, CtlAdd f) W = insert fd W"
| "epoll_step (fd, CtlMod f) W = W"
| "epoll_step (fd, CtlDel) W = W - {fd}"

definition epoll_watched :: "(int \<times> epoll_op) list \<Rightarrow> int set" where
  "epoll_watched cs = fold epoll_step cs {}"

lemma epoll_watched_snoc [simp]: "epoll_watched (cs @ [c]) = epoll_step c (epoll_watched cs)"
  by (simp add: epoll_watched_def)

text \<open>
  Descriptors are registered at most once, and everything that \<open>epoll\<close> watches, apart from the
  semaphore, belongs to a registered listener.
\<close>

definition el_inv :: "'l event_loop \<Rightarrow> bool" where
  "el_inv s \<longleftrightarrow> distinct (map fst (el_listeners s)) \<and>
     epoll_watched (el_epoll s) \<subseteq> insert (el_semaphore s) (fst ` set (el_listeners s))"

lemma el_inv_new: "el_new epoll_fd semaphore n = Inr s \<Longrightarrow> el_inv s"
  by (auto simp: el_new_def el_register_socket_def el_inv_def epoll_watched_def split: if_splits)

lemma map_of_delete: "map_of (AList.delete k xs) = (map_of xs)(k := None)"
  by (rule ext) (simp add: delete_conv)

lemma keys_delete: "fst ` set (AList.delete k xs) = fst ` set xs - {k}"
  using arg_cong [OF delete_keys [of k xs], of set] by simp

lemma el_call_simps [simp]:
  "el_okay (el_call c s) = el_okay s" "el_semaphore (el_call c s) = el_semaphore s"
  "el_semaphore_count (el_call c s) = el_semaphore_count s"
  by (cases c; simp add: el_notify_listener_mode_change_def el_register_socket_def
      el_unregister_event_listener_def Let_def split: option.split)+

lemma el_call_inv: "el_inv s \<Longrightarrow> el_inv (el_call c s)"
proof (cases c)
  case (NotifyModeChange fileno mode first_time)
  then show "el_inv s \<Longrightarrow> el_inv (el_call c s)"
    by (auto simp: el_inv_def el_notify_listener_mode_change_def el_register_socket_def Let_def
        dest!: map_of_SomeD intro: rev_image_eqI split: option.split)
next
  case (Unregister fileno)
  then show "el_inv s \<Longrightarrow> el_inv (el_call c s)"
    by (auto simp: el_inv_def el_unregister_event_listener_def distinct_delete keys_delete split: option.split)
qed

lemma el_calls_inv: "el_inv s \<Longrightarrow> el_inv (el_calls cs s)"
  unfolding el_calls_def by (induction cs arbitrary: s) (simp_all add: el_call_inv)

lemma el_calls_simps [simp]:
  "el_okay (el_calls cs s) = el_okay s" "el_semaphore (el_calls cs s) = el_semaphore s"
  "el_semaphore_count (el_calls cs s) = el_semaphore_count s" "el_calls [] s = s"
  "el_calls (c # cs) s = el_calls cs (el_call c s)"
proof -
  show "el_okay (el_calls cs s) = el_okay s" "el_semaphore (el_calls cs s) = el_semaphore s"
    "el_semaphore_count (el_calls cs s) = el_semaphore_count s"
    unfolding el_calls_def by (induction cs arbitrary: s) simp_all
qed (simp_all add: el_calls_def)

lemma el_unregister:
  assumes "el_inv s" and "map_of (el_listeners s) fd = Some l"
  shows "map_of (el_listeners (el_unregister_event_listener fd s)) = (map_of (el_listeners s))(fd := None)"
    and "fd \<noteq> el_semaphore s \<Longrightarrow> fd \<notin> epoll_watched (el_epoll (el_unregister_event_listener fd s))"
  using assms by (simp_all add: el_unregister_event_listener_def map_of_delete)

lemma el_register:
  fixes l :: 'l
  assumes "el_inv s" and "map_of (el_listeners s) fd = None"
  defines "s' \<equiv> s\<lparr>el_listeners := el_listeners s @ [(fd, l)]\<rparr>"
  shows "el_inv s'" and "map_of (el_listeners s') = (map_of (el_listeners s))(fd \<mapsto> l)"
proof -
  have "fd \<notin> fst ` set (el_listeners s)" using assms(2) by (simp add: map_of_eq_None_iff)
  then show "el_inv s'" using assms(1) by (auto simp: el_inv_def s'_def)
  show "map_of (el_listeners s') = (map_of (el_listeners s))(fd \<mapsto> l)"
    using assms(2) by (auto simp: s'_def map_add_def fun_eq_iff split: option.split)
qed

section \<open>Stopping\<close>

text \<open>
  The contract that \<open>stop\<close> relies on: closing a live listener closes and unregisters it, or brings it one
  step closer to that, and does not concern the other listeners.
\<close>

locale closable =
  fixes close_socket :: "'l \<Rightarrow> 'e \<Rightarrow> ('e, loop_call list) outcome"
    and fileno :: "'l \<Rightarrow> 'e \<Rightarrow> int"
    and alive :: "'l \<Rightarrow> 'e \<Rightarrow> bool"
    and closed :: "'l \<Rightarrow> 'e \<Rightarrow> bool"
    and left :: "'l \<Rightarrow> 'e \<Rightarrow> nat"
  assumes close_step: "alive l e \<Longrightarrow> \<exists>cs e'. close_socket l e = (Inr cs, e') \<and>
      (cs = [Unregister (fileno l e)] \<and> closed l e' \<or>
       cs = [] \<and> alive l e' \<and> fileno l e' = fileno l e \<and> left l e' < left l e)"
    and close_other: "close_socket l e = (r, e') \<Longrightarrow> l' \<noteq> l \<Longrightarrow>
      alive l' e' = alive l' e \<and> closed l' e' = closed l' e \<and> fileno l' e' = fileno l' e \<and> left l' e' = left l' e"
begin

definition registered :: "(int \<times> 'l) list \<Rightarrow> 'e \<Rightarrow> bool" where
  "registered ls e \<longleftrightarrow> distinct (map fst ls) \<and> (\<forall>(k, l) \<in> set ls. alive l e \<and> fileno l e = k)"

definition work :: "(int \<times> 'l) list \<Rightarrow> 'e \<Rightarrow> nat" where
  "work ls e = sum_list (map (\<lambda>(k, l). Suc (left l e)) ls)"

definition accounted :: "'l \<Rightarrow> (int \<times> 'l) list \<Rightarrow> 'e \<Rightarrow> bool" where
  "accounted l ls e \<longleftrightarrow> closed l e \<or> l \<in> snd ` set ls"

lemma others_kept:
  assumes "close_socket l e = (r, e')" and "registered ((k, l) # ls) e"
  shows "registered ls e'" and "work ls e' = work ls e"
proof -
  have l: "l' \<noteq> l" if "(k', l') \<in> set ls" for k' l'
    using assms(2) that unfolding registered_def by (force simp: rev_image_eqI)
  show "registered ls e'"
    using assms(2) close_other [OF assms(1)] l unfolding registered_def by fastforce
  have "left l' e' = left l' e" if "(k', l') \<in> set ls" for k' l'
    using close_other [OF assms(1)] l [OF that] by blast
  then show "work ls e' = work ls e"
    unfolding work_def by (intro arg_cong [of _ _ sum_list] map_cong) auto
qed

lemma close_all_step:
  assumes "el_listeners s = (k, l) # ls" and "registered (el_listeners s) e"
  obtains cs e' where "close_socket l e = (Inr cs, e')" "registered (el_listeners (el_calls cs s)) e'"
    "work (el_listeners (el_calls cs s)) e' < work (el_listeners s) e"
    "\<And>l. accounted l (el_listeners s) e \<Longrightarrow> accounted l (el_listeners (el_calls cs s)) e'"
proof -
  have al: "alive l e" "fileno l e = k" and reg: "registered ((k, l) # ls) e"
    using assms by (auto simp: registered_def)
  obtain cs e' where c: "close_socket l e = (Inr cs, e')" and
    step: "cs = [Unregister (fileno l e)] \<and> closed l e' \<or>
      cs = [] \<and> alive l e' \<and> fileno l e' = fileno l e \<and> left l e' < left l e"
    using close_step [OF al(1)] by blast
  note oth = others_kept [OF c reg] close_other [OF c]
  have ls: "el_listeners (el_calls [Unregister (fileno l e)] s) = ls"
  proof -
    have "k \<notin> fst ` set ls" using reg by (simp add: registered_def)
    then show ?thesis using al assms(1) by (simp add: el_unregister_event_listener_def delete_idem)
  qed
  show thesis using step
  proof
    assume u: "cs = [Unregister (fileno l e)] \<and> closed l e'"
    show thesis
    proof (rule that [OF c])
      show "registered (el_listeners (el_calls cs s)) e'" using u ls oth by simp
      show "work (el_listeners (el_calls cs s)) e' < work (el_listeners s) e"
        using u ls oth assms(1) by (simp add: work_def)
      show "accounted l' (el_listeners (el_calls cs s)) e'" if "accounted l' (el_listeners s) e" for l'
        using u ls oth(3) [of l'] that assms(1) by (auto simp: accounted_def)
    qed
  next
    assume "cs = [] \<and> alive l e' \<and> fileno l e' = fileno l e \<and> left l e' < left l e"
    then show thesis
      using oth(1,2) oth(3) reg al assms(1)
      by (intro that [OF c]) (auto simp: work_def registered_def accounted_def)
  qed
qed

lemma close_all_total:
  assumes "registered (el_listeners s) e"
  shows "\<exists>s' e'. el_close_all close_socket (s, e) = Some (Inr (), s', e') \<and> el_listeners s' = [] \<and>
    el_okay s' = el_okay s \<and> el_semaphore_count s' = el_semaphore_count s \<and>
    (\<forall>l. accounted l (el_listeners s) e \<longrightarrow> closed l e')"
  using assms
proof (induction "work (el_listeners s) e" arbitrary: s e rule: less_induct)
  case less
  show ?case
  proof (cases "el_listeners s")
    case Nil
    then show ?thesis by (subst el_close_all.simps) (simp add: accounted_def)
  next
    case (Cons kl ls)
    obtain k l where kl: "kl = (k, l)" by force
    obtain cs e' where c: "close_socket l e = (Inr cs, e')" "registered (el_listeners (el_calls cs s)) e'"
      "work (el_listeners (el_calls cs s)) e' < work (el_listeners s) e"
      "\<And>l. accounted l (el_listeners s) e \<Longrightarrow> accounted l (el_listeners (el_calls cs s)) e'"
      using close_all_step [of s k l ls e] Cons kl less.prems by blast
    have "el_close_all close_socket (s, e) = el_close_all close_socket (el_calls cs s, e')"
      using Cons kl c(1) by (subst el_close_all.simps) simp
    then show ?thesis using less.hyps [OF c(3,2)] c(4) by auto
  qed
qed

lemma stop_total:
  assumes "registered (el_listeners s) e" and "el_okay s"
  shows "\<exists>s' e'. el_stop close_socket (s, e) = Some (Inr (), s', e') \<and> el_listeners s' = [] \<and>
    \<not> el_okay s' \<and> el_semaphore_count s' = el_semaphore_count s + 1 \<and>
    (\<forall>(k, l) \<in> set (el_listeners s). closed l e')"
  using close_all_total [of "s\<lparr>el_okay := False\<rparr>" e] assms
  by (force simp: el_stop_def el_increment_semaphore_def accounted_def)

end

text \<open>A first listener whose \<open>close_socket\<close> does nothing keeps \<open>stop\<close> from returning.\<close>

lemma close_all_spins:
  assumes "el_listeners s = (k, l) # ls" and "close_socket l e = (Inr [], e)"
  shows "el_close_all close_socket (s, e) = None"
proof (rule ccontr)
  assume "el_close_all close_socket (s, e) \<noteq> None"
  then obtain y where y: "el_close_all close_socket (s, e) = Some y" by blast
  have "close_socket l e = (Inr [], e) \<longrightarrow> (s, e) \<noteq> (s, e)"
    by (rule el_close_all.raw_induct [of "\<lambda>close_socket se y. close_socket l e = (Inr [], e) \<longrightarrow> se \<noteq> (s, e)", OF _ y])
      (use assms(1) in fastforce)
  then show False using assms(2) by simp
qed

section \<open>Ending the threads\<close>

lemma el_update_stopped:
  "\<not> el_okay s \<Longrightarrow> el_update obs s = Some (Inr (None, TypeNone), el_increment_semaphore s)"
  by (subst el_update.simps) simp

lemma el_update_wait: "el_okay s \<Longrightarrow> el_update [] s = None"
  by (subst el_update.simps) simp

lemma el_update_return:
  assumes "el_okay s"
  defines "s1 \<equiv> \<lambda>stopped. if stopped then s\<lparr>el_okay := False\<rparr> else s"
  shows "el_update ((WaitErr, stopped) # obs) s = el_update obs (s1 stopped)"
    and "fd \<noteq> el_semaphore s \<Longrightarrow> el_update ((WaitEvent fd flags, stopped) # obs) s =
      Some (case event_type flags of None \<Rightarrow> (Inl (Fatal ''Invalid event flag''), s1 stopped)
        | Some type \<Rightarrow> (Inr (map_of (el_listeners s) fd, type), s1 stopped))"
    and "el_semaphore_count s = 0 \<Longrightarrow> el_update ((WaitEvent (el_semaphore s) flags, stopped) # obs) s =
      Some (Inl (Fatal ''Invalid state''), s1 stopped)"
    and "0 < el_semaphore_count s \<Longrightarrow> el_update ((WaitEvent (el_semaphore s) flags, stopped) # obs) s =
      (if stopped then Some (Inr (None, TypeNone), s1 stopped)
       else el_update obs (s\<lparr>el_semaphore_count := el_semaphore_count s - 1\<rparr>))"
  using assms(1)
  by (subst el_update.simps, simp add: s1_def Let_def el_decrement_semaphore_def el_increment_semaphore_def
      split: option.split)+

lemma el_update_end:
  "el_update obs s = Some (Inr (None, TypeNone), s') \<Longrightarrow> \<not> el_okay s' \<and> 1 \<le> el_semaphore_count s'"
proof (induction obs arbitrary: s)
  case Nil
  then show ?case
    by (cases "el_okay s") (auto simp: el_update_wait el_update_stopped el_increment_semaphore_def)
next
  case (Cons ob obs)
  obtain w stopped where ob: "ob = (w, stopped)" by force
  consider "\<not> el_okay s" | "el_okay s" "w = WaitErr"
    | fd flags where "el_okay s" "w = WaitEvent fd flags" "fd \<noteq> el_semaphore s"
    | flags where "el_okay s" "w = WaitEvent (el_semaphore s) flags" "el_semaphore_count s = 0"
    | flags where "el_okay s" "w = WaitEvent (el_semaphore s) flags" "0 < el_semaphore_count s"
    by (cases w) auto
  then show ?case
  proof cases
    case 3
    then have "event_type flags = Some TypeNone" using Cons.prems ob
      by (simp add: el_update_return split: option.splits)
    then show ?thesis by (auto simp: event_type_def Let_def split: if_splits)
  qed (use Cons ob in \<open>auto simp: el_update_stopped el_increment_semaphore_def el_update_return split: if_splits\<close>)
qed

section \<open>Properties\<close>

text \<open>
  Registration: a listener that registers on a free descriptor and asks \<open>epoll\<close> for its events is
  found under its descriptor and watched, every other entry is unchanged, a second registration of the
  descriptor waits, and unregistering restores the table and takes the descriptor out of
  \<open>epoll\<close>.  The table's invariant holds throughout.
\<close>

theorem el_registration_roundtrip:
  assumes "el_inv s" and "fd \<noteq> el_semaphore s" and "map_of (el_listeners s) fd = None"
  shows "\<exists>s'. el_register_event_listener fd l [NotifyModeChange fd mode True] s = Some s' \<and> el_inv s' \<and>
    map_of (el_listeners s') = (map_of (el_listeners s))(fd \<mapsto> l) \<and> fd \<in> epoll_watched (el_epoll s') \<and>
    el_register_event_listener fd l' cs s' = None \<and>
    map_of (el_listeners (el_unregister_event_listener fd s')) = map_of (el_listeners s) \<and>
    fd \<notin> epoll_watched (el_epoll (el_unregister_event_listener fd s'))"
proof -
  let ?t = "s\<lparr>el_listeners := el_listeners s @ [(fd, l)]\<rparr>"
  let ?s = "el_calls [NotifyModeChange fd mode True] ?t"
  note t = el_register [OF assms(1,3), of l]
  have s: "el_inv ?s" using t(1) by (rule el_calls_inv)
  have tab: "el_listeners ?s = el_listeners ?t" and w: "fd \<in> epoll_watched (el_epoll ?s)"
    using t(2) by (simp_all add: el_notify_listener_mode_change_def el_register_socket_def Let_def)
  have look: "map_of (el_listeners ?s) fd = Some l" using t(2) unfolding tab by simp
  note u = el_unregister [OF s look]
  have "map_of (el_listeners (el_unregister_event_listener fd ?s)) = map_of (el_listeners s)"
    using u(1) t(2) assms(3) unfolding tab by (auto simp: fun_eq_iff)
  moreover have "fd \<notin> epoll_watched (el_epoll (el_unregister_event_listener fd ?s))"
    using assms(2) by (intro u(2)) (simp del: el_calls_simps(5))
  ultimately show ?thesis
    using s w look t(2) tab assms(3) by (intro exI [of _ ?s]) (simp add: el_register_event_listener_def)
qed

definition small_loop :: "nat event_loop" where
  "small_loop = \<lparr>el_okay = True, el_listeners = [(7, 1)], el_semaphore = 5, el_semaphore_count = 0,
     el_epoll = [(5, CtlAdd (EPOLLIN OR EPOLLET)), (7, CtlAdd (get_flags ReadOnly))], el_num_threads = 2, el_threads = 2\<rparr>"

lemma small_loop: "el_inv small_loop" "el_okay small_loop"
  by (simp_all add: small_loop_def el_inv_def epoll_watched_def)

theorem el_registration_roundtrip_witness:
  "\<exists>s'. el_register_event_listener 8 2 [NotifyModeChange 8 ReadOnly True] small_loop = Some s' \<and>
    map_of (el_listeners s') = (map_of (el_listeners small_loop))(8 \<mapsto> 2)"
  using el_registration_roundtrip [OF small_loop(1), of 8 2 ReadOnly 3 "[]"] by (auto simp: small_loop_def)

text \<open>
  The end of the worker threads: \<open>update\<close> tells a thread to end with no event only when the
  loop has been stopped, and always leaves the semaphore raised for the next thread; a thread that
  calls \<open>update\<close> after the stop ends at once; and a thread that waits in \<open>epoll_wait\<close> while the
  loop is stopped ends when the semaphore wakes it, without using the semaphore up.  So one wake-up
  by \<open>stop\<close> ends all threads.
\<close>

theorem el_shutdown_cascade:
  "(\<forall>s'. el_update obs s = Some (Inr (None, TypeNone), s') \<longrightarrow>
      \<not> el_okay s' \<and> 1 \<le> el_semaphore_count s') \<and>
   (\<not> el_okay s \<longrightarrow> el_update obs s = Some (Inr (None, TypeNone), el_increment_semaphore s)) \<and>
   (el_okay s \<longrightarrow> 0 < el_semaphore_count s \<longrightarrow>
      el_update ((WaitEvent (el_semaphore s) flags, True) # obs) s =
        Some (Inr (None, TypeNone), s\<lparr>el_okay := False\<rparr>))"
  using el_update_end [of obs s] by (auto simp: el_update_stopped el_update_return)

theorem el_shutdown_cascade_witness:
  "\<not> el_okay (small_loop\<lparr>el_okay := False\<rparr>) \<and>
   el_update [] (small_loop\<lparr>el_okay := False\<rparr>) =
     Some (Inr (None, TypeNone), el_increment_semaphore (small_loop\<lparr>el_okay := False\<rparr>))"
  using el_shutdown_cascade [of "[]" "small_loop\<lparr>el_okay := False\<rparr>" 0] by simp

text \<open>
  Dispatch: an event on a registered descriptor runs the handlers of the listener that is
  registered there, reading before writing, then its \<open>re_register\<close>, and the thread goes on; the
  process aborts only on an event that is neither readable, writable nor an error.
\<close>

theorem el_dispatch:
  assumes "el_okay s" and "fd \<noteq> el_semaphore s" and "map_of (el_listeners s) fd = Some l"
  shows "el_thread_step h [(WaitEvent fd flags, False)] (s, e) =
    (if flags AND (EPOLLIN OR EPOLLOUT OR EPOLLERR) = 0
     then Some (Inl (Fatal ''Invalid event flag''), (s, e))
     else el_run_handlers (h l)
        ((if flags AND EPOLLIN \<noteq> 0 then [OnRead] else []) @
         (if flags AND EPOLLOUT \<noteq> 0 then [OnWrite] else []) @
         (if flags AND (EPOLLIN OR EPOLLOUT) = 0 then [OnError] else []) @ [ReRegister]) (s, e))"
proof -
  have d: "flags AND (a OR b) = 0 \<longleftrightarrow> flags AND a = 0 \<and> flags AND b = 0" for a b :: u32
    by (auto simp: bit_eq_iff bit_simps)
  show ?thesis
    using assms
    by (simp add: el_thread_step_def el_update_return event_type_def Let_def d del: el_run_handlers.simps)
qed

theorem el_dispatch_witness:
  "el_thread_step (\<lambda>l x e. Some (Inr [], (l, x) # e)) [(WaitEvent 7 5, False)] (small_loop, []) =
    Some (Inr True, (small_loop, [(1, ReRegister), (1, OnWrite), (1, OnRead)]))"
  using el_dispatch [OF small_loop(2), of 7 1 "\<lambda>l x e. Some (Inr [], (l, x) # e)" 5 "[]"]
  by (simp add: small_loop_def epoll_flag_defs)

text \<open>
  An event for a descriptor that is no longer registered ends the worker thread that receives
  it, although the loop is still running: \<open>thread_loop\<close> takes the null listener for the end of the loop.
\<close>

theorem el_unknown_listener_ends_thread:
  assumes "el_okay s" and "fd \<noteq> el_semaphore s" and "map_of (el_listeners s) fd = None"
    and "flags AND EPOLLIN \<noteq> 0"
  shows "el_thread_step h [(WaitEvent fd flags, False)] (s, e) = Some (Inr False, (s, e))"
  using assms by (simp add: el_thread_step_def el_update_return event_type_def Let_def)

theorem el_unknown_listener_ends_thread_witness:
  "el_thread_step (\<lambda>l x e. Some (Inr [], e)) [(WaitEvent 9 1, False)] (small_loop, ()) = Some (Inr False, (small_loop, ()))"
  by (rule el_unknown_listener_ends_thread) (simp_all add: small_loop_def epoll_flag_defs)

text \<open>
  \<open>initialize\<close> gives a running loop, on valid descriptors and with a positive number of threads; \<open>destroy\<close> succeeds exactly on
  a loop that has been stopped and whose threads have been joined by \<open>wait\<close>, and a second call aborts the process.
\<close>

theorem el_destroy_once:
  "(el_destroy inst = Inr None \<longleftrightarrow> (\<exists>s. inst = Some s \<and> \<not> el_okay s \<and> el_threads s = 0)) \<and>
   el_destroy (projr (el_destroy (Some (el_wait (small_loop\<lparr>el_okay := False\<rparr>))))) =
     Inl (Fatal ''Cannot destroy event loop: instance does not exist'')"
  by (auto simp: el_destroy_def el_wait_def small_loop_def split: option.split)

lemma el_initialize_running:
  assumes "0 \<le> epoll_fd" and "0 < n"
  obtains s where "el_initialize epoll_fd semaphore hardware_concurrency n None = Inr (Some s)" "el_okay s"
    "el_threads s = n" "el_destroy (Some (el_wait (s\<lparr>el_okay := False\<rparr>))) = Inr None"
  using assms
  by (simp add: el_initialize_def el_new_def el_run_def el_run_threads_def el_register_socket_def el_destroy_def el_wait_def)

text \<open>A loop that has been stopped but not waited for cannot be destroyed.\<close>

lemma el_destroy_needs_wait:
  assumes "el_threads s \<noteq> 0" and "\<not> el_okay s"
  shows "el_destroy (Some s) = Inl (Fatal ''std::terminate'')"
  using assms by (simp add: el_destroy_def)

end
