(* ===== verification/Listeners.thy ===== *)
theory Listeners
  imports Network_Listener Time_Listener Event_Loop
begin

text \<open>
  The event loop with its own listeners: timers (\<open>TimeEventListener\<close>) and sockets
  (\<open>NetworkSocketListener\<close>).  A listener is a reference into the store of listener objects;
  \<open>listener_close\<close> and \<open>listener_handler\<close> are the virtual methods of \<open>EventListener\<close> that the loop
  calls, dispatched on the class of the object.  The calls of the objects back to the loop are those that
  the method has added to their lists.
\<close>

section \<open>Dispatch\<close>

datatype listener = TimerListener nat | SocketListener nat

record listener_store =
  timers :: "nat \<Rightarrow> time_listener"
  sockets :: "nat \<Rightarrow> net_listener"

definition store_timer :: "listener_store \<Rightarrow> nat \<Rightarrow> error + 'a \<Rightarrow> time_listener \<Rightarrow>
    (listener_store, loop_call list) outcome" where
  "store_timer e i r t =
     (case r of Inl err \<Rightarrow> Inl err | Inr _ \<Rightarrow> Inr (drop (length (tl_calls (timers e i))) (tl_calls t)),
      e\<lparr>timers := (timers e)(i := t)\<rparr>)"

definition store_socket :: "listener_store \<Rightarrow> nat \<Rightarrow> error + 'a \<Rightarrow> net_listener \<Rightarrow>
    (listener_store, loop_call list) outcome" where
  "store_socket e i r l =
     (case r of Inl err \<Rightarrow> Inl err | Inr _ \<Rightarrow> Inr (drop (length (nl_calls (sockets e i))) (nl_calls l)),
      e\<lparr>sockets := (sockets e)(i := l)\<rparr>)"

fun listener_close :: "os \<Rightarrow> app \<Rightarrow> listener \<Rightarrow> listener_store \<Rightarrow> (listener_store, loop_call list) outcome" where
  "listener_close os app (TimerListener i) e = store_timer e i (Inr ()) (tl_close_socket True (timers e i))"
| "listener_close os app (SocketListener i) e =
     (case nl_close_socket os app True (sockets e i) of (r, l) \<Rightarrow> store_socket e i r l)"

text \<open>
  \<open>timer_read\<close> is what the timer's \<open>read\<close> and the clock return, \<open>settime\<close> the answer of
  \<open>timerfd_settime\<close>, \<open>on_time_event\<close> the application's callback.  \<open>on_write_ready\<close> of a timer is empty.
\<close>

fun listener_handler ::
    "os \<Rightarrow> inet \<Rightarrow> app \<Rightarrow> (itimerspec \<Rightarrow> int) \<Rightarrow> (time_listener \<Rightarrow> time_listener) \<Rightarrow> u64 option \<times> u64 \<Rightarrow>
     listener \<Rightarrow> handler \<Rightarrow> listener_store \<Rightarrow> (listener_store, loop_call list) outcome option" where
  "listener_handler os net app settime on_time_event timer_read (TimerListener i) x e =
     Some (case x of
        OnRead \<Rightarrow>
          (case tl_on_read_ready settime on_time_event (fst timer_read) (snd timer_read) (timers e i) of
             (r, t) \<Rightarrow> store_timer e i r t)
      | OnWrite \<Rightarrow> store_timer e i (Inr ()) (timers e i)
      | OnError \<Rightarrow> store_timer e i (Inr ()) (tl_on_error True (timers e i))
      | ReRegister \<Rightarrow> store_timer e i (Inr ()) (tl_re_register False (timers e i)))"
| "listener_handler os net app settime on_time_event timer_read (SocketListener i) x e =
     (case x of
        OnRead \<Rightarrow> map_option (\<lambda>(r, l). store_socket e i r l) (nl_on_read_ready os net app True (sockets e i))
      | OnWrite \<Rightarrow> map_option (\<lambda>(r, l). store_socket e i r l) (nl_on_write_ready os (nl_close_socket os app True) (sockets e i))
      | OnError \<Rightarrow> Some (case nl_on_error (nl_close_socket os app True) (sockets e i) of (r, l) \<Rightarrow> store_socket e i r l)
      | ReRegister \<Rightarrow> Some (case nl_re_register False (sockets e i) of (r, l) \<Rightarrow> store_socket e i r l))"

section \<open>Stopping the loop\<close>

text \<open>
  What \<open>stop\<close> needs of a registered listener: a timer that is open; a socket listener that has not
  announced its disconnect yet.  A connected socket needs two calls: the first one shuts down the
  sending side, the second one closes.
\<close>

fun listener_fileno :: "listener \<Rightarrow> listener_store \<Rightarrow> int" where
  "listener_fileno (TimerListener i) e = tl_get_fileno (timers e i)"
| "listener_fileno (SocketListener i) e = nl_get_fileno (sockets e i)"

fun listener_alive :: "os \<Rightarrow> listener \<Rightarrow> listener_store \<Rightarrow> bool" where
  "listener_alive os (TimerListener i) e \<longleftrightarrow> tl_is_valid (timers e i)"
| "listener_alive os (SocketListener i) e \<longleftrightarrow> shutdown_ok os \<and> \<not> nl_has_disconnected (sockets e i) \<and>
     (\<forall>s. nl_socket (sockets e i) = Some s \<longrightarrow> fd_ok s)"

fun listener_closed :: "listener \<Rightarrow> listener_store \<Rightarrow> bool" where
  "listener_closed (TimerListener i) e \<longleftrightarrow> \<not> tl_is_valid (timers e i)"
| "listener_closed (SocketListener i) e \<longleftrightarrow> \<not> nl_is_valid (sockets e i) \<and> nl_has_disconnected (sockets e i)"

fun listener_left :: "listener \<Rightarrow> listener_store \<Rightarrow> nat" where
  "listener_left (TimerListener i) e = 0"
| "listener_left (SocketListener i) e = (if nl_is_connected (sockets e i) then 1 else 0)"

lemma nl_disconnected_passive:
  "nl_calls (nl_disconnected passive_app True held l) = nl_calls l @ [Unregister (nl_fileno l)]"
  "nl_has_disconnected (nl_disconnected passive_app True held l)"
  "nl_socket (nl_disconnected passive_app True held l) = nl_socket l"
  "nl_fileno (nl_disconnected passive_app True held l) = nl_fileno l"
  by (simp_all add: nl_disconnected_def Let_def nl_call_def)

lemma nl_close_step:
  assumes "shutdown_ok os" and "\<not> nl_has_disconnected l" and "\<And>s. nl_socket l = Some s \<Longrightarrow> fd_ok s"
  obtains (closed) l' where "nl_close_socket os passive_app True l = (Inr (), l')"
      "nl_calls l' = nl_calls l @ [Unregister (nl_fileno l)]" "\<not> nl_is_valid l'" "nl_has_disconnected l'"
    | (shutdown) s' where "nl_close_socket os passive_app True l = (Inr (), l\<lparr>nl_socket := Some s'\<rparr>)"
      "nl_is_connected l" "fd_ok s'" "\<not> tcp_is_connected s'"
proof (cases "nl_is_valid l")
  case False
  then have "nl_close_socket os passive_app True l = (Inr (), nl_disconnected passive_app True True l)"
    using assms(2) by (auto simp: nl_close_socket_def nl_close_socket_internal_def nl_is_valid_def split: option.splits)
  then show thesis using False by (intro closed [of "nl_disconnected passive_app True True l"]) (simp_all add: nl_disconnected_passive nl_is_valid_def)
next
  case True
  then obtain s where s: "nl_socket l = Some s" "tcp_is_valid s" by (auto simp: nl_is_valid_def split: option.splits)
  obtain b s' where c: "tcp_close os False s = (Inr b, s')" "fd_ok s'"
      "if b then unused s' \<and> \<not> tcp_is_valid s' else tcp_is_connected s \<and> m_state s' = Shutdown"
    using tcp_close_total [of s os False] assms(3) [OF s(1)] assms(1) by (auto simp: shutdown_ok_def split: if_splits)
  let ?l = "l\<lparr>nl_socket := Some s'\<rparr>"
  have eq: "nl_close_socket os passive_app True l =
      (Inr (), if b then nl_disconnected passive_app True False ?l else ?l)"
    using s c(1) assms(2) by (simp add: nl_close_socket_def nl_close_socket_internal_def)
  show thesis
  proof (cases b)
    case True
    then show thesis using eq c(3)
      by (intro closed [of "nl_disconnected passive_app True False ?l"])
        (simp_all add: nl_disconnected_passive nl_is_valid_def)
  next
    case False
    then show thesis using eq c s(1)
      by (intro shutdown [of s']) (simp_all add: nl_is_connected_def tcp_is_connected_def)
  qed
qed

interpretation lst: closable "listener_close os passive_app" listener_fileno "listener_alive os" listener_closed listener_left
  for os
proof
  fix l e
  assume al: "listener_alive os l e"
  show "\<exists>cs e'. listener_close os passive_app l e = (Inr cs, e') \<and>
      (cs = [Unregister (listener_fileno l e)] \<and> listener_closed l e' \<or>
       cs = [] \<and> listener_alive os l e' \<and> listener_fileno l e' = listener_fileno l e \<and>
       listener_left l e' < listener_left l e)"
  proof (cases l)
    case (TimerListener i)
    then show ?thesis using al
      by (simp add: store_timer_def tl_close_socket_def tl_is_valid_def tl_get_fileno_def Let_def)
  next
    case (SocketListener i)
    have a: "shutdown_ok os" "\<not> nl_has_disconnected (sockets e i)"
      "\<And>s. nl_socket (sockets e i) = Some s \<Longrightarrow> fd_ok s"
      using al SocketListener by simp_all
    show ?thesis
      by (rule nl_close_step [OF a])
        (use SocketListener a in \<open>auto simp: store_socket_def nl_get_fileno_def nl_is_connected_def\<close>)
  qed
next
  fix l e r e' l'
  assume "listener_close os passive_app l e = (r, e')" and "l' \<noteq> l"
  then show "listener_alive os l' e' = listener_alive os l' e \<and> listener_closed l' e' = listener_closed l' e \<and>
      listener_fileno l' e' = listener_fileno l' e \<and> listener_left l' e' = listener_left l' e"
    by (cases l; cases l') (auto simp: store_timer_def store_socket_def split: prod.splits)
qed

text \<open>
  C11. \<open>stop\<close> terminates, whatever mix of timers and sockets is registered, as long as each timer is
  open and each socket listener has not disconnected before: it leaves an empty table, every
  listener closed and every connection's application told, and raises the semaphore once.
\<close>

theorem loop_stop_terminates:
  assumes "el_okay s" and "distinct (map fst (el_listeners s))"
    and "\<forall>(fd, l) \<in> set (el_listeners s). listener_alive os l e \<and> listener_fileno l e = fd"
  shows "\<exists>s' e'. el_stop (listener_close os passive_app) (s, e) = Some (Inr (), s', e') \<and> el_listeners s' = [] \<and>
    \<not> el_okay s' \<and> el_semaphore_count s' = el_semaphore_count s + 1 \<and>
    (\<forall>(fd, l) \<in> set (el_listeners s). listener_closed l e')"
proof -
  have "lst.registered os (el_listeners s) e" using assms(2,3) by (simp add: lst.registered_def)
  then show ?thesis using assms(1) by (rule lst.stop_total)
qed

definition mixed_loop :: "listener event_loop" where
  "mixed_loop = \<lparr>el_okay = True, el_listeners = [(3, SocketListener 0), (4, TimerListener 0)], el_semaphore = 5,
     el_semaphore_count = 0, el_epoll = [(3, CtlAdd (get_flags ReadOnly))], el_num_threads = 2, el_threads = 2\<rparr>"

definition mixed_store :: listener_store where
  "mixed_store = \<lparr>timers = \<lambda>_. tl_new 4, sockets = \<lambda>_. connected_listener\<rparr>"

theorem loop_stop_terminates_witness:
  "\<exists>s' e'. el_stop (listener_close (feeding_os []) passive_app) (mixed_loop, mixed_store) = Some (Inr (), s', e') \<and>
    el_listeners s' = []"
  using loop_stop_terminates [of mixed_loop "feeding_os []" mixed_store]
  by (auto simp: mixed_loop_def mixed_store_def feeding_shutdown_ok connected_listener_def nl_new_def
      tl_new_def tl_is_valid_def tl_get_fileno_def nl_get_fileno_def fd_ok_def connected_socket_def)

text \<open>
  C37. \<open>stop\<close> never returns when it meets a timer whose descriptor could not be created or is closed
  already, or a socket listener that disconnected before it was registered: their \<open>close_socket\<close> does
  not unregister them, and the loop calls it again and again.
\<close>

theorem loop_stop_spins:
  assumes "el_okay s" and "el_listeners s = (fd, l) # ls"
    and "case l of TimerListener i \<Rightarrow> \<not> tl_is_valid (timers e i)
      | SocketListener i \<Rightarrow> nl_has_disconnected (sockets e i) \<and> \<not> nl_is_valid (sockets e i)"
  shows "el_stop (listener_close os app) (s, e) = None"
proof -
  have "listener_close os app l e = (Inr [], e)"
    using assms(3)
    by (cases l) (auto simp: store_timer_def store_socket_def tl_close_socket_def tl_is_valid_def nl_is_valid_def
        nl_close_socket_def nl_close_socket_internal_def split: option.splits)
  then have "el_close_all (listener_close os app) (s\<lparr>el_okay := False\<rparr>, e) = None"
    using assms(2) by (intro close_all_spins [of _ fd l ls]) simp_all
  then show ?thesis using assms(1) by (simp add: el_stop_def)
qed

theorem loop_stop_spins_witness:
  "el_stop (listener_close (feeding_os []) passive_app)
     (mixed_loop\<lparr>el_listeners := [(-1, TimerListener 0)]\<rparr>, mixed_store\<lparr>timers := \<lambda>_. tl_new (-1)\<rparr>) = None"
  using loop_stop_spins [of "mixed_loop\<lparr>el_listeners := [(-1, TimerListener 0)]\<rparr>" "-1" "TimerListener 0" "[]"
      "mixed_store\<lparr>timers := \<lambda>_. tl_new (-1)\<rparr>"]
  by (simp add: mixed_loop_def tl_new_def tl_is_valid_def)

section \<open>Handling an event\<close>

text \<open>The calls that a listener makes to the loop are about its own descriptor.\<close>

fun call_fd :: "loop_call \<Rightarrow> int" where
  "call_fd (NotifyModeChange fd mode first_time) = fd"
| "call_fd (Unregister fd) = fd"

definition says :: "net_listener \<Rightarrow> net_listener \<Rightarrow> bool" where
  "says l l' \<longleftrightarrow> nl_fileno l' = nl_fileno l \<and>
     (\<exists>cs. nl_calls l' = nl_calls l @ cs \<and> (\<forall>c \<in> set cs. call_fd c = nl_fileno l))"

lemma says_refl [simp]: "says l l"
  by (simp add: says_def)

lemma says_trans: "says l l' \<Longrightarrow> says l' l'' \<Longrightarrow> says l l''"
  by (force simp: says_def)

lemma says_frame [simp]:
  "says l (l'\<lparr>nl_socket := x\<rparr>) = says l l'" "says l (l'\<lparr>nl_log := y\<rparr>) = says l l'"
  "says (l\<lparr>nl_socket := x\<rparr>) l' = says l l'" "says (l\<lparr>nl_log := y\<rparr>) l' = says l l'"
  by (simp_all add: says_def)

lemma says_set_mode [simp]: "says l (nl_set_mode mode l)"
  by (simp add: nl_set_mode_def nl_call_def says_def)

lemma says_disconnected [simp]: "says l (nl_disconnected passive_app True held l)"
  by (simp add: says_def nl_disconnected_passive)

lemma says_close:
  assumes "nl_close_socket_internal os passive_app True l = (r, l')"
  shows "says l l'"
  using assms says_trans [OF _ says_disconnected, of l "l\<lparr>nl_socket := _\<rparr>"]
  by (auto simp: nl_close_socket_internal_def split: option.splits if_splits prod.splits sum.splits)

lemma says_re_register: "nl_re_register first_time l = (r, l') \<Longrightarrow> says l l'"
  by (auto simp: nl_re_register_def nl_call_def says_def split: option.splits if_splits)

lemma says_on_write:
  assumes "nl_on_write_ready os (nl_close_socket os passive_app True) l = Some (r, l')"
  shows "says l l'"
proof -
  have close: "says l u" if "nl_close_socket os passive_app True (l\<lparr>nl_socket := x\<rparr>) = (q, u)" for x q u
    using says_close [of os "l\<lparr>nl_socket := x\<rparr>"] that by (simp add: nl_close_socket_def)
  show ?thesis
    using assms close says_trans [OF close says_set_mode] says_trans [OF _ says_set_mode, of l "l\<lparr>nl_socket := _\<rparr>"]
    by (fastforce simp: nl_on_write_ready_def Let_def
        split: option.splits bind_splits prod.splits sum.splits error.splits if_splits)
qed

lemma says_read_loop:
  assumes "nl_read_loop os passive_app l = Some (r, l')"
  shows "says l l'"
proof -
  let ?P = "\<lambda>os (app :: app) l (y :: (net_listener, unit) outcome). app = passive_app \<longrightarrow> says l (snd y)"
  have "?P os passive_app l (r, l')"
    by (rule nl_read_loop.raw_induct [of ?P, OF _ assms])
      (fastforce simp: Let_def split: option.splits bind_splits sum.splits error.splits)
  then show ?thesis by simp
qed

lemma says_on_read:
  assumes "nl_on_read_ready os net passive_app True l = Some (r, l')" and "nl_socket_type l = Connection"
  shows "says l l'"
  using assms says_read_loop [of os l] says_trans [OF says_read_loop says_close, of os l]
  by (auto simp: nl_on_read_ready_def split: option.splits bind_splits sum.splits if_splits)

text \<open>What such calls do to the table.\<close>

lemma el_call_table:
  "map_of (el_listeners (el_call c s)) =
    (if is_unregister c then (map_of (el_listeners s))(call_fd c := None) else map_of (el_listeners s))"
  by (cases c) (auto simp: el_notify_listener_mode_change_def el_register_socket_def el_unregister_event_listener_def
      map_of_delete Let_def split: option.split)

lemma el_calls_table:
  assumes "\<forall>c \<in> set cs. call_fd c = fd"
  shows "map_of (el_listeners (el_calls cs s)) =
    (if times is_unregister cs = 0 then map_of (el_listeners s) else (map_of (el_listeners s))(fd := None))"
  using assms by (induction cs arbitrary: s) (auto simp: el_call_table times_def)

text \<open>
  The invariant while the handlers of socket listener \<open>i\<close>, registered at \<open>fd\<close>, run: the listener is in a
  reachable state, it is in the table as long as it has not disconnected, and nothing else has changed.
\<close>

definition handling ::
    "os \<Rightarrow> inet \<Rightarrow> MessageMode \<Rightarrow> nat \<Rightarrow> int \<Rightarrow> listener event_loop \<times> listener_store \<Rightarrow>
     listener event_loop \<times> listener_store \<Rightarrow> bool" where
  "handling os net mode i fd se se' \<longleftrightarrow>
     el_inv (fst se') \<and> el_semaphore (fst se') = el_semaphore (fst se) \<and>
     nl_run os net mode (sockets (snd se') i) \<and> nl_fileno (sockets (snd se') i) = fd \<and>
     map_of (el_listeners (fst se')) = (map_of (el_listeners (fst se)))
       (fd := if nl_has_disconnected (sockets (snd se') i) then None else Some (SocketListener i)) \<and>
     timers (snd se') = timers (snd se) \<and> (\<forall>j. j \<noteq> i \<longrightarrow> sockets (snd se') j = sockets (snd se) j)"

lemma store_socket_handling:
  assumes os: "posix os" "shutdown_ok os" and h: "handling os net mode i fd se (s, e)"
    and l: "nl_run os net mode l" "says (sockets e i) l"
  obtains cs where "store_socket e i (Inr ()) l = (Inr cs, e\<lparr>sockets := (sockets e)(i := l)\<rparr>)"
    "nl_calls l = nl_calls (sockets e i) @ cs"
    "handling os net mode i fd se (el_calls cs s, e\<lparr>sockets := (sockets e)(i := l)\<rparr>)"
proof -
  have fd: "nl_fileno (sockets e i) = fd" and run: "nl_run os net mode (sockets e i)" using h by (simp_all add: handling_def)
  obtain cs where cs: "nl_calls l = nl_calls (sockets e i) @ cs" "\<forall>c \<in> set cs. call_fd c = fd" "nl_fileno l = fd"
    using l(2) fd by (auto simp: says_def)
  have told: "times is_unregister (nl_calls l) = (if nl_has_disconnected l then 1 else 0)" if "nl_run os net mode l" for l
    using nl_run_inv [OF that os] by (simp add: nl_inv_def told_inv_def)
  have "times is_unregister cs + (if nl_has_disconnected (sockets e i) then 1 else 0) = (if nl_has_disconnected l then 1 else 0)"
    using told [OF l(1)] told [OF run] cs(1) by (simp add: times_def)
  then have tab: "map_of (el_listeners (el_calls cs s)) = (map_of (el_listeners (fst se)))
      (fd := if nl_has_disconnected l then None else Some (SocketListener i))"
    using h el_calls_table [OF cs(2), of s] by (auto simp: handling_def split: if_splits)
  show thesis
  proof (rule that [of cs])
    show "store_socket e i (Inr ()) l = (Inr cs, e\<lparr>sockets := (sockets e)(i := l)\<rparr>)"
      using cs(1) by (simp add: store_socket_def)
    show "nl_calls l = nl_calls (sockets e i) @ cs" by (rule cs(1))
    show "handling os net mode i fd se (el_calls cs s, e\<lparr>sockets := (sockets e)(i := l)\<rparr>)"
      using h tab cs(3) l(1) el_calls_inv [of s cs] by (simp add: handling_def)
  qed
qed

lemma nl_re_register_run:
  assumes "nl_run os net mode l" and "posix os" "shutdown_ok os"
  shows "nl_re_register first_time l = (Inr (),
    if nl_is_valid l then nl_call (NotifyModeChange (nl_fileno l) (nl_mode l) first_time) l else l)"
  using nl_run_inv [OF assms] by (auto simp: nl_inv_def nl_re_register_def nl_is_valid_def)

text \<open>Each handler returns and keeps the invariant.\<close>

lemma handler_total:
  assumes os: "posix os" "shutdown_ok os" and run: "nl_run os net mode (sockets e i)"
  obtains l where "listener_handler os net passive_app settime on_time_event timer_read (SocketListener i) x e =
      Some (store_socket e i (Inr ()) l)" "nl_run os net mode l" "says (sockets e i) l"
proof (cases x)
  case OnRead
  have inv: "nl_inv mode (sockets e i)" by (rule nl_run_inv [OF run os])
  then have type: "nl_socket_type (sockets e i) = Connection" by (simp add: nl_inv_def told_inv_def)
  obtain l where l: "nl_on_read_ready os net passive_app True (sockets e i) = Some (Inr (), l)"
    using nl_on_read_ready_total [OF os inv] by blast
  then show thesis
    using OnRead nl_run.on_read [OF run l] says_on_read [OF l type] by (intro that [of l]) simp_all
next
  case OnWrite
  obtain l where l: "nl_on_write_ready os (nl_close_socket os passive_app True) (sockets e i) = Some (Inr (), l)"
    using nl_on_write_ready_inv [OF _ os(2) nl_run_inv [OF run os]] os(1) by (auto simp: posix_def)
  then show thesis
    using OnWrite nl_run.on_write [OF run l] says_on_write [OF l] by (intro that [of l]) simp_all
next
  case OnError
  obtain s where "unsettled mode (sockets e i) s" using nl_run_inv [OF run os] by (auto simp: nl_inv_unsettled)
  then obtain l where l: "nl_on_error (nl_close_socket os passive_app True) (sockets e i) = (Inr (), l)"
    using unsettled_close [OF os(2)] by (metis nl_on_error_def)
  then have "says (sockets e i) l" using says_close by (simp add: nl_on_error_def nl_close_socket_def)
  then show thesis
    using OnError l nl_run.on_error [OF run l] by (intro that [of l]) simp_all
next
  case ReRegister
  obtain l where l: "nl_re_register False (sockets e i) = (Inr (), l)"
    using nl_re_register_run [OF run os] by blast
  then show thesis
    using ReRegister nl_run.re_register [OF run l] says_re_register [OF l] by (intro that [of l]) simp_all
qed

lemma run_handlers_total:
  assumes os: "posix os" "shutdown_ok os" and "handling os net mode i fd se (s, e)"
  obtains s' e' where "el_run_handlers (listener_handler os net passive_app settime on_time_event timer_read (SocketListener i))
      (xs @ ys) (s, e) =
    el_run_handlers (listener_handler os net passive_app settime on_time_event timer_read (SocketListener i)) ys (s', e')"
    "handling os net mode i fd se (s', e')"
  using assms(3)
proof (induction xs arbitrary: s e thesis)
  case Nil
  then show ?case by simp
next
  case (Cons x xs)
  have run: "nl_run os net mode (sockets e i)" using Cons.prems(2) by (simp add: handling_def)
  obtain l where l: "listener_handler os net passive_app settime on_time_event timer_read (SocketListener i) x e =
      Some (store_socket e i (Inr ()) l)" "nl_run os net mode l" "says (sockets e i) l"
    using handler_total [OF os run] by blast
  obtain cs where cs: "store_socket e i (Inr ()) l = (Inr cs, e\<lparr>sockets := (sockets e)(i := l)\<rparr>)"
    "handling os net mode i fd se (el_calls cs s, e\<lparr>sockets := (sockets e)(i := l)\<rparr>)"
    using store_socket_handling [OF os Cons.prems(2) l(2,3)] by blast
  show ?case
    by (rule Cons.IH [OF _ cs(2)]) (use Cons.prems(1) l(1) cs(1) in simp)
qed

text \<open>
  C10. An event on a registered connection: the worker thread returns to the loop, no
  other listener is touched, and the one-shot registration at \<open>epoll\<close> is renewed with the flags of the
  listener's mode whenever the socket is still valid; a connection that has disconnected is no
  longer in the table nor watched.
\<close>

theorem loop_event_rearms:
  assumes "posix os" and "shutdown_ok os" and "nl_run os net mode (sockets e i)"
    and "el_okay s" and "el_inv s" and "fd \<noteq> el_semaphore s" and "map_of (el_listeners s) fd = Some (SocketListener i)"
    and "nl_fileno (sockets e i) = fd" and "\<not> nl_has_disconnected (sockets e i)"
    and "flags AND (EPOLLIN OR EPOLLOUT OR EPOLLERR) \<noteq> 0"
  shows "\<exists>s' e' l. el_thread_step (listener_handler os net passive_app settime on_time_event timer_read)
      [(WaitEvent fd flags, False)] (s, e) = Some (Inr True, s', e') \<and>
    el_inv s' \<and> sockets e' = (sockets e)(i := l) \<and> timers e' = timers e \<and> nl_run os net mode l \<and>
    (if nl_has_disconnected l
     then map_of (el_listeners s') = (map_of (el_listeners s))(fd := None) \<and> fd \<notin> epoll_watched (el_epoll s')
     else map_of (el_listeners s') = map_of (el_listeners s) \<and>
       (nl_is_valid l \<longrightarrow> last (el_epoll s') = (fd, CtlMod (get_flags (nl_mode l)))))"
proof -
  let ?h = "listener_handler os net passive_app settime on_time_event timer_read"
  let ?xs = "(if flags AND EPOLLIN \<noteq> 0 then [OnRead] else []) @ (if flags AND EPOLLOUT \<noteq> 0 then [OnWrite] else []) @
    (if flags AND (EPOLLIN OR EPOLLOUT) = 0 then [OnError] else [])"
  have h: "handling os net mode i fd (s, e) (s, e)" using assms(3,5,7,8,9) by (auto simp: handling_def)
  obtain s1 e1 where se1: "el_thread_step ?h [(WaitEvent fd flags, False)] (s, e) =
      el_run_handlers (?h (SocketListener i)) [ReRegister] (s1, e1)" "handling os net mode i fd (s, e) (s1, e1)"
    using run_handlers_total [OF assms(1,2) h, of settime on_time_event timer_read ?xs "[ReRegister]"]
      el_dispatch [OF assms(4,6,7), of ?h flags e] assms(10) by (auto simp del: el_run_handlers.simps)
  have run: "nl_run os net mode (sockets e1 i)" and fd: "nl_fileno (sockets e1 i) = fd"
    using se1(2) by (simp_all add: handling_def)
  let ?l = "if nl_is_valid (sockets e1 i)
    then nl_call (NotifyModeChange fd (nl_mode (sockets e1 i)) False) (sockets e1 i) else sockets e1 i"
  have re: "nl_re_register False (sockets e1 i) = (Inr (), ?l)" using nl_re_register_run [OF run assms(1,2)] fd by simp
  obtain cs where cs: "store_socket e1 i (Inr ()) ?l = (Inr cs, e1\<lparr>sockets := (sockets e1)(i := ?l)\<rparr>)"
      "nl_calls ?l = nl_calls (sockets e1 i) @ cs"
      "handling os net mode i fd (s, e) (el_calls cs s1, e1\<lparr>sockets := (sockets e1)(i := ?l)\<rparr>)"
    using store_socket_handling [OF assms(1,2) se1(2) nl_run.re_register [OF run re] says_re_register [OF re]] by blast
  let ?e = "e1\<lparr>sockets := (sockets e1)(i := ?l)\<rparr>"
  have step: "el_thread_step ?h [(WaitEvent fd flags, False)] (s, e) = Some (Inr True, el_calls cs s1, ?e)"
    using se1(1) re cs(1) by simp
  have watched: "fd \<notin> epoll_watched (el_epoll s')" if "el_inv s'" "map_of (el_listeners s') fd = None"
      "el_semaphore s' = el_semaphore s" for s' :: "listener event_loop"
    using that assms(6) by (auto simp: el_inv_def map_of_eq_None_iff)
  have last: "last (el_epoll (el_calls cs s1)) = (fd, CtlMod (get_flags (nl_mode ?l)))"
    if "nl_is_valid ?l" "\<not> nl_has_disconnected ?l"
  proof -
    have v: "nl_is_valid (sockets e1 i)" "\<not> nl_has_disconnected (sockets e1 i)"
      using that by (auto simp: nl_call_def split: if_splits)
    then have "cs = [NotifyModeChange fd (nl_mode (sockets e1 i)) False]" using cs(2) by (simp add: nl_call_def)
    moreover have "map_of (el_listeners s1) fd = Some (SocketListener i)" using se1(2) v(2) by (simp add: handling_def)
    ultimately show ?thesis
      using v(1) by (simp add: el_notify_listener_mode_change_def el_register_socket_def nl_call_def)
  qed
  show ?thesis
  proof (intro exI conjI)
    show "el_thread_step ?h [(WaitEvent fd flags, False)] (s, e) = Some (Inr True, el_calls cs s1, ?e)" by (rule step)
    show "sockets ?e = (sockets e)(i := ?l)" using cs(3) by (auto simp: handling_def)
    show "if nl_has_disconnected ?l
     then map_of (el_listeners (el_calls cs s1)) = (map_of (el_listeners s))(fd := None) \<and>
       fd \<notin> epoll_watched (el_epoll (el_calls cs s1))
     else map_of (el_listeners (el_calls cs s1)) = map_of (el_listeners s) \<and>
       (nl_is_valid ?l \<longrightarrow> last (el_epoll (el_calls cs s1)) = (fd, CtlMod (get_flags (nl_mode ?l))))"
      using cs(3) watched [of "el_calls cs s1"] last assms(7) by (auto simp: handling_def fun_upd_idem)
  qed (use cs(3) in \<open>simp_all add: handling_def\<close>)
qed

theorem loop_event_rearms_witness:
  "\<exists>s' e' l. el_thread_step (listener_handler (feeding_os [[6, 0, 0, 0, 7, 8]]) loopback_inet passive_app (\<lambda>_. 0) id (None, 0))
      [(WaitEvent 3 EPOLLIN, False)] (mixed_loop, mixed_store) = Some (Inr True, s', e') \<and>
    nl_run (feeding_os [[6, 0, 0, 0, 7, 8]]) loopback_inet Datagram l \<and> sockets e' 0 = l"
proof -
  have "el_inv mixed_loop" by (simp add: mixed_loop_def el_inv_def epoll_watched_def)
  moreover have "EPOLLIN AND (EPOLLIN OR EPOLLOUT OR EPOLLERR) \<noteq> 0" by (simp add: epoll_flag_defs)
  moreover have "nl_run (feeding_os [[6, 0, 0, 0, 7, 8]]) loopback_inet Datagram (sockets mixed_store 0)"
    by (simp add: mixed_store_def connected_listener_run)
  ultimately show ?thesis
    using loop_event_rearms [OF feeding_posix feeding_shutdown_ok, of "[[6, 0, 0, 0, 7, 8]]" loopback_inet Datagram
        mixed_store 0 mixed_loop 3 EPOLLIN "\<lambda>_. 0" id "(None, 0)"]
    by (force simp: mixed_loop_def mixed_store_def connected_listener_def nl_new_def)
qed

end
