(* ===== verification/Delayed_Listener.thy ===== *)
theory Delayed_Listener
  imports Network_Listener Time_Listener
begin

text \<open>
  \<open>DelayedNetworkSocketListener\<close> (\<open>include/yael/DelayedNetworkSocketListener.h\<close>,
  \<open>src/DelayedNetworkSocketListener.cpp\<close>): a socket listener that hands its messages to a timer, the
  \<open>DelayedMessageSender\<close>, which sends them when their delay is over.

  The listener extends the record of its base class.  The sender is part of it: the two objects
  refer to each other, and closing the one from within the other has to be seen by both.  The clock (\<open>now\<close>), the
  answer of \<open>timerfd_settime\<close> (\<open>settime\<close>) and the kernel (\<open>os\<close>) are arguments, as in the theories of the two base
  classes.
\<close>

section \<open>State\<close>

record delayed_message =
  dm_is_shared :: bool
  dm_data :: "byte list"
  dm_length :: u64
  dm_blocking :: bool

record delayed_sender =
  ds_timer :: time_listener
  ds_pending :: "delayed_message list"
  ds_socket :: bool     \<comment> \<open>\<open>m_socket\<close> is not null\<close>

record delayed_listener = net_listener +
  dl_sender :: "delayed_sender option"
  dl_delay :: u32

definition dl_new :: "u32 \<Rightarrow> delayed_listener" where
  "dl_new delay = net_listener.extend nl_new \<lparr>dl_sender = None, dl_delay = delay\<rparr>"

definition dl_set_delay :: "u32 \<Rightarrow> delayed_listener \<Rightarrow> delayed_listener" where
  "dl_set_delay delay l = l\<lparr>dl_delay := delay\<rparr>"

text \<open>\<open>timer_fd\<close> is the descriptor of the new sender's timer.\<close>

definition dl_set_socket :: "int \<Rightarrow> tcp_socket \<Rightarrow> SocketType \<Rightarrow> delayed_listener \<Rightarrow> (delayed_listener, unit) outcome" where
  "dl_set_socket timer_fd socket type l =
     nl_set_socket socket type
       (l\<lparr>dl_sender := Some \<lparr>ds_timer = tl_new timer_fd, ds_pending = [], ds_socket = True\<rparr>\<rparr>)"

definition dl_new_socket :: "u32 \<Rightarrow> int \<Rightarrow> tcp_socket option \<Rightarrow> SocketType \<Rightarrow> (delayed_listener, unit) outcome" where
  "dl_new_socket delay timer_fd socket type =
     (case socket of None \<Rightarrow> (Inr (), dl_new delay) | Some s \<Rightarrow> dl_set_socket timer_fd s type (dl_new delay))"

section \<open>Closing\<close>

definition ds_close_socket :: "bool \<Rightarrow> delayed_sender \<Rightarrow> delayed_sender" where
  "ds_close_socket initialized d =
     d\<lparr>ds_socket := False, ds_timer := tl_close_socket initialized (ds_timer d)\<rparr>"

definition dl_close_socket ::
    "os \<Rightarrow> delayed_listener app_on \<Rightarrow> bool \<Rightarrow> delayed_listener \<Rightarrow> (delayed_listener, unit) outcome" where
  "dl_close_socket os app initialized l =
     nl_close_socket os app initialized
       (if initialized then l\<lparr>dl_sender := map_option (ds_close_socket initialized) (dl_sender l)\<rparr> else l)"

text \<open>
  The destructor closes.  The object is no longer owned then, so that the \<open>shared_from_this\<close> with which
  \<open>close_socket_internal\<close> unregisters throws, which ends the process.
\<close>

definition dl_destroy :: "os \<Rightarrow> bool \<Rightarrow> delayed_listener \<Rightarrow> (delayed_listener, unit) outcome" where
  "dl_destroy os initialized l =
     (case dl_close_socket os (\<lambda>_ l. l) initialized l of
        (Inl e, l') \<Rightarrow> (Inl e, l')
      | (Inr _, l') \<Rightarrow>
        if initialized \<and> \<not> nl_has_disconnected l \<and> nl_has_disconnected l' then (Inl (Fatal ''bad_weak_ptr''), l')
        else (Inr (), l'))"

section \<open>Sending\<close>

definition ds_schedule ::
    "(itimerspec \<Rightarrow> int) \<Rightarrow> u64 \<Rightarrow> delayed_message \<Rightarrow> u32 \<Rightarrow> delayed_sender \<Rightarrow> delayed_sender" where
  "ds_schedule settime now m delay d =
     (let d = d\<lparr>ds_pending := ds_pending d @ [m]\<rparr>
      in d\<lparr>ds_timer := snd (tl_schedule settime now (ucast delay) (ds_timer d))\<rparr>)"

text \<open>The branch with a delay; \<open>m\<close> is the message that \<open>schedule\<close> queues.\<close>

definition dl_schedule ::
    "(itimerspec \<Rightarrow> int) \<Rightarrow> u64 \<Rightarrow> delayed_message \<Rightarrow> delayed_listener \<Rightarrow> (delayed_listener, unit) outcome option" where
  "dl_schedule settime now m l =
     (case dl_sender l of
        None \<Rightarrow> Some (Inl MemoryFault, l)
      | Some d \<Rightarrow> Some (Inr (), l\<lparr>dl_sender := Some (ds_schedule settime now m (dl_delay l) d)\<rparr>))"

definition dl_send_shared where
  "dl_send_shared os wait app initialized settime now data len blocking async l =
     (if dl_delay l = 0 then
        nl_send_with (\<lambda>n. tcp_send_shared os data n async) wait (dl_close_socket os app initialized) len blocking l
      else dl_schedule settime now \<lparr>dm_is_shared = True, dm_data = data, dm_length = len, dm_blocking = blocking\<rparr> l)"

definition dl_send_unique where
  "dl_send_unique os wait app initialized settime now data len blocking async l =
     (if dl_delay l = 0 then
        nl_send_with (\<lambda>n. tcp_send_unique os data n async) wait (dl_close_socket os app initialized) len blocking l
      else dl_schedule settime now \<lparr>dm_is_shared = False, dm_data = data, dm_length = len, dm_blocking = blocking\<rparr> l)"

definition dl_send where
  "dl_send os wait app initialized settime now data len blocking async l =
     (if dl_delay l = 0 then
        nl_send_with (\<lambda>n. tcp_send os data n async) wait (dl_close_socket os app initialized) len blocking l
      else
        (case mem_read data 0 (unat len) of
           None \<Rightarrow> Some (Inl MemoryFault, l)
         | Some copy \<Rightarrow>
           dl_schedule settime now \<lparr>dm_is_shared = False, dm_data = copy, dm_length = len, dm_blocking = blocking\<rparr> l))"

section \<open>The timer\<close>

text \<open>
  \<open>on_time_event\<close>: the iterator that is dereferenced and erased is the begin of the list, which is
  its end when the list is empty.  The message is sent with the default arguments of \<open>send\<close>.
\<close>

definition ds_send_front ::
    "os \<Rightarrow> delayed_listener app_on \<Rightarrow> bool \<Rightarrow> delayed_message list \<Rightarrow> delayed_listener \<Rightarrow>
     (delayed_listener, unit) outcome option" where
  "ds_send_front os app initialized pending l =
     (case pending of
        [] \<Rightarrow> Some (Inl MemoryFault, l)
      | m # _ \<Rightarrow>
        if dm_is_shared m then
          nl_send_with (\<lambda>n. tcp_send_shared os (dm_data m) n False) (\<lambda>_. None) (dl_close_socket os app initialized)
            (dm_length m) False l
        else
          nl_send_with (\<lambda>n. tcp_send_unique os (dm_data m) n False) (\<lambda>_. None) (dl_close_socket os app initialized)
            (dm_length m) False l)"

definition ds_erase_front :: "delayed_listener \<Rightarrow> (delayed_listener, unit) outcome" where
  "ds_erase_front l =
     (case dl_sender l of
        None \<Rightarrow> (Inl MemoryFault, l)
      | Some d \<Rightarrow>
        (case ds_pending d of
           [] \<Rightarrow> (Inl MemoryFault, l)
         | _ # rest \<Rightarrow> (Inr (), l\<lparr>dl_sender := Some (d\<lparr>ds_pending := rest\<rparr>)\<rparr>)))"

definition ds_on_time_event ::
    "os \<Rightarrow> delayed_listener app_on \<Rightarrow> bool \<Rightarrow> delayed_listener \<Rightarrow> (delayed_listener, unit) outcome option" where
  "ds_on_time_event os app initialized l =
     (case dl_sender l of
        None \<Rightarrow> Some (Inl MemoryFault, l)
      | Some d \<Rightarrow>
        Option.bind
          (if \<not> ds_socket d \<or> \<not> nl_is_valid l then Some (Inr (), l)
           else ds_send_front os app initialized (ds_pending d) l)
          (\<lambda>(r, l). Some (case r of Inl e \<Rightarrow> (Inl e, l) | Inr _ \<Rightarrow> ds_erase_front l)))"

text \<open>\<open>TimeEventListener::on_read_ready\<close> with the sender's \<open>on_time_event\<close>, called once per due event.\<close>

fun ds_time_events ::
    "os \<Rightarrow> delayed_listener app_on \<Rightarrow> bool \<Rightarrow> nat \<Rightarrow> delayed_listener \<Rightarrow> (delayed_listener, unit) outcome option" where
  "ds_time_events os app initialized 0 l = Some (Inr (), l)"
| "ds_time_events os app initialized (Suc count) l =
     Option.bind (ds_on_time_event os app initialized l) (\<lambda>(r, l).
       case r of Inl e \<Rightarrow> Some (Inl e, l) | Inr _ \<Rightarrow> ds_time_events os app initialized count l)"

definition ds_set_timer :: "(time_listener \<Rightarrow> time_listener) \<Rightarrow> delayed_listener \<Rightarrow> delayed_listener" where
  "ds_set_timer f l = l\<lparr>dl_sender := map_option (\<lambda>d. d\<lparr>ds_timer := f (ds_timer d)\<rparr>) (dl_sender l)\<rparr>"

definition ds_on_read_ready ::
    "os \<Rightarrow> delayed_listener app_on \<Rightarrow> bool \<Rightarrow> (itimerspec \<Rightarrow> int) \<Rightarrow> u64 option \<Rightarrow> u64 \<Rightarrow> delayed_listener \<Rightarrow>
     (delayed_listener, unit) outcome option" where
  "ds_on_read_ready os app initialized settime buf now l =
     (case (dl_sender l, buf) of
        (None, _) \<Rightarrow> Some (Inl MemoryFault, l)
      | (Some d, None) \<Rightarrow> Some (Inl (Fatal ''Failed to read from timefd''), l)
      | (Some d, Some buf) \<Rightarrow>
        if buf = 1 then
          (case tl_take_due now 0 (tl_events (ds_timer d)) of (count, rest) \<Rightarrow>
             Option.bind
               (ds_time_events os app initialized count (ds_set_timer (\<lambda>t. t\<lparr>tl_events := rest, tl_timer := None\<rparr>) l))
               (\<lambda>(r, l).
                 case (r, dl_sender l) of
                   (Inl e, _) \<Rightarrow> Some (Inl e, l)
                 | (Inr _, None) \<Rightarrow> Some (Inl MemoryFault, l)
                 | (Inr _, Some d) \<Rightarrow>
                   (case tl_rearm settime now (ds_timer d) of (r, t) \<Rightarrow> Some (r, ds_set_timer (\<lambda>_. t) l))))
        else Some (Inr (), l))"

section \<open>The base class\<close>

text \<open>
  Projected to its base class, a delayed listener does what a \<open>NetworkSocketListener\<close> does.
\<close>

abbreviation base :: "'a net_listener_scheme \<Rightarrow> net_listener" where
  "base \<equiv> net_listener.truncate"

abbreviation on_base :: "('a net_listener_scheme, 'b) outcome \<Rightarrow> (net_listener, 'b) outcome" where
  "on_base \<equiv> map_prod id base"

lemma base_simps [simp]:
  "nl_socket (base l) = nl_socket l" "nl_socket_type (base l) = nl_socket_type l" "nl_fileno (base l) = nl_fileno l"
  "nl_has_disconnected (base l) = nl_has_disconnected l" "nl_mode (base l) = nl_mode l"
  "nl_calls (base l) = nl_calls l" "nl_log (base l) = nl_log l"
  "nl_is_valid (base l) = nl_is_valid l"
  by (simp_all add: net_listener.truncate_def nl_is_valid_def)

lemma base_updates:
  "base (l\<lparr>nl_socket := x\<rparr>) = (base l)\<lparr>nl_socket := x\<rparr>"
  "base (l\<lparr>nl_has_disconnected := b\<rparr>) = (base l)\<lparr>nl_has_disconnected := b\<rparr>"
  "base (l\<lparr>nl_mode := y\<rparr>) = (base l)\<lparr>nl_mode := y\<rparr>"
  "base (l\<lparr>nl_calls := cs\<rparr>) = (base l)\<lparr>nl_calls := cs\<rparr>"
  "base (l\<lparr>nl_log := es\<rparr>) = (base l)\<lparr>nl_log := es\<rparr>"
  by (simp_all add: net_listener.truncate_def)

lemma base_own_updates [simp]:
  "base (l\<lparr>dl_sender := d\<rparr>) = base l" "base (l\<lparr>dl_delay := n\<rparr>) = base l"
  by (simp_all add: net_listener.truncate_def)

lemma base_set_mode: "base (nl_set_mode mode l) = nl_set_mode mode (base l)"
  by (simp add: nl_set_mode_def nl_call_def base_updates)

lemma base_disconnected:
  "base (nl_disconnected passive_app initialized held l) = nl_disconnected passive_app initialized held (base l)"
  by (simp add: nl_disconnected_def nl_callback_def passive_app_def nl_call_def base_updates Let_def)

lemma nl_close_base:
  "on_base (nl_close_socket os passive_app initialized l) = nl_close_socket os passive_app initialized (base l)"
  by (simp add: nl_close_socket_def nl_close_socket_internal_def base_disconnected base_updates
      split: option.split sum.split prod.split)

lemma dl_close_base:
  "on_base (dl_close_socket os passive_app initialized l) = nl_close_socket os passive_app initialized (base l)"
  by (simp add: dl_close_socket_def nl_close_base)

text \<open>The loop of \<open>send\<close>, for any closer that does on the base class what another one does.\<close>

definition same_close :: "'a net_listener_scheme nl_closer \<Rightarrow> net_listener nl_closer \<Rightarrow> bool" where
  "same_close cl cl' \<longleftrightarrow> (\<forall>l. cl' (base l) = on_base (cl l))"

lemma same_closeD: "same_close cl cl' \<Longrightarrow> cl' (base l) = on_base (cl l)"
  by (simp add: same_close_def)

lemma dl_same_close: "same_close (dl_close_socket os passive_app initialized) (nl_close_socket os passive_app initialized)"
  by (simp add: same_close_def dl_close_base)

lemma nl_send_loop_base_le:
  assumes "same_close cl cl'" and "nl_send_loop sock_send wait cl len blocking l = Some y"
  shows "nl_send_loop sock_send wait cl' len blocking (base l) = Some (on_base y)"
proof -
  let ?P = "\<lambda>sock_send wait cl len blocking l y. same_close cl cl' \<longrightarrow>
    nl_send_loop sock_send wait cl' len blocking (base l) = Some (on_base y)"
  have "?P sock_send wait cl len blocking l y"
    by (rule nl_send_loop.raw_induct [of ?P, OF _ assms(2)], subst nl_send_loop.simps)
      (auto simp: Let_def same_closeD simp flip: base_updates(1)
        split: option.splits sum.splits error.splits bind_splits prod.splits if_splits)
  then show ?thesis using assms(1) by simp
qed

lemma nl_send_loop_base_ge:
  assumes "same_close cl cl'" and "nl_send_loop sock_send wait cl' len blocking (base l) = Some y"
  shows "nl_send_loop sock_send wait cl len blocking l \<noteq> None"
proof -
  let ?P = "\<lambda>sock_send wait cl' len blocking k y. \<forall>l. k = base l \<longrightarrow> same_close cl cl' \<longrightarrow>
    nl_send_loop sock_send wait cl len blocking l \<noteq> None"
  have "?P sock_send wait cl' len blocking (base l) y"
    by (rule nl_send_loop.raw_induct [of ?P, OF _ assms(2)], subst nl_send_loop.simps)
      (fastforce simp: Let_def simp flip: base_updates(1)
        split: option.splits sum.splits error.splits bind_splits prod.splits if_splits)
  then show ?thesis using assms(1) by blast
qed

lemma nl_send_loop_base:
  assumes "same_close cl cl'"
  shows "nl_send_loop sock_send wait cl' len blocking (base l) =
    map_option on_base (nl_send_loop sock_send wait cl len blocking l)"
  using nl_send_loop_base_le [OF assms, of sock_send wait len blocking l]
    nl_send_loop_base_ge [OF assms, of sock_send wait len blocking l]
  by (cases "nl_send_loop sock_send wait cl len blocking l"; cases "nl_send_loop sock_send wait cl' len blocking (base l)") auto

lemma nl_send_with_base:
  assumes "same_close cl cl'"
  shows "nl_send_with sock_send wait cl' len blocking (base l) =
    map_option on_base (nl_send_with sock_send wait cl len blocking l)"
  unfolding nl_send_with_def nl_send_loop_base [OF assms]
  by (cases "nl_send_loop sock_send wait cl len blocking l")
    (auto simp: base_set_mode same_closeD [OF assms] split: sum.split)

section \<open>The sender\<close>

text \<open>Nothing that the base class does touches the sender, except that closing closes it.\<close>

definition sender_kept :: "delayed_listener \<Rightarrow> delayed_listener \<Rightarrow> bool" where
  "sender_kept l l' \<longleftrightarrow> dl_sender l' \<in> {dl_sender l, map_option (ds_close_socket True) (dl_sender l)}"

lemma ds_close_idem: "ds_close_socket True (ds_close_socket True d) = ds_close_socket True d"
  by (simp add: ds_close_socket_def tl_close_socket_def Let_def)

lemma sender_kept_trans: "sender_kept l l' \<Longrightarrow> sender_kept l' l'' \<Longrightarrow> sender_kept l l''"
  by (auto simp: sender_kept_def option.map_comp ds_close_idem o_def)

lemma nl_close_sender:
  "nl_close_socket os passive_app initialized l = (r, l') \<Longrightarrow> dl_sender l' = dl_sender l"
  by (auto simp: nl_close_socket_def nl_close_socket_internal_def nl_disconnected_def nl_callback_def passive_app_def
      nl_call_def Let_def split: option.splits if_splits prod.splits sum.splits)

lemma dl_close_kept: "dl_close_socket os passive_app True l = (r, l') \<Longrightarrow> sender_kept l l'"
  using nl_close_sender [of os True "l\<lparr>dl_sender := map_option (ds_close_socket True) (dl_sender l)\<rparr>" r l']
  by (simp add: dl_close_socket_def sender_kept_def)

lemma sender_kept_simps [simp]:
  "sender_kept l l" "sender_kept l (l'\<lparr>nl_socket := x\<rparr>) = sender_kept l l'"
  "sender_kept l (nl_set_mode mode l') = sender_kept l l'"
  by (simp_all add: sender_kept_def nl_set_mode_def nl_call_def)

lemma nl_send_loop_kept:
  assumes "nl_send_loop sock_send wait (dl_close_socket os passive_app True) len False l = Some (r, l')"
  shows "sender_kept l l'"
proof -
  have close: "sender_kept l u" if "dl_close_socket os passive_app True (l\<lparr>nl_socket := x\<rparr>) = (q, u)" for x q u
    using dl_close_kept [OF that] by (simp add: sender_kept_def)
  show ?thesis
    using assms unfolding nl_send_loop.simps [of _ _ _ _ _ l]
    by (auto simp: Let_def dest: close
        split: option.splits sum.splits error.splits bind_splits prod.splits)
qed

lemma nl_send_with_kept:
  assumes "nl_send_with sock_send wait (dl_close_socket os passive_app True) len False l = Some (r, l')"
  shows "sender_kept l l'"
proof -
  obtain q k where k: "nl_send_loop sock_send wait (dl_close_socket os passive_app True) len False l = Some (q, k)"
    "(case q of Inl e \<Rightarrow> (Inl e, k)
       | Inr has_more \<Rightarrow> if nl_is_valid k then (Inr (), nl_set_mode (if has_more then ReadWrite else ReadOnly) k)
         else dl_close_socket os passive_app True k) = (r, l')"
    using assms by (auto simp: nl_send_with_def split: bind_splits)
  have "sender_kept k l'" using k(2) dl_close_kept [of os k] by (auto split: sum.splits if_splits)
  with nl_send_loop_kept [OF k(1)] show ?thesis by (rule sender_kept_trans)
qed

text \<open>What a delayed message puts on the wire, and when its length is right.\<close>

definition dm_ok :: "delayed_message \<Rightarrow> bool" where
  "dm_ok m \<longleftrightarrow>
     (if dm_is_shared m then unat (ucast (dm_length m) :: u32) \<le> length (dm_data m)
      else unat (ucast (dm_length m) :: u32) = length (dm_data m) \<and> unat (ucast (dm_length m) :: u32) + 4 < 2 ^ 32)"

definition dm_wire :: "MessageMode \<Rightarrow> delayed_message \<Rightarrow> byte list" where
  "dm_wire mode m =
     (if dm_is_shared m then take (unat (ucast (dm_length m) :: u32)) (dm_data m) else wire_of mode (dm_data m))"

definition dl_outgoing :: "delayed_listener \<Rightarrow> byte list" where
  "dl_outgoing l = (case nl_socket l of None \<Rightarrow> [] | Some s \<Rightarrow> outgoing s)"

lemma ds_send_front_total:
  assumes os: "posix os" "shutdown_ok os" and l: "nl_inv mode (base l)" and m: "dm_ok m"
  obtains l' where "ds_send_front os passive_app True (m # ms) l = Some (Inr (), l')" "nl_inv mode (base l')"
    "sender_kept l l'" "nl_is_connected l' \<Longrightarrow> nl_is_connected l \<and> dl_outgoing l' = dl_outgoing l @ dm_wire mode m"
proof -
  have wb: "write_bounded os" using os(1) by (simp add: posix_def)
  obtain s where s: "nl_socket l = Some s" using l by (auto simp: nl_inv_def)
  let ?cl = "nl_close_socket os passive_app True" and ?n = "dm_length m"
  obtain k where k: "(if dm_is_shared m then nl_send_with (\<lambda>n. tcp_send_shared os (dm_data m) n False) (\<lambda>_. None) ?cl ?n False (base l)
        else nl_send_with (\<lambda>n. tcp_send_unique os (dm_data m) n False) (\<lambda>_. None) ?cl ?n False (base l)) = Some (Inr (), k)"
      "nl_inv mode k" "\<forall>s'. nl_socket k = Some s' \<longrightarrow> tcp_is_connected s' \<longrightarrow>
        tcp_is_connected s \<and> outgoing s' = outgoing s @ dm_wire mode m"
  proof (cases "dm_is_shared m")
    case True
    then show thesis
      using shared.send_with_inv [OF wb os(2) _ l, of ?n "dm_data m" False "\<lambda>_. None" False] m s that
      by (auto simp: dm_ok_def dm_wire_def sends_def grows_def)
  next
    case False
    then show thesis
      using unique.send_with_inv [OF wb os(2) _ l, of ?n "dm_data m" False "\<lambda>_. None" False] m s that
      by (auto simp: dm_ok_def dm_wire_def sends_def grows_def)
  qed
  then have "map_option on_base (ds_send_front os passive_app True (m # ms) l) = Some (Inr (), k)"
    by (simp add: ds_send_front_def nl_send_with_base [OF dl_same_close] split: if_splits)
  then obtain l' where l': "ds_send_front os passive_app True (m # ms) l = Some (Inr (), l')" "base l' = k"
    by auto
  have "sender_kept l l'"
    using l'(1) nl_send_with_kept by (auto simp: ds_send_front_def split: if_splits)
  moreover have "nl_is_connected l \<and> dl_outgoing l' = dl_outgoing l @ dm_wire mode m" if "nl_is_connected l'"
    using that k(3) l'(2) s by (auto simp: nl_is_connected_def dl_outgoing_def split: option.splits)
  ultimately show thesis using l' k(2) by (intro that [of l']) simp_all
qed

section \<open>The queue of delayed messages\<close>

text \<open>
  Every queued event has its message: the iterator that \<open>on_time_event\<close> dereferences is never the end of
  the list.
\<close>

definition sender_inv :: "delayed_sender \<Rightarrow> bool" where
  "sender_inv d \<longleftrightarrow> time_inv (ds_timer d) \<and> length (tl_events (ds_timer d)) \<le> length (ds_pending d) \<and>
     list_all dm_ok (ds_pending d)"

definition dl_inv :: "MessageMode \<Rightarrow> delayed_listener \<Rightarrow> bool" where
  "dl_inv mode l \<longleftrightarrow> nl_inv mode (base l) \<and> (\<exists>d. dl_sender l = Some d \<and> sender_inv d)"

lemma ds_schedule_inv:
  assumes "settime_ok settime" and "sender_inv d" and "dm_ok m" and "unat now < 2 ^ 62"
  shows "sender_inv (ds_schedule settime now m delay d)"
    and "ds_pending (ds_schedule settime now m delay d) = ds_pending d @ [m]"
    and "tl_is_valid (ds_timer d) \<Longrightarrow>
      tl_events (ds_timer (ds_schedule settime now m delay d)) = insort (now + ucast delay) (tl_events (ds_timer d))"
proof -
  have "unat delay < 2 ^ 32" using unsigned_less [of delay] by simp
  moreover from this have "unat (ucast delay :: u64) = unat delay"
    by (simp add: unsigned_ucast_eq take_bit_nat_eq_self)
  ultimately have t: "unat now + unat (ucast delay :: u64) < 2 ^ 63" using assms(4) by simp
  have inv: "time_inv (ds_timer d)" using assms(2) by (simp add: sender_inv_def)
  have "time_inv t' \<and> length (tl_events t') \<le> Suc (length (tl_events (ds_timer d))) \<and>
      (tl_is_valid (ds_timer d) \<longrightarrow> tl_events t' = insort (now + ucast delay) (tl_events (ds_timer d)))"
    if t': "t' = snd (tl_schedule settime now (ucast delay) (ds_timer d))" for t'
  proof (cases "tl_is_valid (ds_timer d)")
    case True
    show ?thesis by (rule tl_schedule [OF assms(1) inv True t]) (simp add: t')
  next
    case False
    then show ?thesis using inv by (simp add: t' tl_schedule_def tl_is_valid_def)
  qed
  then show "sender_inv (ds_schedule settime now m delay d)"
    "tl_is_valid (ds_timer d) \<Longrightarrow>
      tl_events (ds_timer (ds_schedule settime now m delay d)) = insort (now + ucast delay) (tl_events (ds_timer d))"
    using assms(2,3) by (auto simp: sender_inv_def ds_schedule_def Let_def intro: le_trans)
qed (simp add: ds_schedule_def Let_def)

text \<open>One event: the first message leaves the list, and is sent if the connection can take it.\<close>

definition sender_step :: "delayed_sender \<Rightarrow> nat \<Rightarrow> delayed_sender \<Rightarrow> bool" where
  "sender_step d k d' \<longleftrightarrow> ds_pending d' = drop k (ds_pending d) \<and> (ds_socket d' \<longrightarrow> ds_socket d) \<and>
     ds_timer d' \<in> {ds_timer d, tl_close_socket True (ds_timer d)}"

lemma sender_step_trans: "sender_step d j e \<Longrightarrow> sender_step e k f \<Longrightarrow> sender_step d (j + k) f"
  by (auto simp: sender_step_def add.commute tl_close_socket_def Let_def)

lemma ds_on_time_event_total:
  assumes os: "posix os" "shutdown_ok os" and l: "nl_inv mode (base l)" "dl_sender l = Some d"
    and p: "ds_pending d = m # ms" "dm_ok m"
  obtains l' d' where "ds_on_time_event os passive_app True l = Some (Inr (), l')" "nl_inv mode (base l')"
    "dl_sender l' = Some d'" "sender_step d 1 d'"
    "nl_is_connected l' \<and> ds_socket d' \<Longrightarrow> nl_is_connected l \<and> dl_outgoing l' = dl_outgoing l @ dm_wire mode m"
proof (cases "ds_socket d \<and> nl_is_valid l")
  case False
  let ?l = "l\<lparr>dl_sender := Some (d\<lparr>ds_pending := ms\<rparr>)\<rparr>"
  have "\<not> nl_is_connected ?l" if "ds_socket d"
    using False that l(1) connected_valid tcp_inv_fd_ok
    by (fastforce simp: nl_inv_def socket_inv_def nl_is_valid_def nl_is_connected_def)
  then show thesis using False l p
    by (intro that [of ?l "d\<lparr>ds_pending := ms\<rparr>"]) (auto simp: ds_on_time_event_def ds_erase_front_def sender_step_def)
next
  case True
  obtain k where k: "ds_send_front os passive_app True (m # ms) l = Some (Inr (), k)" "nl_inv mode (base k)"
      "sender_kept l k" "nl_is_connected k \<Longrightarrow> nl_is_connected l \<and> dl_outgoing k = dl_outgoing l @ dm_wire mode m"
    using ds_send_front_total [OF os l(1) p(2)] by blast
  obtain e where e: "dl_sender k = Some e" "e = d \<or> e = ds_close_socket True d"
    using k(3) l(2) by (auto simp: sender_kept_def)
  let ?l = "k\<lparr>dl_sender := Some (e\<lparr>ds_pending := ms\<rparr>)\<rparr>"
  have "ds_pending e = m # ms" using e(2) p(1) by (auto simp: ds_close_socket_def)
  then have eq: "ds_on_time_event os passive_app True l = Some (Inr (), ?l)"
    using True l(2) p(1) k(1) e(1) by (simp add: ds_on_time_event_def ds_erase_front_def)
  have "sender_step d 1 (e\<lparr>ds_pending := ms\<rparr>)" using e(2) p(1) by (auto simp: sender_step_def ds_close_socket_def)
  then show thesis using eq k(2,4)
    by (intro that [of ?l "e\<lparr>ds_pending := ms\<rparr>"]) (simp_all add: nl_is_connected_def dl_outgoing_def)
qed

lemma ds_time_events_total:
  assumes os: "posix os" "shutdown_ok os" and "nl_inv mode (base l)" "dl_sender l = Some d"
    "k \<le> length (ds_pending d)" "list_all dm_ok (ds_pending d)"
  obtains l' d' where "ds_time_events os passive_app True k l = Some (Inr (), l')" "nl_inv mode (base l')"
    "dl_sender l' = Some d'" "sender_step d k d'"
    "nl_is_connected l' \<and> ds_socket d' \<Longrightarrow>
      nl_is_connected l \<and> dl_outgoing l' = dl_outgoing l @ concat (map (dm_wire mode) (take k (ds_pending d)))"
  using assms(3-)
proof (induction k arbitrary: l d thesis)
  case 0
  then show ?case by (simp add: sender_step_def)
next
  case (Suc k)
  obtain m ms where p: "ds_pending d = m # ms" "dm_ok m" "list_all dm_ok ms" "k \<le> length ms"
    using Suc.prems(4,5) by (cases "ds_pending d") auto
  obtain l1 d1 where s: "ds_on_time_event os passive_app True l = Some (Inr (), l1)" "nl_inv mode (base l1)"
    "dl_sender l1 = Some d1" "sender_step d 1 d1"
    "nl_is_connected l1 \<and> ds_socket d1 \<Longrightarrow> nl_is_connected l \<and> dl_outgoing l1 = dl_outgoing l @ dm_wire mode m"
    using ds_on_time_event_total [OF os Suc.prems(2,3) p(1,2)] by blast
  have d1: "ds_pending d1 = ms" using s(4) p(1) by (simp add: sender_step_def)
  show ?case
  proof (rule Suc.IH [OF _ s(2,3)])
    fix l' d'
    assume r: "ds_time_events os passive_app True k l1 = Some (Inr (), l')" "nl_inv mode (base l')"
      "dl_sender l' = Some d'" "sender_step d1 k d'"
      "nl_is_connected l' \<and> ds_socket d' \<Longrightarrow>
        nl_is_connected l1 \<and> dl_outgoing l' = dl_outgoing l1 @ concat (map (dm_wire mode) (take k (ds_pending d1)))"
    have st: "sender_step d (Suc k) d'" using sender_step_trans [OF s(4) r(4)] by simp
    show ?case
      by (rule Suc.prems(1) [OF _ r(2,3) st]) (use s(1,5) r(1,4,5) p(1) d1 in \<open>auto simp: sender_step_def\<close>)
  qed (use d1 p in simp_all)
qed

section \<open>Properties\<close>

text \<open>
  Without a delay a \<open>DelayedNetworkSocketListener\<close> sends exactly as a \<open>NetworkSocketListener\<close>: the same
  results, exceptions and socket states, and the same calls to the loop and the application, for each of the three
  \<open>send\<close> methods, blocking or not, whether they return or not.
\<close>

theorem delayed_undelayed_equivalent:
  assumes "dl_delay l = 0"
  shows "map_option on_base (dl_send os wait passive_app initialized settime now data len blocking async l) =
      nl_send os wait passive_app initialized data len blocking async (base l) \<and>
    map_option on_base (dl_send_shared os wait passive_app initialized settime now data len blocking async l) =
      nl_send_shared os wait passive_app initialized data len blocking async (base l) \<and>
    map_option on_base (dl_send_unique os wait passive_app initialized settime now data len blocking async l) =
      nl_send_unique os wait passive_app initialized data len blocking async (base l)"
  using assms
  by (simp add: dl_send_def dl_send_shared_def dl_send_unique_def nl_send_def nl_send_shared_def nl_send_unique_def
      nl_send_with_base [OF dl_same_close])

definition example_sender :: delayed_sender where
  "example_sender = \<lparr>ds_timer = (tl_new 4)\<lparr>tl_events := [40, 90], tl_timer := Some (tl_timer_value 5)\<rparr>,
     ds_pending = [\<lparr>dm_is_shared = False, dm_data = [7, 8], dm_length = 2, dm_blocking = True\<rparr>,
       \<lparr>dm_is_shared = True, dm_data = [9], dm_length = 1, dm_blocking = False\<rparr>], ds_socket = True\<rparr>"

definition delayed_example :: "u32 \<Rightarrow> delayed_listener" where
  "delayed_example delay = net_listener.extend connected_listener \<lparr>dl_sender = Some example_sender, dl_delay = delay\<rparr>"

lemma delayed_example [simp]:
  "base (delayed_example delay) = connected_listener" "dl_delay (delayed_example delay) = delay"
  "dl_sender (delayed_example delay) = Some example_sender"
  by (simp_all add: delayed_example_def net_listener.extend_def net_listener.truncate_def connected_listener_def nl_new_def)

lemma delayed_example_inv: "dl_inv Datagram (delayed_example delay)"
proof -
  have "sender_inv example_sender"
    by (simp add: example_sender_def sender_inv_def time_inv_def events_ok_def dm_ok_def)
  then show ?thesis
    using nl_run_inv [OF connected_listener_run feeding_posix feeding_shutdown_ok] by (simp add: dl_inv_def)
qed

lemma settime_ok_zero: "settime_ok (\<lambda>_. 0)"
  by (simp add: settime_ok_def)

theorem delayed_undelayed_equivalent_witness:
  "map_option on_base (dl_send (feeding_os []) (\<lambda>_. None) passive_app True (\<lambda>_. 0) 50 [1, 2] 2 False False (delayed_example 0)) =
    nl_send (feeding_os []) (\<lambda>_. None) passive_app True [1, 2] 2 False False (base (delayed_example 0))"
  using delayed_undelayed_equivalent [of "delayed_example 0"] by simp

text \<open>
  With a delay, \<open>send\<close> returns at once without touching the connection: the message is last in the
  queue, and while the sender's timer is open its event is due after the delay, in the order of due times.  The
  invariant holds, in particular that every event has a message.
\<close>

theorem delayed_send_queues:
  assumes "dl_inv mode l" and "dl_delay l \<noteq> 0" and "settime_ok settime" and "unat now < 2 ^ 62"
    and "unat len \<le> length data" and "unat len + 4 < 2 ^ 32"
  shows "\<exists>l' d d'. dl_send os wait app initialized settime now data len blocking async l = Some (Inr (), l') \<and>
    dl_inv mode l' \<and> base l' = base l \<and> dl_sender l = Some d \<and> dl_sender l' = Some d' \<and>
    map dm_data (ds_pending d') = map dm_data (ds_pending d) @ [take (unat len) data] \<and>
    (tl_is_valid (ds_timer d) \<longrightarrow>
      tl_events (ds_timer d') = insort (now + ucast (dl_delay l)) (tl_events (ds_timer d)))"
proof -
  obtain d where d: "dl_sender l = Some d" "sender_inv d" using assms(1) by (auto simp: dl_inv_def)
  let ?m = "\<lparr>dm_is_shared = False, dm_data = take (unat len) data, dm_length = len, dm_blocking = blocking\<rparr>"
  have "unat (ucast len :: u32) = unat len" using assms(6) by (simp add: unsigned_ucast_eq take_bit_nat_eq_self)
  then have m: "dm_ok ?m" using assms(5,6) by (simp add: dm_ok_def)
  let ?d = "ds_schedule settime now ?m (dl_delay l) d"
  note s = ds_schedule_inv [OF assms(3) d(2) m assms(4), of "dl_delay l"]
  have "dl_send os wait app initialized settime now data len blocking async l = Some (Inr (), l\<lparr>dl_sender := Some ?d\<rparr>)"
    using assms(2,5) d(1) by (simp add: dl_send_def dl_schedule_def mem_read_def)
  then show ?thesis
    using assms(1) d(1) s by (intro exI [of _ "l\<lparr>dl_sender := Some ?d\<rparr>"] exI [of _ d] exI [of _ ?d]) (simp add: dl_inv_def)
qed

theorem delayed_send_queues_witness:
  "\<exists>l'. dl_send (feeding_os []) (\<lambda>_. None) passive_app True (\<lambda>_. 0) 50 [1, 2] 2 False False (delayed_example 10) =
      Some (Inr (), l') \<and> dl_inv Datagram l'"
  using delayed_send_queues [OF delayed_example_inv _ settime_ok_zero, of 10 50 2 "[1, 2]" "feeding_os []" "\<lambda>_. None"
      passive_app True False False] by auto

text \<open>
  C30. When the sender's timer expires, it takes as many messages from the front of its queue as events are
  due, never more than there are, and the handler returns: if the connection is still up and the
  sender attached to it, exactly these messages have been handed to the socket, in the order of the
  \<open>send\<close> calls, whatever the delays were.  The timer is armed again and the invariant holds.
\<close>

theorem delayed_messages_in_order:
  assumes "posix os" and "shutdown_ok os" and "settime_ok settime" and "dl_inv mode l" and "dl_sender l = Some d"
  shows "\<exists>l' d'. ds_on_read_ready os passive_app True settime (Some 1) now l = Some (Inr (), l') \<and> dl_inv mode l' \<and>
    dl_sender l' = Some d' \<and>
    (let k = length (filter (\<lambda>e. e \<le> now) (tl_events (ds_timer d))) in
      ds_pending d' = drop k (ds_pending d) \<and>
      (nl_is_connected l' \<and> ds_socket d' \<longrightarrow>
        dl_outgoing l' = dl_outgoing l @ concat (map (dm_wire mode) (take k (ds_pending d)))))"
proof -
  let ?es = "tl_events (ds_timer d)"
  let ?k = "length (filter (\<lambda>e. e \<le> now) ?es)" and ?rest = "filter (\<lambda>e. now < e) ?es"
  let ?set = "\<lambda>t. t\<lparr>tl_events := ?rest, tl_timer := None\<rparr>"
  let ?d = "d\<lparr>ds_timer := ?set (ds_timer d)\<rparr>"
  have inv: "sender_inv d" "nl_inv mode (base l)" using assms(4,5) by (simp_all add: dl_inv_def)
  then have ok: "events_ok ?es" and len: "?k + length ?rest \<le> length (ds_pending d)"
    using sum_length_filter_compl [of "\<lambda>e. e \<le> now" ?es] by (simp_all add: sender_inv_def time_inv_def not_le)
  have due: "due_later now (?set (ds_timer d))" using ok by (auto simp: due_later_def events_ok_def intro: sorted_wrt_filter)
  obtain l1 d1 where r: "ds_time_events os passive_app True ?k (ds_set_timer ?set l) = Some (Inr (), l1)"
      "nl_inv mode (base l1)" "dl_sender l1 = Some d1" "sender_step ?d ?k d1"
      "nl_is_connected l1 \<and> ds_socket d1 \<Longrightarrow> nl_is_connected l \<and>
        dl_outgoing l1 = dl_outgoing l @ concat (map (dm_wire mode) (take ?k (ds_pending d)))"
    using ds_time_events_total [OF assms(1,2), of mode "ds_set_timer ?set l" ?d ?k] inv len assms(5)
    by (auto simp: ds_set_timer_def sender_inv_def nl_is_connected_def dl_outgoing_def)
  have later: "due_later now (ds_timer d1)" and es: "tl_events (ds_timer d1) = ?rest"
    using r(4) due due_later_frame(2) [of now True "?set (ds_timer d)"]
    by (auto simp: sender_step_def tl_close_socket_def Let_def)
  obtain t where t: "tl_rearm settime now (ds_timer d1) = (Inr (), t)" "time_inv t" "tl_events t = ?rest"
    using rearm [OF assms(3) later] es by metis
  let ?d' = "d1\<lparr>ds_timer := t\<rparr>"
  have "ds_on_read_ready os passive_app True settime (Some 1) now l = Some (Inr (), l1\<lparr>dl_sender := Some ?d'\<rparr>)"
    using assms(5) ok take_due [of ?es now 0] r(1,3) t(1)
    by (simp add: ds_on_read_ready_def events_ok_def ds_set_timer_def)
  moreover have "sender_inv ?d'"
    using t(2,3) r(4) inv(1) len by (auto simp: sender_inv_def sender_step_def list_all_iff dest: in_set_dropD)
  ultimately show ?thesis
    using r(2,3,4,5) by (intro exI [of _ "l1\<lparr>dl_sender := Some ?d'\<rparr>"] exI [of _ ?d'])
      (simp add: dl_inv_def Let_def sender_step_def nl_is_connected_def dl_outgoing_def)
qed

theorem delayed_messages_in_order_witness:
  "\<exists>l'. ds_on_read_ready (feeding_os []) passive_app True (\<lambda>_. 0) (Some 1) 50 (delayed_example 10) = Some (Inr (), l') \<and>
    dl_inv Datagram l'"
  using delayed_messages_in_order [OF feeding_posix feeding_shutdown_ok settime_ok_zero delayed_example_inv
      delayed_example(3), of "[]" 50 10] by blast

text \<open>A delayed listener that is dropped before it had a socket takes the process down with it.\<close>

lemma delayed_destroy_aborts:
  "fst (dl_destroy os True (dl_new delay)) = Inl (Fatal ''bad_weak_ptr'')"
  by (simp add: dl_destroy_def dl_new_def dl_close_socket_def nl_close_socket_def nl_close_socket_internal_def
      nl_disconnected_def nl_call_def nl_new_def net_listener.extend_def Let_def)

end
