(* ===== verification/Tls_Credentials.thy ===== *)
theory Tls_Credentials
  imports Yael_Prelude
begin

text \<open>
  What \<open>TlsContext\<close> hands to a Botan channel when it creates one (\<open>src/network/TlsPolicy.h\<close>, \<open>ClientCredentials.h\<close>,
  \<open>ServerCredentials.h\<close>, and the constructors of \<open>TlsServer\<close> and \<open>TlsClient\<close> in \<open>TlsContext.cpp\<close>).  Keys, certificates and
  certificate stores are Botan's and of any type; reading them from files is a parameter that can
  fail, and so is the construction of a channel from them.
\<close>

record ('k, 'x, 's) botan_files =
  bf_load_key :: "string \<Rightarrow> error + 'k"
  bf_certificate :: "string \<Rightarrow> error + 'x"
  bf_cert_store :: "string \<Rightarrow> error + 's"

text \<open>The methods of a \<open>Credentials_Manager\<close> that the two classes override.\<close>

record ('k, 'x, 's) credentials =
  trusted_certificate_authorities :: "string \<Rightarrow> string \<Rightarrow> error + 's list"
  cert_chain :: "string list \<Rightarrow> string \<Rightarrow> string \<Rightarrow> 'x list"
  private_key_for :: "'x \<Rightarrow> string \<Rightarrow> string \<Rightarrow> 'k option"

definition client_credentials :: "('k, 'x, 's) botan_files \<Rightarrow> ('k, 'x, 's) credentials" where
  "client_credentials files =
     \<lparr>trusted_certificate_authorities = \<lambda>type context. map_sum id (\<lambda>store. [store]) (bf_cert_store files ''cas''),
      cert_chain = \<lambda>cert_key_types type context. [],
      private_key_for = \<lambda>cert type context. None\<rparr>"

definition server_credentials ::
    "('k, 'x, 's) botan_files \<Rightarrow> string \<Rightarrow> string \<Rightarrow> error + ('k, 'x, 's) credentials" where
  "server_credentials files key_path cert_path =
     (case bf_load_key files key_path of
        Inl e \<Rightarrow> Inl e
      | Inr key \<Rightarrow>
        (case bf_certificate files cert_path of
           Inl e \<Rightarrow> Inl e
         | Inr certificate \<Rightarrow>
           Inr \<lparr>trusted_certificate_authorities = \<lambda>type context. Inr [],
             cert_chain = \<lambda>cert_key_types type context. [certificate],
             private_key_for = \<lambda>cert type context. Some key\<rparr>))"

definition allowed_signature_methods :: "string list" where
  "allowed_signature_methods = [''RSA'']"

text \<open>The callback that decides whether the certificates of the peer are accepted: it looks at nothing.\<close>

definition tls_verify_cert_chain ::
    "'x list \<Rightarrow> 'o list \<Rightarrow> 's list \<Rightarrow> 'u \<Rightarrow> string \<Rightarrow> string list \<Rightarrow> error + unit" where
  "tls_verify_cert_chain chain ocsp_responses trusted_roots usage hostname policy = Inr ()"

text \<open>The constructors; the last argument of the client's channel is the name and port it is told to expect.\<close>

definition tls_server ::
    "('k, 'x, 's) botan_files \<Rightarrow> (('k, 'x, 's) credentials \<Rightarrow> string list \<Rightarrow> 'c) \<Rightarrow> string \<Rightarrow> string \<Rightarrow> error + 'c" where
  "tls_server files new_channel key_path cert_path =
     map_sum id (\<lambda>credentials. new_channel credentials allowed_signature_methods)
       (server_credentials files key_path cert_path)"

definition tls_client ::
    "('k, 'x, 's) botan_files \<Rightarrow>
     (('k, 'x, 's) credentials \<Rightarrow> string list \<Rightarrow> string \<times> u16 \<Rightarrow> 'c \<times> byte list list) \<Rightarrow> 'c \<times> byte list list" where
  "tls_client files new_channel =
     new_channel (client_credentials files) allowed_signature_methods (''botan.randombit.net'', 443)"

text \<open>A server that starts has a key for every certificate that it presents; one of the files missing is an exception.\<close>

lemma server_credentials_complete:
  "(\<exists>credentials. server_credentials files key_path cert_path = Inr credentials) \<longleftrightarrow>
    (\<exists>key. bf_load_key files key_path = Inr key) \<and> (\<exists>cert. bf_certificate files cert_path = Inr cert)"
  by (auto simp: server_credentials_def split: sum.splits)

lemma server_credentials_key:
  assumes "server_credentials files key_path cert_path = Inr credentials" and "cert \<in> set (cert_chain credentials ts t c)"
  shows "bf_certificate files cert_path = Inr cert \<and>
    (\<exists>key. bf_load_key files key_path = Inr key \<and> private_key_for credentials cert t c = Some key)"
  using assms by (auto simp: server_credentials_def split: sum.splits)

end
