(* ===== verification/Tls_Socket.thy ===== *)
theory Tls_Socket
  imports Tcp_Lifecycle Tls_Credentials
begin

text \<open>
  \<open>TlsSocket\<close> and \<open>TlsContext\<close> (\<open>include/yael/network/TlsSocket.h\<close>, \<open>src/network/TlsSocket.cpp\<close>,
  \<open>src/network/TlsContext.h\<close>, \<open>src/network/TlsContext.cpp\<close>): a \<open>TcpSocket\<close> whose data passes through
  a Botan channel.

  The channel is a parameter: the record \<open>botan\<close> says, for a channel state of type \<open>'c\<close>, which
  callbacks \<open>received_data\<close> makes, which data \<open>send\<close> and \<open>close\<close> emit, and whether \<open>send\<close> throws.  The
  callbacks are the methods of \<open>TlsContext\<close>; they run in order until one of them throws.  The context
  and the socket own each other, so that their states form one record, an extension of the one of
  \<open>TcpSocket\<close>.  Its \<open>m_state\<close> is hidden by the member of the same name of \<open>TlsSocket\<close>, here \<open>tls_state\<close>.
\<close>

section \<open>State\<close>

datatype ProtocolType = TCP | TLS

fun protocol_type_name :: "ProtocolType \<Rightarrow> string" where
  "protocol_type_name TCP = ''TCP''"
| "protocol_type_name TLS = ''TLS''"

datatype tls_state = TlsUnknown | TlsListening | TlsSetup | TlsConnected | TlsShutdown | TlsClosed

datatype tls_callback =
    EmitData "byte list"        \<comment> \<open>\<open>tls_emit_data\<close>\<close>
  | RecordReceived "byte list"  \<comment> \<open>\<open>tls_record_received\<close>\<close>
  | TlsAlert bool               \<comment> \<open>\<open>tls_alert\<close>, and whether it is a close notification\<close>
  | SessionEstablished          \<comment> \<open>\<open>tls_session_established\<close>\<close>

record 'c botan =
  bc_server :: "string \<Rightarrow> string \<Rightarrow> error + 'c"
  bc_client :: "'c \<times> byte list list"
  bc_received :: "'c \<Rightarrow> byte list \<Rightarrow> 'c \<times> tls_callback list"
  bc_send :: "'c \<Rightarrow> byte list \<Rightarrow> 'c \<times> byte list list option"
  bc_close :: "'c \<Rightarrow> 'c \<times> byte list list"

record 'c tls_socket = tcp_socket +
  tls_key_path :: string
  tls_cert_path :: string
  tls_channel :: "'c option"
  tls_buffer :: buffer_t
  tls_state :: tls_state

definition tls_is_connected :: "'c tls_socket \<Rightarrow> bool" where
  "tls_is_connected s \<longleftrightarrow> tls_state s = TlsConnected"

definition tls_new :: "MessageMode \<Rightarrow> string \<Rightarrow> string \<Rightarrow> u64 \<Rightarrow> 'c tls_socket" where
  "tls_new mode key_path cert_path max_send_queue_size =
     tcp_socket.extend (tcp_new mode max_send_queue_size)
       \<lparr>tls_key_path = key_path, tls_cert_path = cert_path, tls_channel = None, tls_buffer = buffer_new,
        tls_state = TlsUnknown\<rparr>"

definition tls_new_child ::
    "'c botan \<Rightarrow> os \<Rightarrow> inet \<Rightarrow> MessageMode \<Rightarrow> int \<Rightarrow> string \<Rightarrow> string \<Rightarrow> u64 \<Rightarrow> error + 'c tls_socket" where
  "tls_new_child ch os net mode fd key_path cert_path max_send_queue_size =
     (case bc_server ch key_path cert_path of
        Inl e \<Rightarrow> Inl e
      | Inr c \<Rightarrow>
        Inr (tcp_socket.extend (tcp_new_child os net mode fd max_send_queue_size)
          \<lparr>tls_key_path = key_path, tls_cert_path = cert_path, tls_channel = Some c,
           tls_buffer = buffer_new, tls_state = TlsSetup\<rparr>))"

section \<open>Emitting and closing\<close>

text \<open>
  \<open>tls_emit_data\<close> and \<open>close\<close> call each other: emitting closes the socket on an error, and closing a
  connected socket makes the channel emit its notification.  The state is \<open>Shutdown\<close> from then on, so that a
  nested \<open>close\<close> takes the other branch, \<open>tls_close_now\<close>.
\<close>

partial_function (option) tls_emit_loop ::
    "os \<Rightarrow> ('s tcp_socket_scheme \<Rightarrow> ('s tcp_socket_scheme, bool) outcome option) \<Rightarrow> byte list \<Rightarrow> u32 \<Rightarrow>
     's tcp_socket_scheme \<Rightarrow> ('s tcp_socket_scheme, unit) outcome option" where
  "tls_emit_loop os close data sent s =
     (if unat sent < length data then
        let x = os_write os (trace s) (m_fd s) (drop (unat sent) data);
            s = sys (SysWrite (m_fd s) (drop (unat sent) data) x) s
        in case x of
             WriteN n \<Rightarrow>
               if 0 < n then tls_emit_loop os close data (sent + of_nat n) s
               else Option.bind (close s) (\<lambda>(r, s). Some (map_sum id (\<lambda>_. ()) r, s))
           | WriteErr e \<Rightarrow>
               if e = EAGAIN \<or> e = ECONNRESET then tls_emit_loop os close data sent s
               else Option.bind (close s) (\<lambda>(r, s).
                 case r of
                   Inl err \<Rightarrow> Some (Inl err, s)
                 | Inr _ \<Rightarrow> Some (if e = EPIPE then Inr () else Inl (SocketError ''strerror''), s))
      else Some (Inr (), s))"

definition tls_close_now :: "os \<Rightarrow> bool \<Rightarrow> 'c tls_socket \<Rightarrow> ('c tls_socket, bool) outcome" where
  "tls_close_now os fast s = tcp_close os fast (s\<lparr>tls_state := TlsClosed\<rparr>)"

fun tls_emit_all ::
    "('s \<Rightarrow> byte list \<Rightarrow> ('s, unit) outcome option) \<Rightarrow> byte list list \<Rightarrow> 's \<Rightarrow> ('s, unit) outcome option" where
  "tls_emit_all emit [] s = Some (Inr (), s)"
| "tls_emit_all emit (d # ds) s =
     Option.bind (emit s d) (\<lambda>(r, s). case r of Inl e \<Rightarrow> Some (Inl e, s) | Inr _ \<Rightarrow> tls_emit_all emit ds s)"

definition tls_close :: "'c botan \<Rightarrow> os \<Rightarrow> bool \<Rightarrow> 'c tls_socket \<Rightarrow> ('c tls_socket, bool) outcome option" where
  "tls_close ch os fast s =
     (case tls_channel s of
        Some c \<Rightarrow>
          if tls_state s = TlsConnected \<and> \<not> fast then
            (case bc_close ch c of (c, ds) \<Rightarrow>
               Option.bind
                 (tls_emit_all (\<lambda>s d. tls_emit_loop os (\<lambda>s. Some (tls_close_now os False s)) d 0 s) ds
                   (s\<lparr>tls_state := TlsShutdown, tls_channel := Some c\<rparr>))
                 (\<lambda>(r, s). Some (map_sum id (\<lambda>_. False) r, s)))
          else Some (tls_close_now os fast s)
      | None \<Rightarrow> Some (tls_close_now os fast s))"

text \<open>The destructor closes fast.\<close>

definition tls_destroy :: "'c botan \<Rightarrow> os \<Rightarrow> 'c tls_socket \<Rightarrow> ('c tls_socket, bool) outcome option" where
  "tls_destroy ch os s = tls_close ch os True s"

definition tls_emit_data :: "'c botan \<Rightarrow> os \<Rightarrow> 'c tls_socket \<Rightarrow> byte list \<Rightarrow> ('c tls_socket, unit) outcome option" where
  "tls_emit_data ch os s data = tls_emit_loop os (tls_close ch os False) data 0 s"

section \<open>Setting up\<close>

text \<open>
  The closer that the methods of \<open>TcpSocket\<close> call: they close fast, or while the socket is not connected.
\<close>

partial_function (option) tls_accept_loop ::
    "'c botan \<Rightarrow> os \<Rightarrow> inet \<Rightarrow> 'c tls_socket list \<Rightarrow> 'c tls_socket \<Rightarrow>
     ('c tls_socket, 'c tls_socket list) outcome option" where
  "tls_accept_loop ch os net res s =
     (case tcp_internal_accept os (tls_close_now os) s of
        (Inl e, s) \<Rightarrow> Some (Inl e, s)
      | (Inr fd, s) \<Rightarrow>
        if fd \<ge> 0 then
          (case tls_new_child ch os net (slicer_type (m_slicer s)) fd (tls_key_path s) (tls_cert_path s)
                  (m_max_send_queue_size s) of
             Inl e \<Rightarrow> Some (Inl e, s)
           | Inr child \<Rightarrow> tls_accept_loop ch os net (res @ [child]) s)
        else Some (Inr res, s))"

definition tls_accept ::
    "'c botan \<Rightarrow> os \<Rightarrow> inet \<Rightarrow> 'c tls_socket \<Rightarrow> ('c tls_socket, 'c tls_socket list) outcome option" where
  "tls_accept ch os net s =
     (if \<not> tcp_is_listening s
      then Some (Inl (SocketError ''Cannot accept on connected TcpTcpSocket''), s)
      else tls_accept_loop ch os net [] s)"

definition tls_connect ::
    "'c botan \<Rightarrow> os \<Rightarrow> inet \<Rightarrow> Address \<Rightarrow> string \<Rightarrow> 'c tls_socket \<Rightarrow> ('c tls_socket, bool) outcome option" where
  "tls_connect ch os net address name s =
     (case tcp_connect_with os net (tls_close_now os) address name s of
        (Inl e, s) \<Rightarrow> Some (Inl e, s)
      | (Inr connected, s) \<Rightarrow>
        if \<not> connected then Some (Inr False, s)
        else
          (case bc_client ch of (c, ds) \<Rightarrow>
             Option.bind (tls_emit_all (tls_emit_data ch os) ds s) (\<lambda>(r, s).
               case r of
                 Inl e \<Rightarrow> Some (Inl e, s)
               | Inr _ \<Rightarrow> Some (Inr True, s\<lparr>tls_channel := Some c\<rparr>))))"

text \<open>\<open>wait_connected\<close> returns when its condition holds; \<open>None\<close> is a thread that waits.\<close>

definition tls_wait_connected :: "'c tls_socket \<Rightarrow> unit option" where
  "tls_wait_connected s = (if tls_is_connected s then Some () else None)"

definition tls_wait_connection_established :: "'c tls_socket \<Rightarrow> (error + bool) option" where
  "tls_wait_connection_established s =
     (case tls_channel s of
        None \<Rightarrow> Some (Inl MemoryFault)
      | Some _ \<Rightarrow> Option.bind (tls_wait_connected s) (\<lambda>_. Some (Inr (tls_is_connected s))))"

definition tls_listen ::
    "os \<Rightarrow> inet \<Rightarrow> Address \<Rightarrow> u32 \<Rightarrow> 'c tls_socket \<Rightarrow> ('c tls_socket, bool) outcome" where
  "tls_listen os net address queue_len s = tcp_listen os net address queue_len (s\<lparr>tls_state := TlsListening\<rparr>)"

section \<open>Sending\<close>

definition tls_channel_send ::
    "'c botan \<Rightarrow> os \<Rightarrow> byte list \<Rightarrow> 'c tls_socket \<Rightarrow> ('c tls_socket, unit) outcome option" where
  "tls_channel_send ch os data s =
     (case tls_channel s of
        None \<Rightarrow> Some (Inl MemoryFault, s)
      | Some c \<Rightarrow>
        (case bc_send ch c data of
           (c, None) \<Rightarrow> Some (Inl (RuntimeError ''channel''), s\<lparr>tls_channel := Some c\<rparr>)
         | (c, Some ds) \<Rightarrow> tls_emit_all (tls_emit_data ch os) ds (s\<lparr>tls_channel := Some c\<rparr>)))"

definition tls_context_send ::
    "'c botan \<Rightarrow> os \<Rightarrow> byte list \<Rightarrow> u32 \<Rightarrow> 'c tls_socket \<Rightarrow> ('c tls_socket, unit) outcome option" where
  "tls_context_send ch os data len s =
     (let header = len + 4 in
      Option.bind (tls_channel_send ch os (le_bytes header) s) (\<lambda>(r, s).
        case r of
          Inl e \<Rightarrow> Some (Inl e, s)
        | Inr _ \<Rightarrow>
          (case mem_read data 0 (unat len) of
             None \<Rightarrow> Some (Inl MemoryFault, s)
           | Some bs \<Rightarrow> tls_channel_send ch os bs s)))"

definition tls_do_send :: "os \<Rightarrow> 'c tls_socket \<Rightarrow> ('c tls_socket, bool) outcome option" where
  "tls_do_send os s = tcp_do_send os (tls_close_now os) s"

definition tls_send ::
    "'c botan \<Rightarrow> os \<Rightarrow> byte list \<Rightarrow> u32 \<Rightarrow> bool \<Rightarrow> 'c tls_socket \<Rightarrow> ('c tls_socket, bool) outcome option" where
  "tls_send ch os data len async s =
     (if tls_state s \<noteq> TlsConnected then Some (Inr False, s)
      else
        Option.bind (tls_context_send ch os data len s) (\<lambda>(r, s).
          case r of
            Inl MemoryFault \<Rightarrow> Some (Inl MemoryFault, s)
          | Inl (Fatal msg) \<Rightarrow> Some (Inl (Fatal msg), s)
          | Inl _ \<Rightarrow> Option.bind (tls_close ch os False s) (\<lambda>(r, s). Some (map_sum id (\<lambda>_. False) r, s))
          | Inr _ \<Rightarrow> if async then Some (Inr True, s) else tls_do_send os s))"

text \<open>The overloads for owned and shared arrays send the same bytes.\<close>

definition tls_send_unique where
  "tls_send_unique ch os data len async s = tls_send ch os data len async s"

definition tls_send_shared where
  "tls_send_shared ch os data len async s = tls_send ch os data len async s"

section \<open>Receiving\<close>

text \<open>The loop of \<open>tls_record_received\<close> over what is left of the record.\<close>

function tls_record_loop :: "byte list \<Rightarrow> slicer \<Rightarrow> (slicer, unit) outcome" where
  "tls_record_loop data sl =
     (if data = [] then (Inr (), sl)
      else if buffer_is_valid (slicer_buffer sl) then (Inl (RuntimeError ''Invalid state''), sl)
      else
        let cpy_size = min MAX_SIZE (length data) in
        case slicer_process_buffer (slicer_set_buffer (buffer_fill (take cpy_size data) (slicer_buffer sl)) sl) of
          (Inl e, sl) \<Rightarrow> (Inl e, sl)
        | (Inr _, sl) \<Rightarrow> tls_record_loop (drop cpy_size data) sl)"
  by pat_completeness auto
termination
  by (relation "measure (\<lambda>(data, sl). length data)") (auto simp: MAX_SIZE_def)

declare tls_record_loop.simps [simp del]

definition tls_record_received :: "byte list \<Rightarrow> 'c tls_socket \<Rightarrow> ('c tls_socket, unit) outcome" where
  "tls_record_received data s =
     (case tls_record_loop data (m_slicer s) of (r, sl) \<Rightarrow> (r, s\<lparr>m_slicer := sl\<rparr>))"

definition tls_alert :: "os \<Rightarrow> bool \<Rightarrow> 'c tls_socket \<Rightarrow> ('c tls_socket, unit) outcome" where
  "tls_alert os close_notify s =
     (if close_notify then (case tls_close_now os True s of (r, s) \<Rightarrow> (map_sum id (\<lambda>_. ()) r, s)) else (Inr (), s))"

definition tls_session_established :: "'c tls_socket \<Rightarrow> 'c tls_socket" where
  "tls_session_established s = s\<lparr>tls_state := TlsConnected\<rparr>"

fun tls_callbacks ::
    "'c botan \<Rightarrow> os \<Rightarrow> tls_callback list \<Rightarrow> 'c tls_socket \<Rightarrow> ('c tls_socket, unit) outcome option" where
  "tls_callbacks ch os [] s = Some (Inr (), s)"
| "tls_callbacks ch os (cb # cbs) s =
     Option.bind
       (case cb of
          EmitData d \<Rightarrow> tls_emit_data ch os s d
        | RecordReceived d \<Rightarrow> Some (tls_record_received d s)
        | TlsAlert close_notify \<Rightarrow> Some (tls_alert os close_notify s)
        | SessionEstablished \<Rightarrow> Some (Inr (), tls_session_established s))
       (\<lambda>(r, s). case r of Inl e \<Rightarrow> Some (Inl e, s) | Inr _ \<Rightarrow> tls_callbacks ch os cbs s)"

definition tls_process_data :: "'c botan \<Rightarrow> os \<Rightarrow> 'c tls_socket \<Rightarrow> ('c tls_socket, unit) outcome option" where
  "tls_process_data ch os s =
     (case (tls_channel s, mem_read (buffer_data (tls_buffer s)) 0 (unat (buffer_size (tls_buffer s)))) of
        (Some c, Some bs) \<Rightarrow>
          (case bc_received ch c bs of (c, cbs) \<Rightarrow> tls_callbacks ch os cbs (s\<lparr>tls_channel := Some c\<rparr>))
      | _ \<Rightarrow> Some (Inl MemoryFault, s))"

definition tls_set_buffer :: "buffer_t \<Rightarrow> 'c tls_socket \<Rightarrow> 'c tls_socket" where
  "tls_set_buffer b s = s\<lparr>tls_buffer := b\<rparr>"

partial_function (option) tls_pull_messages ::
    "'c botan \<Rightarrow> os \<Rightarrow> 'c tls_socket \<Rightarrow> ('c tls_socket, unit) outcome option" where
  "tls_pull_messages ch os s =
     (case tcp_receive_data os (tls_close_now os) tls_buffer tls_set_buffer s of
        (Inl e, s) \<Rightarrow> Some (Inl e, s)
      | (Inr res, s) \<Rightarrow>
        if \<not> res then Some (Inr (), s)
        else
          Option.bind (tls_process_data ch os s) (\<lambda>(r, s).
            case r of
              Inl e \<Rightarrow> Some (Inl e, s)
            | Inr _ \<Rightarrow> tls_pull_messages ch os (tls_set_buffer (buffer_reset (tls_buffer s)) s)))"

text \<open>\<open>TcpSocket::receive\<close> with the \<open>pull_messages\<close> of this class.\<close>

definition tls_receive :: "'c botan \<Rightarrow> os \<Rightarrow> 'c tls_socket \<Rightarrow> ('c tls_socket, message_in_t option) outcome option" where
  "tls_receive ch os s =
     Option.bind (tls_pull_messages ch os s) (\<lambda>(r, s). Some
       (case r of
          Inl e \<Rightarrow> (Inl e, s)
        | Inr _ \<Rightarrow>
          if slicer_has_messages (m_slicer s) then
            (case slicer_get_message (m_slicer s) of
               (None, sl) \<Rightarrow> (Inl (SocketError ''failed to get message''), s\<lparr>m_slicer := sl\<rparr>)
             | (Some msg, sl) \<Rightarrow> (Inr (Some msg), s\<lparr>m_slicer := sl\<rparr>))
          else (Inr None, s)))"

section \<open>Records and messages\<close>

text \<open>
  A part of a frame, at the place where it belongs, is taken in completely: it is added to the
  incomplete message, or it completes the message.
\<close>

definition part_taken :: "byte list \<Rightarrow> byte list \<Rightarrow> byte list \<Rightarrow> slicer \<Rightarrow> slicer \<Rightarrow> bool" where
  "part_taken m part rest sl sl' \<longleftrightarrow> slicer_idle Datagram sl' \<and>
     (if rest = [] then slicer_msgs sl' = slicer_msgs sl @ [m] \<and> slicer_pending sl' = []
      else slicer_msgs sl' = slicer_msgs sl \<and> slicer_pending sl' = slicer_pending sl @ part)"

lemma part_processed:
  assumes "slicer_idle Datagram sl" and "valid_payload m" and fr: "slicer_pending sl @ part @ rest = frame m"
    and "part \<noteq> []" and "length part \<le> MAX_SIZE"
  shows "\<exists>sl'. slicer_process_buffer (slicer_set_buffer (buffer_fill part (slicer_buffer sl)) sl) = (Inr (), sl') \<and>
    part_taken m part rest sl sl'"
proof -
  obtain d where sl: "sl = DatagramSlicer d" and d: "dg_inv d" "\<not> buffer_is_valid (dg_buffer d)"
    using assms(1) by (cases sl) (auto simp: slicer_idle_def)
  let ?d = "dg_set_buffer (buffer_fill part (dg_buffer d)) d"
  note fill = dg.fill_buffer [OF d assms(4,5)]
  define w where "w = dg_pending d @ part"
  have w: "dg_pending ?d @ unread (dg_buffer ?d) = w" using fill by (simp add: w_def)
  have wr: "w @ rest = frame m" using fr sl by (simp add: w_def)
  have n: "frame_length w = length m + 4" if "4 \<le> length w"
    using that frame_length_frame [OF assms(2), of "[]"] wr by (metis append_Nil2 frame_length_append)
  have len: "length w + length rest = length m + 4" using arg_cong [OF wr, of length] by (simp add: frame_def)
  have m: "m \<noteq> []" using assms(2) by (simp add: valid_payload_def)
  obtain r d' where p: "dg_process_buffer ?d = (r, d')" by force
  have spec: "dg_step_spec w (dg_msgs d) (r, d')"
    using dg_process_buffer_spec [OF fill(1,2)] unfolding w fill(4) p .
  show ?thesis
  proof (cases "rest = []")
    case True
    then have "frame_length w = length m + 4" "w = frame m" using n len wr by simp_all
    then have "r = Inr () \<and> part_taken m part rest sl (DatagramSlicer d')"
      using spec True m sl by (simp add: dg_step_spec_def part_taken_def slicer_idle_def frame_def)
    then show ?thesis using p sl by simp
  next
    case False
    then have "length w < length m + 4" using len by (cases rest) simp_all
    then have "length w < 4 \<or> 4 < frame_length w \<and> length w < frame_length w"
      using n m by (cases "length w < 4") simp_all
    then have "r = Inr () \<and> part_taken m part rest sl (DatagramSlicer d')"
      using spec False sl by (simp add: dg_step_spec_def part_taken_def slicer_idle_def w_def)
    then show ?thesis using p sl by simp
  qed
qed

lemma record_taken:
  assumes "slicer_idle Datagram sl" and "valid_payload m" and "slicer_pending sl @ data @ rest = frame m" and "data \<noteq> []"
  shows "\<exists>sl'. tls_record_loop data sl = (Inr (), sl') \<and> part_taken m data rest sl sl'"
  using assms
proof (induction data sl rule: tls_record_loop.induct)
  case (1 data sl)
  let ?n = "min MAX_SIZE (length data)"
  let ?part = "take ?n data" and ?more = "drop ?n data"
  have part: "?part \<noteq> []" "length ?part \<le> MAX_SIZE" using 1(5) by (auto simp: MAX_SIZE_def)
  have split: "?part @ ?more = data" by simp
  have nb: "\<not> buffer_is_valid (slicer_buffer sl)" using 1(2) by (simp add: slicer_idle_def)
  have fr: "slicer_pending sl @ ?part @ ?more @ rest = frame m" using 1(4) by (metis append.assoc split)
  obtain sl1 where s1: "slicer_process_buffer (slicer_set_buffer (buffer_fill ?part (slicer_buffer sl)) sl) = (Inr (), sl1)"
      "part_taken m ?part (?more @ rest) sl sl1"
    using part_processed [OF 1(2,3) fr part] by blast
  have eq: "tls_record_loop data sl = tls_record_loop ?more sl1"
    using nb s1(1) 1(5) by (subst tls_record_loop.simps) (simp add: Let_def)
  show ?case
  proof (cases "?more = []")
    case True
    then have "?part = data" using split by simp
    then show ?thesis using eq True s1(2) by (simp add: tls_record_loop.simps)
  next
    case False
    then have p: "slicer_idle Datagram sl1" "slicer_msgs sl1 = slicer_msgs sl" "slicer_pending sl1 = slicer_pending sl @ ?part"
      using s1(2) by (auto simp: part_taken_def)
    have "slicer_pending sl1 @ ?more @ rest = frame m" using fr p(3) by simp
    then obtain sl' where "tls_record_loop ?more sl1 = (Inr (), sl')" "part_taken m ?more rest sl1 sl'"
      using 1(1) [OF 1(5) nb refl s1(1) [symmetric] refl p(1) 1(3) _ False] by blast
    then show ?thesis using eq p split by (auto simp: part_taken_def)
  qed
qed

lemma tls_record_callback:
  "tls_record_loop data (m_slicer s) = (Inr (), sl) \<Longrightarrow>
   tls_callbacks ch os (RecordReceived data # cbs) s = tls_callbacks ch os cbs (s\<lparr>m_slicer := sl\<rparr>)"
  by (simp add: tls_record_received_def)

section \<open>Emitting\<close>

text \<open>The kernel asks the context to try again at most \<open>k\<close> times in this history.\<close>

fun retry_event :: "sysevent \<Rightarrow> bool" where
  "retry_event (SysWrite fd bs (WriteErr e)) \<longleftrightarrow> e = EAGAIN \<or> e = ECONNRESET"
| "retry_event _ \<longleftrightarrow> False"

definition write_live :: "os \<Rightarrow> nat \<Rightarrow> bool" where
  "write_live os k \<longleftrightarrow> (\<forall>h fd bs e. k \<le> length (filter retry_event h) \<longrightarrow> os_write os h fd bs = WriteErr e \<longrightarrow>
     e \<noteq> EAGAIN \<and> e \<noteq> ECONNRESET)"

text \<open>
  Everything is written; or a part of it, and then the socket is closed, with an exception unless the
  peer has closed the connection.
\<close>

definition emitted ::
    "('s tcp_socket_scheme \<Rightarrow> ('s tcp_socket_scheme, bool) outcome option) \<Rightarrow> byte list \<Rightarrow> 's tcp_socket_scheme \<Rightarrow>
     ('s tcp_socket_scheme, unit) outcome \<Rightarrow> bool" where
  "emitted close data s y \<longleftrightarrow> (\<exists>h. (y = (Inr (), s\<lparr>trace := trace s @ h\<rparr>) \<and> bytes_sent h = data) \<or>
     (\<exists>q. close (s\<lparr>trace := trace s @ h\<rparr>) = Some (q, snd y) \<and> (\<exists>rest. rest \<noteq> [] \<and> bytes_sent h @ rest = data) \<and>
       (case q of Inl e \<Rightarrow> fst y = Inl e | Inr _ \<Rightarrow> fst y \<in> {Inr (), Inl (SocketError ''strerror'')})))"

lemma map_sum_const: "map_sum id (\<lambda>_. c) r = (case r of Inl e \<Rightarrow> Inl e | Inr _ \<Rightarrow> Inr c)"
  by (cases r) simp_all

lemma emitted_step:
  assumes "emitted close data (sys e s) y"
  shows "emitted close (sent_by e @ data) s y"
proof -
  have tr: "(sys e s)\<lparr>trace := trace (sys e s) @ h\<rparr> = s\<lparr>trace := trace s @ e # h\<rparr>" for h by (simp add: sys_def)
  have bs: "bytes_sent (e # h) = sent_by e @ bytes_sent h" for h by (simp add: bytes_sent_def)
  from assms obtain h where
    "(y = (Inr (), s\<lparr>trace := trace s @ e # h\<rparr>) \<and> bytes_sent h = data) \<or>
     (\<exists>q. close (s\<lparr>trace := trace s @ e # h\<rparr>) = Some (q, snd y) \<and> (\<exists>rest. rest \<noteq> [] \<and> bytes_sent h @ rest = data) \<and>
       (case q of Inl e \<Rightarrow> fst y = Inl e | Inr _ \<Rightarrow> fst y \<in> {Inr (), Inl (SocketError ''strerror'')}))"
    unfolding emitted_def tr by blast
  then show ?thesis unfolding emitted_def by (intro exI [of _ "e # h"]) (auto simp: bs)
qed

lemma emitted_close:
  assumes "\<And>u. close u \<noteq> None" and "sent_by e = []" and "bs \<noteq> []"
    and "x = Option.bind (close (sys e s)) (\<lambda>(r, s). Some (case r of Inl err \<Rightarrow> Inl err | Inr _ \<Rightarrow> res, s))"
    and "res \<in> {Inr (), Inl (SocketError ''strerror'')}"
  shows "\<exists>y. x = Some y \<and> emitted close bs s y"
proof -
  obtain q u where q: "close (sys e s) = Some (q, u)" using assms(1) [of "sys e s"] by (cases "close (sys e s)") auto
  then show ?thesis using assms(2-5)
    by (auto simp: emitted_def sys_def intro!: exI [of _ "[e]"] split: sum.split)
qed

lemma tls_emit_loop_total:
  assumes "write_bounded os" and "write_live os k" and "\<And>u. close u \<noteq> None" and "length data < 2 ^ 32"
    and "unat sent \<le> length data"
  shows "\<exists>y. tls_emit_loop os close data sent s = Some y \<and> emitted close (drop (unat sent) data) s y"
  using assms(5)
proof (induction "(sent, s)" arbitrary: sent s rule: wf_induct_rule [OF wf_measures [of
      "[\<lambda>(sent, s). k - length (filter retry_event (trace s)), \<lambda>(sent, s). length data - unat sent]"]])
  case (1 sent s)
  let ?bs = "drop (unat sent) data"
  define x where "x = os_write os (trace s) (m_fd s) ?bs"
  define e where "e = SysWrite (m_fd s) ?bs x"
  show ?case
  proof (cases "unat sent < length data")
    case False
    then show ?thesis
      by (subst tls_emit_loop.simps) (auto simp: emitted_def intro!: exI [of _ "[]"])
  next
    case True
    note loop = tls_emit_loop.simps [of os close data sent s, unfolded Let_def, folded x_def, folded e_def]
    from True have "?bs \<noteq> []" by simp
    note closing = emitted_close [where x = "tls_emit_loop os close data sent s", OF assms(3) _ this]
    show ?thesis
    proof (cases x)
      case (WriteN n)
      show ?thesis
      proof (cases "n = 0")
        case True
        then show ?thesis using WriteN \<open>unat sent < length data\<close> loop
          by (intro closing [where res = "Inr ()" and e = e]) (simp_all add: e_def map_sum_const)
      next
        case False
        have n: "n \<le> length data - unat sent" using write_boundedD [OF assms(1), of "trace s" "m_fd s" ?bs n] WriteN x_def by simp
        then have u: "unat (sent + of_nat n) = unat sent + n"
          using assms(4) True by (simp add: unat_word_ariths unat_of_nat)
        have lt: "((sent + of_nat n, sys e s), (sent, s)) \<in> measures [\<lambda>(sent, s). k - length (filter retry_event (trace s)),
            \<lambda>(sent, s). length data - unat sent]"
          using WriteN False n u True by (simp add: e_def)
        have "tls_emit_loop os close data sent s = tls_emit_loop os close data (sent + of_nat n) (sys e s)"
          using loop WriteN False True by simp
        moreover have "sent_by e @ drop (unat (sent + of_nat n)) data = ?bs"
          using WriteN u by (simp add: e_def add.commute flip: drop_drop)
        ultimately show ?thesis
          using 1(1) [OF lt] u n True emitted_step [of close "drop (unat (sent + of_nat n)) data" e s] by fastforce
      qed
    next
      case (WriteErr err)
      show ?thesis
      proof (cases "err = EAGAIN \<or> err = ECONNRESET")
        case True
        have "length (filter retry_event (trace s)) < k"
          using assms(2) True WriteErr x_def unfolding write_live_def by (metis not_less)
        then have lt: "((sent, sys e s), (sent, s)) \<in> measures [\<lambda>(sent, s). k - length (filter retry_event (trace s)),
            \<lambda>(sent, s). length data - unat sent]"
          using WriteErr True by (simp add: e_def)
        have "tls_emit_loop os close data sent s = tls_emit_loop os close data sent (sys e s)"
          using loop WriteErr True \<open>unat sent < length data\<close> by simp
        then show ?thesis
          using 1(1) [OF lt 1(2)] emitted_step [of close ?bs e s] WriteErr by (fastforce simp: e_def)
      next
        case False
        then show ?thesis using WriteErr \<open>unat sent < length data\<close> loop
          by (intro closing [where res = "if err = EPIPE then Inr () else Inl (SocketError ''strerror'')" and e = e])
            (auto simp: e_def split: sum.splits intro!: arg_cong [of _ _ "Option.bind _"])
      qed
    qed
  qed
qed

text \<open>The data that the channel emits comes in portions whose size fits in 32 bits.\<close>

definition small_chunks :: "byte list list \<Rightarrow> bool" where
  "small_chunks ds \<longleftrightarrow> (\<forall>d \<in> set ds. length d < 2 ^ 32)"

definition channel_ok :: "'c botan \<Rightarrow> bool" where
  "channel_ok ch \<longleftrightarrow> (\<forall>c. small_chunks (snd (bc_close ch c))) \<and> (\<forall>c bs ds. snd (bc_send ch c bs) = Some ds \<longrightarrow> small_chunks ds)"

text \<open>
  A socket that has been closed, or that is being closed, does not become connected by it.  The send
  queue of the base class stays empty: everything is written by the channel.
\<close>

definition idle_queue :: "'a tcp_socket_scheme \<Rightarrow> bool" where
  "idle_queue s \<longleftrightarrow> m_current_message s = None \<and> m_send_queue s = []"

definition gone :: "'c tls_socket \<Rightarrow> 'c tls_socket \<Rightarrow> bool" where
  "gone s u \<longleftrightarrow> tls_state u \<noteq> TlsConnected \<and> (idle_queue s \<longrightarrow> idle_queue u)"

lemma gone_trans: "gone s t \<Longrightarrow> gone t u \<Longrightarrow> gone s u"
  by (simp add: gone_def)

lemma gone_frame [simp]:
  "gone (s\<lparr>trace := h\<rparr>) u = gone s u" "gone s (u\<lparr>trace := h\<rparr>) = gone s u"
  "gone (s\<lparr>tls_channel := c\<rparr>) u = gone s u" "gone s (u\<lparr>tls_channel := c\<rparr>) = gone s u"
  "gone (s\<lparr>tls_state := st\<rparr>) u = gone s u"
  by (simp_all add: gone_def idle_queue_def)

lemma gone_now: "gone s (snd (tls_close_now os fast s))"
  by (simp add: gone_def idle_queue_def tls_close_now_def tcp_close_def Let_def sys_def tcp_reset_buffer_def
      split: option.split)

lemma emitted_gone:
  assumes "emitted close data s y" and "\<forall>s q u. close s = Some (q, u) \<longrightarrow> gone s u"
  shows "(\<exists>h. y = (Inr (), s\<lparr>trace := trace s @ h\<rparr>) \<and> bytes_sent h = data) \<or> gone s (snd y)"
  using assms unfolding emitted_def by (metis gone_frame(1))

lemma tls_emit_all_total:
  assumes "small_chunks ds"
    and emit: "\<forall>s d. length d < 2 ^ 32 \<longrightarrow> (\<exists>y. emit s d = Some y \<and> emitted close d s y)"
    and close: "\<forall>s q u. close s = Some (q, u) \<longrightarrow> gone s u"
  shows "\<exists>r s'. tls_emit_all emit ds s = Some (r, s') \<and>
    (r = Inr () \<and> (\<exists>h. s' = s\<lparr>trace := trace s @ h\<rparr> \<and> bytes_sent h = concat ds) \<or> gone s s')"
  using assms(1)
proof (induction ds arbitrary: s)
  case Nil
  then show ?case by (auto intro!: exI [of _ "[]"])
next
  case (Cons d ds)
  obtain r s1 where y: "emit s d = Some (r, s1)" "emitted close d s (r, s1)"
    using emit Cons.prems by (force simp: small_chunks_def)
  obtain r' s' where ih: "tls_emit_all emit ds s1 = Some (r', s')"
      "r' = Inr () \<and> (\<exists>h. s' = s1\<lparr>trace := trace s1 @ h\<rparr> \<and> bytes_sent h = concat ds) \<or> gone s1 s'"
    using Cons.IH [of s1] Cons.prems by (auto simp: small_chunks_def)
  from emitted_gone [OF y(2) close] show ?case
  proof
    assume "\<exists>h. (r, s1) = (Inr (), s\<lparr>trace := trace s @ h\<rparr>) \<and> bytes_sent h = d"
    then obtain h where "r = Inr ()" "s1 = s\<lparr>trace := trace s @ h\<rparr>" "bytes_sent h = d" by blast
    then show ?thesis using y(1) ih by (auto intro!: exI [of _ "h @ _"])
  next
    assume g: "gone s (snd (r, s1))"
    then have "gone s s'" using ih(2) gone_trans [of s s1 s'] by auto
    then show ?thesis using y(1) ih(1) g by (cases r) auto
  qed
qed

lemma tls_close_total:
  assumes "write_bounded os" and "write_live os k" and "channel_ok ch"
  obtains r s' where "tls_close ch os fast s = Some (r, s')" "gone s s'"
proof (cases "tls_channel s \<noteq> None \<and> tls_state s = TlsConnected \<and> \<not> fast")
  case False
  then have "tls_close ch os fast s = Some (tls_close_now os fast s)" by (auto simp: tls_close_def split: option.splits)
  then show thesis using that gone_now [of s os fast] by (cases "tls_close_now os fast s") auto
next
  case True
  then obtain c where c: "tls_channel s = Some c" by blast
  obtain c' ds where ds: "bc_close ch c = (c', ds)" by force
  let ?close = "\<lambda>s. Some (tls_close_now os False s)"
  let ?emit = "\<lambda>s d. tls_emit_loop os ?close d 0 s" and ?s = "s\<lparr>tls_state := TlsShutdown, tls_channel := Some c'\<rparr>"
  have small: "small_chunks ds" using assms(3) ds unfolding channel_ok_def by (metis snd_conv)
  have emit: "\<exists>y. ?emit s d = Some y \<and> emitted ?close d s y" if "length d < 2 ^ 32" for s :: "'a tls_socket" and d
    using tls_emit_loop_total [OF assms(1,2) _ that, of ?close 0 s] by simp
  have now: "gone s u" if "?close s = Some (q, u)" for s :: "'a tls_socket" and q u
    using gone_now [of s os False] that by simp
  obtain r s' where r: "tls_emit_all ?emit ds ?s = Some (r, s')"
      "r = Inr () \<and> (\<exists>h. s' = ?s\<lparr>trace := trace ?s @ h\<rparr> \<and> bytes_sent h = concat ds) \<or> gone ?s s'"
    using tls_emit_all_total [of ds ?emit ?close ?s, OF small] emit now by blast
  then have "gone s s'" by (auto simp: gone_def idle_queue_def)
  then show thesis using r(1) True c ds by (intro that) (auto simp: tls_close_def)
qed

lemma tls_emit_data_total:
  assumes "write_bounded os" and "write_live os k" and "channel_ok ch" and "length data < 2 ^ 32"
  shows "\<exists>y. tls_emit_data ch os s data = Some y \<and> emitted (tls_close ch os False) data s y"
  using tls_emit_loop_total [OF assms(1,2) _ assms(4), of "tls_close ch os False" 0 s] tls_close_total [OF assms(1-3)]
  by (metis drop0 le0 option.distinct(1) tls_emit_data_def unat_0)

lemma tls_channel_send_total:
  assumes "write_bounded os" and "write_live os k" and "channel_ok ch"
  shows "\<exists>r s'. tls_channel_send ch os bs s = Some (r, s') \<and>
    ((\<exists>c c' ds h. tls_channel s = Some c \<and> bc_send ch c bs = (c', Some ds) \<and> r = Inr () \<and>
       s' = s\<lparr>tls_channel := Some c', trace := trace s @ h\<rparr> \<and> bytes_sent h = concat ds) \<or>
     (\<exists>c. s' = s\<lparr>tls_channel := c\<rparr>) \<and> (\<forall>c. tls_channel s = Some c \<longrightarrow> snd (bc_send ch c bs) = None) \<or>
     gone s s')"
proof (cases "tls_channel s")
  case None
  then show ?thesis by (auto simp: tls_channel_send_def intro!: exI [of _ None])
next
  case (Some c)
  obtain c' x where x: "bc_send ch c bs = (c', x)" by force
  show ?thesis
  proof (cases x)
    case None
    then show ?thesis using Some x by (auto simp: tls_channel_send_def)
  next
    case ds: (Some ds)
    have small: "small_chunks ds" using assms(3) x ds unfolding channel_ok_def by (metis snd_conv)
    have closed: "gone s u" if "tls_close ch os False s = Some (q, u)" for s q u
      using tls_close_total [OF assms, of False s] that by auto
    have "\<exists>r s'. tls_emit_all (tls_emit_data ch os) ds (s\<lparr>tls_channel := Some c'\<rparr>) = Some (r, s') \<and>
        (r = Inr () \<and> (\<exists>h. s' = s\<lparr>tls_channel := Some c', trace := trace s @ h\<rparr> \<and> bytes_sent h = concat ds) \<or> gone s s')"
      using tls_emit_all_total [OF small, of "tls_emit_data ch os" "tls_close ch os False" "s\<lparr>tls_channel := Some c'\<rparr>"]
        tls_emit_data_total [OF assms] closed by simp
    then show ?thesis using Some x ds by (auto simp: tls_channel_send_def)
  qed
qed

text \<open>What \<open>send\<close> does after the channel: it closes after an exception, and finds the queue empty.\<close>

lemma tls_do_send_idle: "idle_queue s \<Longrightarrow> tls_do_send os s = Some (Inr False, s)"
  by (simp add: tls_do_send_def tcp_do_send.simps tcp_next_message_def idle_queue_def)

lemma tls_send_gone:
  assumes "write_bounded os" and "write_live os k" and "channel_ok ch" and "tls_state s = TlsConnected" and "idle_queue s"
    and "tls_context_send ch os data len s = Some (r, s1)" and "gone s s1"
  shows "\<exists>r s'. tls_send ch os data len async s = Some (r, s') \<and> tls_state s' \<noteq> TlsConnected"
proof -
  obtain q u where c: "tls_close ch os False s1 = Some (q, u)" "gone s1 u" using tls_close_total [OF assms(1-3)] by blast
  show ?thesis
    using assms(4-7) c tls_do_send_idle [of s1 os]
    by (cases r) (auto simp: tls_send_def gone_def split: error.splits)
qed

lemma tls_context_send_gone:
  assumes "write_bounded os" and "write_live os k" and "channel_ok ch" and "unat len \<le> length data"
    and "tls_channel_send ch os (le_bytes (len + 4)) s = Some (r, s1)" and "gone s s1"
  shows "\<exists>r s'. tls_context_send ch os data len s = Some (r, s') \<and> gone s s'"
proof -
  obtain q u where c: "tls_channel_send ch os (take (unat len) data) s1 = Some (q, u)" "gone s u"
    using tls_channel_send_total [OF assms(1-3), of "take (unat len) data" s1] assms(6) gone_trans [OF assms(6)] by auto
  then show ?thesis using assms(4-6) by (cases r) (auto simp: tls_context_send_def mem_read_def)
qed

lemma tls_send_stays:
  assumes os: "write_bounded os" "write_live os k" "channel_ok ch"
    and s: "tls_state s = TlsConnected" "tls_channel s = Some c" "idle_queue s" and len: "unat len \<le> length data"
    and "bc_send ch c (le_bytes (len + 4)) = (c', Some ds)" and "bc_send ch c' (take (unat len) data) = (c'', Some ds')"
  shows "\<exists>r s'. tls_send ch os data len async s = Some (r, s') \<and>
    (tls_state s' = TlsConnected \<longrightarrow> r = Inr async \<and>
      (\<exists>h. s' = s\<lparr>tls_channel := Some c'', trace := trace s @ h\<rparr> \<and> bytes_sent h = concat ds @ concat ds'))"
proof -
  let ?bs = "take (unat len) data"
  note send = tls_channel_send_total [OF os] and gone = tls_send_gone [OF os s(1,3)]
  obtain r1 s1 where s1: "tls_channel_send ch os (le_bytes (len + 4)) s = Some (r1, s1)"
      "r1 = Inr () \<and> (\<exists>h. s1 = s\<lparr>tls_channel := Some c', trace := trace s @ h\<rparr> \<and> bytes_sent h = concat ds) \<or> gone s s1"
    using send [of "le_bytes (len + 4)" s] s(2) assms(8) by auto
  show ?thesis
  proof (cases "gone s s1")
    case True
    from tls_context_send_gone [OF os len s1(1) True]
    obtain r2 s2 where "tls_context_send ch os data len s = Some (r2, s2)" "gone s s2" by blast
    from gone [OF this] show ?thesis by blast
  next
    case False
    then obtain h where h: "r1 = Inr ()" "s1 = s\<lparr>tls_channel := Some c', trace := trace s @ h\<rparr>" "bytes_sent h = concat ds"
      using s1(2) by blast
    obtain r2 s2 where s2: "tls_channel_send ch os ?bs s1 = Some (r2, s2)"
        "r2 = Inr () \<and> (\<exists>h'. s2 = s1\<lparr>tls_channel := Some c'', trace := trace s1 @ h'\<rparr> \<and> bytes_sent h' = concat ds') \<or> gone s1 s2"
      using send [of ?bs s1] h(2) assms(9) by auto
    have ctx: "tls_context_send ch os data len s = Some (r2, s2)"
      using s1(1) h(1) s2(1) len by (simp add: tls_context_send_def mem_read_def)
    show ?thesis
    proof (cases "gone s1 s2")
      case True
      then have "gone s s2" using h(2) by simp
      from gone [OF ctx this] show ?thesis by blast
    next
      case False
      then obtain h' where h': "r2 = Inr ()" "s2 = s1\<lparr>tls_channel := Some c'', trace := trace s1 @ h'\<rparr>" "bytes_sent h' = concat ds'"
        using s2(2) by blast
      then have eq: "s2 = s\<lparr>tls_channel := Some c'', trace := trace s @ h @ h'\<rparr>" and idle: "idle_queue s2"
        using h(2) s(3) by (simp_all add: idle_queue_def)
      have "tls_send ch os data len async s = Some (Inr async, s2)"
        using ctx h'(1) s(1) tls_do_send_idle [OF idle, of os] by (simp add: tls_send_def)
      moreover have "bytes_sent (h @ h') = concat ds @ concat ds'" using h(3) h'(3) by simp
      ultimately show ?thesis using eq by blast
    qed
  qed
qed

section \<open>Properties\<close>

definition plain_channel :: "unit botan" where
  "plain_channel = \<lparr>bc_server = \<lambda>_ _. Inr (), bc_client = ((), []), bc_received = \<lambda>c bs. (c, [RecordReceived bs]),
     bc_send = \<lambda>c bs. (c, Some (map (\<lambda>b. [b]) bs)), bc_close = \<lambda>c. (c, [[0]])\<rparr>"

definition tls_example :: "unit tls_socket" where
  "tls_example = (tls_new Datagram [] [] 100)\<lparr>m_fd := 3, m_state := Connected, tls_state := TlsConnected, tls_channel := Some ()\<rparr>"

lemma tls_example [simp]:
  "m_slicer tls_example = make_slicer Datagram" "tls_state tls_example = TlsConnected" "tls_channel tls_example = Some ()"
  "m_current_message tls_example = None" "m_send_queue tls_example = []" "trace tls_example = []"
  by (simp_all add: tls_example_def tls_new_def tcp_socket.extend_def tcp_new_def)

text \<open>
  \<open>send\<close> on a connected TLS socket returns, as long as the kernel does not refuse data forever, and if
  the socket is still connected then everything that the channel made of the header and of the payload
  has been written, in order, and nothing is left to send.
\<close>

theorem tls_send_emits:
  assumes "write_bounded os" and "write_live os k" and "channel_ok ch"
    and "tls_state s = TlsConnected" and "tls_channel s = Some c"
    and "m_current_message s = None" and "m_send_queue s = []" and "unat len \<le> length data"
    and "bc_send ch c (le_bytes (len + 4)) = (c', Some ds)" and "bc_send ch c' (take (unat len) data) = (c'', Some ds')"
  shows "\<exists>r s'. tls_send ch os data len False s = Some (r, s') \<and>
    (tls_state s' = TlsConnected \<longrightarrow> r = Inr False \<and> tls_channel s' = Some c'' \<and>
      bytes_sent (trace s') = bytes_sent (trace s) @ concat ds @ concat ds')"
proof -
  have "idle_queue s" using assms(6,7) by (simp add: idle_queue_def)
  from tls_send_stays [OF assms(1-5) this assms(8-10), of False] show ?thesis by force
qed

lemma plain_channel_ok: "channel_ok plain_channel"
  by (auto simp: channel_ok_def small_chunks_def plain_channel_def)

lemma feeding_write_live: "write_live (feeding_os chunks) 0"
  by (simp add: write_live_def feeding_os_def)

theorem tls_send_emits_witness:
  "\<exists>r s'. tls_send plain_channel (feeding_os []) [7, 8] 2 False tls_example = Some (r, s') \<and>
    (tls_state s' = TlsConnected \<longrightarrow> bytes_sent (trace s') = [6, 0, 0, 0, 7, 8])"
proof -
  have "le_bytes 6 = [6, 0, 0, 0]" by (simp add: le_bytes_def)
  then show ?thesis
    using tls_send_emits [OF feeding_os(3) [of "[]"] feeding_write_live plain_channel_ok tls_example(2,3,4,5), of 2 "[7, 8]" "()"
        "[[6], [0], [0], [0]]" "()" "[[7], [8]]"]
    by (auto simp: plain_channel_def)
qed



text \<open>
  C40. A record that carries more than one message in datagram mode ends the connection's processing: unless the
  first message ends the last portion of the record, the next portion, or the next record, meets a
  loaded buffer and throws.
\<close>

theorem tls_record_overrun:
  assumes "slicer_idle Datagram (m_slicer s)" and "slicer_pending (m_slicer s) = []" and "valid_payload m"
    and "rest \<noteq> []" and "length (frame m @ rest) \<le> MAX_SIZE" and "data \<noteq> []"
  shows "\<exists>s'. tls_callbacks ch os [RecordReceived (frame m @ rest), RecordReceived data] s =
    Some (Inl (RuntimeError ''Invalid state''), s')"
proof -
  obtain d where d: "m_slicer s = DatagramSlicer d" "dg_inv d" "\<not> buffer_is_valid (dg_buffer d)" "dg_pending d = []"
    using assms(1,2) by (cases "m_slicer s") (auto simp: slicer_idle_def)
  let ?w = "frame m @ rest" and ?b = "buffer_fill (frame m @ rest) (dg_buffer d)"
  have ne: "?w \<noteq> []" using assms(4) by simp
  note fill = dg.fill_buffer [OF d(2,3) ne assms(5)]
  obtain r d' where p: "dg_process_buffer (dg_set_buffer ?b d) = (r, d')" by force
  have spec: "dg_step_spec ?w (dg_msgs d) (r, d')"
    using dg_process_buffer_spec [OF fill(1,2)] unfolding fill(3,4,5) p d(4) by simp
  have n: "frame_length ?w = length m + 4" "4 < length m + 4" "length ?w = length m + 4 + length rest"
    using frame_length_frame [OF assms(3), of rest] assms(3) by (simp_all add: valid_payload_def frame_def)
  have "r = Inr () \<and> buffer_is_valid (dg_buffer d')"
    using spec n assms(4) by (simp add: dg_step_spec_def frame_def)
  then have first: "tls_record_loop ?w (m_slicer s) = (Inr (), DatagramSlicer d')" and valid: "buffer_is_valid (dg_buffer d')"
    using p d assms(4,5) by (simp_all add: tls_record_loop.simps [of "frame m @ rest"] tls_record_loop.simps [of "[]"] Let_def min_def)
  show ?thesis
    unfolding tls_record_callback [OF first]
    using valid assms(6) by (simp add: tls_record_received_def tls_record_loop.simps)
qed

theorem tls_record_overrun_witness:
  "\<exists>s'. tls_callbacks plain_channel (feeding_os []) [RecordReceived (frame [7] @ [5]), RecordReceived [0]] tls_example =
    Some (Inl (RuntimeError ''Invalid state''), s')"
  using tls_record_overrun [of tls_example "[7]" "[5]" "[0]" plain_channel "feeding_os []"]
  by (simp add: valid_payload_def frame_def MAX_SIZE_def del: make_slicer.simps tls_callbacks.simps)

section \<open>Listening\<close>

text \<open>
  A server whose key or certificate cannot be read finds out when the first connection arrives: the
  exception of the child's constructor leaves \<open>accept\<close>.
\<close>

lemma tls_accept_bad_key:
  assumes "bc_server ch = tls_server files new_channel" and "bf_load_key files (tls_key_path s) = Inl e"
    and "tcp_is_listening s" and "os_accept os (trace s) (m_fd s) = Inr fd" and "0 \<le> fd"
  shows "\<exists>s'. tls_accept ch os net s = Some (Inl e, s')"
  using assms
  by (auto simp: tls_accept_def tls_accept_loop.simps tcp_internal_accept_def tls_new_child_def tls_server_def
      server_credentials_def Let_def sys_def)

text \<open>
  A listening socket has no context, and \<open>wait_connection_established\<close> does not ask: a
  \<open>NetworkSocketListener\<close> that is constructed with a listening TLS socket dereferences a null pointer.
\<close>

lemma tls_listening_wait_faults:
  "tls_wait_connection_established (snd (tls_listen os net a n (tls_new mode key_path cert_path mx :: 'c tls_socket))) = Some (Inl MemoryFault)"
proof -
  have frame: "tls_channel (snd (tls_listen os net a n s)) = tls_channel s" for s :: "'c tls_socket"
    by (auto simp: tls_listen_def tcp_listen_def tcp_bind_socket_def tcp_create_fd_def tcp_set_nonblock_def
      tcp_update_port_number_def sys_def Let_def split: prod.splits if_splits)
  show ?thesis by (simp add: tls_wait_connection_established_def frame tls_new_def tcp_socket.defs)
qed

text \<open>
  \<open>wait_connection_established\<close> on a connection that has just been accepted waits for the handshake, which only the read handler
  of a registered listener moves on.  The constructor of \<open>NetworkSocketListener\<close> calls it before the listener can be registered.
\<close>

lemma tls_child_waits:
  assumes "tls_new_child ch os net mode fd key_path cert_path mx = Inr s"
  shows "tls_wait_connection_established s = None"
  using assms
  by (auto simp: tls_new_child_def tls_wait_connection_established_def tls_wait_connected_def tls_is_connected_def
      tcp_socket.defs split: sum.splits)

end
