(* ===== verification/Tls_Receive.thy ===== *)
theory Tls_Receive
  imports Tls_Socket
begin

text \<open>
  Messages over TLS, from the one end to the other: \<open>TlsSocket::pull_messages\<close> and \<open>receive\<close> read what the kernel has, the channel turns
  it into records, \<open>tls_record_received\<close> passes these to the slicer.  The lemmas show that the loop returns, and that
  the messages are those of the records as long as no record goes beyond the end of a message; the contract of the
  channel, \<open>faithful_channel\<close>, gives that for what \<open>TlsContext::send\<close> passes to it.
\<close>

section \<open>Records that end where messages end\<close>

text \<open>
  The records \<open>rs\<close> continue a stream of frames of which the bytes \<open>p\<close> of an incomplete frame have arrived, and
  none of them goes beyond the end of a frame.
\<close>

fun records_fit :: "byte list \<Rightarrow> byte list list \<Rightarrow> bool" where
  "records_fit p [] \<longleftrightarrow> True"
| "records_fit p (r # rs) \<longleftrightarrow> r \<noteq> [] \<and>
     (\<exists>m q. valid_payload m \<and> p @ r @ q = frame m \<and> records_fit (if q = [] then [] else p @ r) rs)"

lemma parse_part:
  assumes "valid_payload m" and "p @ q = frame m" and "q \<noteq> []"
  shows "parse p = ([], p)"
proof (cases "length p < 4")
  case False
  have n: "frame_length p = length m + 4"
    using False frame_length_frame [OF assms(1), of "[]"] assms(2) frame_length_append [of p q] by simp
  have "length p + length q = length m + 4" using arg_cong [OF assms(2), of length] by (simp add: frame_def)
  then have "length p < frame_length p" using n assms(3) by (cases q) simp_all
  then show ?thesis using False n assms(1) by (simp add: parse_partial valid_payload_def)
qed (simp add: parse_short)

lemma parse_record:
  assumes "valid_payload m" and "p @ r @ q = frame m"
  shows "parse (p @ r) = (if q = [] then ([m], []) else ([], p @ r))"
  using assms parse_frame [OF assms(1), of "[]"] parse_part [of m "p @ r" q] by (cases "q = []") simp_all

lemma records_fit_drop: "records_fit p (rs @ rs') \<Longrightarrow> parse p = ([], p) \<Longrightarrow> records_fit (snd (parse (p @ concat rs))) rs'"
proof (induction rs arbitrary: p)
  case (Cons r rs)
  then obtain m q where m: "valid_payload m" "p @ r @ q = frame m" "records_fit (if q = [] then [] else p @ r) (rs @ rs')" by auto
  note pr = parse_record [OF m(1,2)]
  have "parse (if q = [] then [] else p @ r) = ([], if q = [] then [] else p @ r)" using pr by auto
  from Cons.IH [OF m(3) this] have "records_fit (snd (parse (snd (parse (p @ r)) @ concat rs))) rs'"
    using pr by (cases "q = []") simp_all
  then show ?case using parse_append [of "p @ r" "concat rs"] by simp
qed simp

lemma records_fit_prefix: "records_fit p (rs @ rs') \<Longrightarrow> records_fit p rs"
proof (induction rs arbitrary: p)
  case (Cons r rs)
  then show ?case unfolding append_Cons records_fit.simps by blast
qed simp

text \<open>A record that fits extends the view of the slicer by its bytes, and the slicer is idle again.\<close>

lemma record_extends:
  assumes "slicer_idle Datagram (m_slicer s)" and "records_fit (slicer_pending (m_slicer s)) (r # rs)"
  obtains sl where "tls_callbacks ch os (RecordReceived r # cbs) s = tls_callbacks ch os cbs (s\<lparr>m_slicer := sl\<rparr>)"
    "slicer_idle Datagram sl" "slicer_view sl = view_extend (slicer_view (m_slicer s)) r" "records_fit (slicer_pending sl) rs"
proof -
  let ?p = "slicer_pending (m_slicer s)"
  obtain m q where m: "valid_payload m" "?p @ r @ q = frame m" "records_fit (if q = [] then [] else ?p @ r) rs" "r \<noteq> []"
    using assms(2) by auto
  obtain sl where sl: "tls_record_loop r (m_slicer s) = (Inr (), sl)" "part_taken m r q (m_slicer s) sl"
    using record_taken [OF assms(1) m(1,2,4)] by blast
  show thesis
    using tls_record_callback [OF sl(1), of ch os cbs] sl(2) m(3) parse_record [OF m(1,2)] assms(1)
    by (intro that [of sl]) (auto simp: part_taken_def view_extend_def slicer_view_idle slicer_idle_def
        simp del: tls_callbacks.simps split: if_splits)
qed

lemma records_extend:
  assumes "slicer_idle Datagram (m_slicer s)" and "records_fit (slicer_pending (m_slicer s)) rs"
  shows "\<exists>sl. tls_callbacks ch os (map RecordReceived rs) s = Some (Inr (), s\<lparr>m_slicer := sl\<rparr>) \<and>
    slicer_idle Datagram sl \<and> slicer_view sl = view_extend (slicer_view (m_slicer s)) (concat rs)"
  using assms
proof (induction rs arbitrary: s)
  case Nil
  then show ?case using dgv.extend_Nil by (intro exI [of _ "m_slicer s"]) simp
next
  case (Cons r rs)
  obtain sl where sl: "tls_callbacks ch os (RecordReceived r # map RecordReceived rs) s =
        tls_callbacks ch os (map RecordReceived rs) (s\<lparr>m_slicer := sl\<rparr>)"
      "slicer_idle Datagram sl" "slicer_view sl = view_extend (slicer_view (m_slicer s)) r" "records_fit (slicer_pending sl) rs"
    by (rule record_extends [OF Cons.prems])
  show ?case
    using Cons.IH [of "s\<lparr>m_slicer := sl\<rparr>"] sl by (simp add: dgv.extend_append del: tls_callbacks.simps)
qed

section \<open>The loop\<close>

definition chunks_received :: "history \<Rightarrow> byte list list" where
  "chunks_received h = filter (\<lambda>c. c \<noteq> []) (map received_by h)"

lemma chunks_received_append [simp]: "chunks_received (h @ h') = chunks_received h @ chunks_received h'"
  and concat_chunks [simp]: "concat (chunks_received h) = bytes_received h"
  by (induction h) (simp_all add: chunks_received_def bytes_received_def)

lemma no_chunks: "bytes_received h = [] \<Longrightarrow> chunks_received h = []"
  by (induction h) (auto simp: chunks_received_def bytes_received_def)

text \<open>What the channel makes of a sequence of chunks.\<close>

fun channel_run :: "'c botan \<Rightarrow> 'c \<Rightarrow> byte list list \<Rightarrow> 'c \<times> tls_callback list" where
  "channel_run ch c [] = (c, [])"
| "channel_run ch c (b # bs) =
     (case bc_received ch c b of (c, cbs) \<Rightarrow> case channel_run ch c bs of (c, cbs') \<Rightarrow> (c, cbs @ cbs'))"

lemma channel_run_snoc:
  "channel_run ch c (bs @ [b]) = (case channel_run ch c bs of (c, cbs) \<Rightarrow> case bc_received ch c b of (c, cbs') \<Rightarrow> (c, cbs @ cbs'))"
  by (induction bs arbitrary: c) (auto split: prod.splits)

text \<open>
  Whatever the kernel answers after the history \<open>h0\<close>, the channel makes nothing but records of it, and they fit.
\<close>

definition records_sound :: "os \<Rightarrow> history \<Rightarrow> 'c botan \<Rightarrow> 'c \<Rightarrow> bool" where
  "records_sound os h0 ch rx \<longleftrightarrow> (\<forall>h. recv_true os h0 h \<longrightarrow>
     (\<exists>c rs. channel_run ch rx (chunks_received h) = (c, map RecordReceived rs) \<and> records_fit [] rs))"

text \<open>
  The receiving end of a connection between two calls: the channel has seen everything received since \<open>h0\<close>, and the
  messages handed out and queued are those of the records.
\<close>

definition tls_reading :: "os \<Rightarrow> history \<Rightarrow> 'c botan \<Rightarrow> 'c \<Rightarrow> byte list list \<Rightarrow> 'c tls_socket \<Rightarrow> bool" where
  "tls_reading os h0 ch rx del s \<longleftrightarrow> slicer_idle Datagram (m_slicer s) \<and>
     length (m_data (tls_buffer s)) = MAX_SIZE \<and> \<not> buffer_is_valid (tls_buffer s) \<and>
     (\<exists>h c rs. trace s = h0 @ h \<and> recv_true os h0 h \<and> tls_channel s = Some c \<and>
       channel_run ch rx (chunks_received h) = (c, map RecordReceived rs) \<and> records_fit [] rs \<and>
       (del @ slicer_msgs (m_slicer s), slicer_pending (m_slicer s)) = parse (concat rs))"

lemma tls_sys_simps [simp]:
  "tls_buffer (sys e s) = tls_buffer s" "tls_channel (sys e s) = tls_channel s" "tls_state (sys e s) = tls_state s"
  by (simp_all add: sys_def)

text \<open>One call of \<open>receive_data\<close> on the buffer of the TLS socket.\<close>

definition tls_after_recv :: "os \<Rightarrow> 'c tls_socket \<Rightarrow> 'c tls_socket" where
  "tls_after_recv os s = sys (SysRecv (m_fd s) (os_recv os (trace s) (m_fd s) MAX_SIZE))
     (tls_set_buffer (buffer_memset0 (tls_buffer s)) s)"

definition tls_after_close :: "'c tls_socket \<Rightarrow> 'c tls_socket" where
  "tls_after_close s = sys SysNotifyAll
     (tcp_reset_buffer ((sys (SysClose (m_fd s)) (s\<lparr>tls_state := TlsClosed, m_state := Closed\<rparr>))\<lparr>m_fd := -1\<rparr>))"

lemma tls_receive_data_eq:
  assumes "tcp_is_valid s" and "\<not> buffer_is_valid (tls_buffer s)"
  shows "tcp_receive_data os (tls_close_now os) tls_buffer tls_set_buffer s =
    (case os_recv os (trace s) (m_fd s) MAX_SIZE of
       RecvData bs \<Rightarrow>
         if bs \<noteq> [] then (Inr True, tls_set_buffer (buffer_fill bs (tls_buffer (tls_after_recv os s))) (tls_after_recv os s))
         else (Inr False, tls_after_close (tls_after_recv os s))
     | RecvErr e \<Rightarrow>
         if e = EAGAIN then (Inr False, tls_after_recv os s)
         else (if e = ECONNRESET then Inr False else Inl (SocketError ''Failed to receive data''),
               tls_after_close (tls_after_recv os s)))"
proof -
  have v: "tcp_is_valid (tls_after_recv os s)" using assms(1) by (simp add: tcp_is_valid_def tls_after_recv_def tls_set_buffer_def)
  have closed: "close_then (tls_close_now os) True (tls_after_recv os s) r = (r, tls_after_close (tls_after_recv os s))"
    for r :: "error + bool"
    using v by (simp add: close_then_def tls_close_now_def tcp_close_def tcp_is_valid_def tls_after_close_def)
  show ?thesis
  proof (cases "os_recv os (trace s) (m_fd s) MAX_SIZE")
    case (RecvData bs)
    then show ?thesis
      using assms closed [unfolded tls_after_recv_def RecvData]
      by (cases "bs = []") (simp_all add: tcp_receive_data_def tls_after_recv_def Let_def tls_set_buffer_def)
  next
    case (RecvErr e)
    then show ?thesis
      using assms closed [unfolded tls_after_recv_def RecvErr]
      by (cases e) (simp_all add: tcp_receive_data_def tls_after_recv_def Let_def tls_set_buffer_def)
  qed
qed

lemma recv_true_snoc: "recv_true os h0 (h @ [SysRecv fd x]) \<longleftrightarrow> recv_true os h0 h \<and> x = os_recv os (h0 @ h) fd MAX_SIZE"
  by (simp add: recv_true_append)

text \<open>Calls that bring no data, and closing, keep the state of the receiving end.\<close>

lemma tls_reading_silent:
  assumes "tls_reading os h0 ch rx del s" and "bytes_received h = []" and "recv_true os (trace s) h" and "trace s' = trace s @ h"
    and "slicer_idle Datagram (m_slicer s')" and "same_content (m_slicer s) (m_slicer s')"
    and "tls_buffer s' = buffer_memset0 (tls_buffer s)" and "tls_channel s' = tls_channel s"
  shows "tls_reading os h0 ch rx del s'"
proof -
  obtain h1 c rs where h1: "trace s = h0 @ h1" "recv_true os h0 h1" "tls_channel s = Some c"
      "channel_run ch rx (chunks_received h1) = (c, map RecordReceived rs)" "records_fit [] rs"
      "(del @ slicer_msgs (m_slicer s), slicer_pending (m_slicer s)) = parse (concat rs)"
      "\<not> buffer_is_valid (tls_buffer s)"
    using assms(1) by (auto simp: tls_reading_def)
  show ?thesis
    unfolding tls_reading_def
    using h1 assms(2-8) no_chunks [OF assms(2)]
    by (intro conjI exI [of _ "h1 @ h"] exI [of _ c] exI [of _ rs])
      (simp_all add: recv_true_append same_content_def buffer_memset0_def buffer_is_valid_iff)
qed

lemma tls_receive_data_cases:
  assumes reading: "tls_reading os h0 ch rx del s" and bnd: "recv_bounded os"
  obtains (data) bs b where
      "tcp_receive_data os (tls_close_now os) tls_buffer tls_set_buffer s =
        (Inr True, tls_set_buffer b (sys (SysRecv (m_fd s) (RecvData bs)) s))"
      "bs \<noteq> []" "os_recv os (trace s) (m_fd s) MAX_SIZE = RecvData bs" "tcp_is_valid s"
      "mem_read (buffer_data b) 0 (unat (buffer_size b)) = Some bs" "length (m_data b) = MAX_SIZE"
    | (stop) r s' h where
      "tcp_receive_data os (tls_close_now os) tls_buffer tls_set_buffer s = (r, s')"
      "r = Inr False \<or> r = Inl (SocketError ''Failed to receive data'')" "tls_reading os h0 ch rx del s'"
      "trace s' = trace s @ h" "bytes_received h = []" "recv_true os (trace s) h"
      "tcp_is_valid s \<longrightarrow> recv_ended (m_fd s) h (tcp_is_valid s')" "tcp_is_valid s' \<longrightarrow> r = Inr False \<and> tls_state s' = tls_state s"
proof (cases "tcp_is_valid s")
  case False
  then show thesis using reading by (intro stop [of "Inr False" s "[]"]) (simp_all add: tcp_receive_data_def)
next
  case True
  have idle: "slicer_idle Datagram (m_slicer s)" and buf: "length (m_data (tls_buffer s)) = MAX_SIZE" "\<not> buffer_is_valid (tls_buffer s)"
    using reading by (simp_all add: tls_reading_def)
  note eq = tls_receive_data_eq [OF True buf(2), of os]
  let ?x = "os_recv os (trace s) (m_fd s) MAX_SIZE" and ?s1 = "tls_after_recv os s"
  let ?s2 = "tls_after_close ?s1"
  have inv: "slicer_inv Datagram (m_slicer s)" using idle by (simp add: slicer_idle_def)
  have valid: "tcp_is_valid ?s1" "\<not> tcp_is_valid ?s2"
    using True by (simp_all add: tls_after_recv_def tls_after_close_def tls_set_buffer_def tcp_is_valid_def)
  have same: "tls_state ?s1 = tls_state s" by (simp add: tls_after_recv_def tls_set_buffer_def)
  have quiet: "tls_reading os h0 ch rx del ?s1" "trace ?s1 = trace s @ [SysRecv (m_fd s) ?x]" if "received_by (SysRecv (m_fd s) ?x) = []"
    using that idle
    by (auto intro!: tls_reading_silent [OF reading, of "[SysRecv (m_fd s) ?x]"]
        simp: tls_after_recv_def tls_set_buffer_def same_content_def)
  have closed: "tls_reading os h0 ch rx del ?s2" "trace ?s2 = trace s @ [SysRecv (m_fd s) ?x, SysClose (m_fd s), SysNotifyAll]"
    if "received_by (SysRecv (m_fd s) ?x) = []"
    using that slicer_idle_reset [OF inv]
    by (auto intro!: tls_reading_silent [OF reading, of "[SysRecv (m_fd s) ?x, SysClose (m_fd s), SysNotifyAll]"]
        simp: tls_after_recv_def tls_after_close_def tls_set_buffer_def bytes_received_def tcp_reset_buffer_def)
  show thesis
  proof (cases ?x)
    case (RecvErr e)
    then have none: "received_by (SysRecv (m_fd s) ?x) = []" by simp
    show thesis
    proof (cases "e = EAGAIN")
      case True
      with RecvErr eq show thesis
        by (intro stop [of "Inr False" ?s1, OF _ _ quiet [OF none]])
          (simp_all add: valid same recv_endedI bytes_received_def)
    next
      case False
      with RecvErr eq show thesis
        by (intro stop [of "if e = ECONNRESET then Inr False else Inl (SocketError ''Failed to receive data'')" ?s2, OF _ _ closed [OF none]])
          (simp_all add: valid recv_endedI bytes_received_def)
    qed
  next
    case (RecvData bs)
    show thesis
    proof (cases "bs = []")
      case True
      then have none: "received_by (SysRecv (m_fd s) ?x) = []" using RecvData by simp
      from True RecvData eq show thesis
        by (intro stop [of "Inr False" ?s2, OF _ _ closed [OF none]]) (simp_all add: valid recv_endedI bytes_received_def)
    next
      case False
      have len: "length bs \<le> MAX_SIZE" using recv_boundedD [OF bnd RecvData] .
      then have "unat (of_nat (length bs) :: u32) = length bs" by (intro unat_of_nat_small32) (simp add: MAX_SIZE_def)
      then show thesis
        using False RecvData eq True len
        by (intro data [of "buffer_fill bs (buffer_memset0 (tls_buffer s))" bs])
          (simp_all add: tls_after_recv_def tls_set_buffer_def sys_def mem_read_def buffer_fill_def buffer_defs buffer_memset0_def)
    qed
  qed
qed

text \<open>A chunk passes through the channel, and its records through the slicer.\<close>

lemma tls_reading_data:
  assumes "tls_reading os h0 ch rx del s" and "records_sound os h0 ch rx"
    and "os_recv os (trace s) (m_fd s) MAX_SIZE = RecvData bs" and "bs \<noteq> []"
    and "mem_read (buffer_data b) 0 (unat (buffer_size b)) = Some bs" and "length (m_data b) = MAX_SIZE"
  obtains s' where
    "tls_process_data ch os (tls_set_buffer b (sys (SysRecv (m_fd s) (RecvData bs)) s)) = Some (Inr (), s')"
    "tls_reading os h0 ch rx del (tls_set_buffer (buffer_reset (tls_buffer s')) s')"
    "trace s' = trace s @ [SysRecv (m_fd s) (RecvData bs)]" "m_fd s' = m_fd s" "tls_state s' = tls_state s"
proof -
  let ?e = "SysRecv (m_fd s) (RecvData bs)"
  obtain h c rs where h: "trace s = h0 @ h" "recv_true os h0 h" "tls_channel s = Some c"
      "channel_run ch rx (chunks_received h) = (c, map RecordReceived rs)"
      "(del @ slicer_msgs (m_slicer s), slicer_pending (m_slicer s)) = parse (concat rs)"
      and idle: "slicer_idle Datagram (m_slicer s)"
    using assms(1) by (auto simp: tls_reading_def)
  have true: "recv_true os h0 (h @ [?e])" using h(1,2) assms(3) by (simp add: recv_true_snoc)
  have ch: "chunks_received (h @ [?e]) = chunks_received h @ [bs]" using assms(4) by (simp add: chunks_received_def)
  obtain c2 cbs where c2: "bc_received ch c bs = (c2, cbs)" by force
  have run: "channel_run ch rx (chunks_received (h @ [?e])) = (c2, map RecordReceived rs @ cbs)"
    unfolding ch channel_run_snoc using h(4) c2 by simp
  obtain rs' where rs': "map RecordReceived rs @ cbs = map RecordReceived rs'" "records_fit [] rs'"
    using assms(2) true run unfolding records_sound_def by force
  then obtain rs2 where rs2: "cbs = map RecordReceived rs2" "rs' = rs @ rs2"
    by (auto simp: append_eq_map_conv inj_map_eq_map inj_def)
  have "records_fit (slicer_pending (m_slicer s)) rs2"
    using records_fit_drop [of "[]" rs rs2] rs'(2) rs2(2) h(5) by (metis append_Nil parse_Nil snd_conv)
  then obtain sl where sl: "tls_callbacks ch os cbs (tls_set_buffer b (sys ?e s)\<lparr>tls_channel := Some c2\<rparr>) =
        Some (Inr (), tls_set_buffer b (sys ?e s)\<lparr>tls_channel := Some c2, m_slicer := sl\<rparr>)"
      "slicer_idle Datagram sl" "slicer_view sl = view_extend (slicer_view (m_slicer s)) (concat rs2)"
    using records_extend [of "tls_set_buffer b (sys ?e s)\<lparr>tls_channel := Some c2\<rparr>" rs2 ch os] idle rs2(1)
    by (auto simp: tls_set_buffer_def sys_def)
  have "(del @ slicer_msgs sl, slicer_pending sl) = parse (concat rs')"
    using sl(2,3) idle parse_append [of "concat rs" "concat rs2"] rs2(2)
    by (simp add: slicer_view_idle slicer_idle_def view_extend_def h(5) [symmetric])
  then show thesis
    using sl(1,2) c2 h assms(5,6) true run rs'
    by (intro that [of "tls_set_buffer b (sys ?e s)\<lparr>tls_channel := Some c2, m_slicer := sl\<rparr>"])
      (auto simp: tls_process_data_def tls_set_buffer_def sys_def tls_reading_def buffer_reset_def buffer_is_valid_iff
        intro!: exI [of _ "h @ [?e]"] exI [of _ rs'])
qed

lemma tls_pull_total:
  assumes os: "recv_bounded os" "recv_finite os k" and sound: "records_sound os h0 ch rx"
    and "tls_reading os h0 ch rx del s"
  shows "\<exists>r s' h. tls_pull_messages ch os s = Some (r, s') \<and>
    (r = Inr () \<or> r = Inl (SocketError ''Failed to receive data'')) \<and> tls_reading os h0 ch rx del s' \<and>
    trace s' = trace s @ h \<and> (tcp_is_valid s \<longrightarrow> recv_ended (m_fd s) h (tcp_is_valid s')) \<and>
    (tcp_is_valid s' \<longrightarrow> r = Inr () \<and> tls_state s' = tls_state s)"
  using assms(4)
proof (induction "k - length (filter data_event (trace s))" arbitrary: s rule: less_induct)
  case less
  from less.prems os(1) show ?case
  proof (cases rule: tls_receive_data_cases)
    case (data bs b)
    let ?e = "SysRecv (m_fd s) (RecvData bs)"
    obtain s' where s': "tls_process_data ch os (tls_set_buffer b (sys ?e s)) = Some (Inr (), s')"
        "tls_reading os h0 ch rx del (tls_set_buffer (buffer_reset (tls_buffer s')) s')"
        "trace s' = trace s @ [?e]" "m_fd s' = m_fd s" "tls_state s' = tls_state s"
      by (rule tls_reading_data [OF less.prems sound data(3,2,5,6)])
    let ?s = "tls_set_buffer (buffer_reset (tls_buffer s')) s'"
    have frame: "trace ?s = trace s @ [?e]" "tls_state ?s = tls_state s" "m_fd ?s = m_fd s"
      using s'(3-5) by (simp_all add: tls_set_buffer_def)
    then have valid: "tcp_is_valid ?s" using data(4) by (simp add: tcp_is_valid_def)
    have "length (filter data_event (trace s)) < k"
      using os(2) data(2,3) by (auto simp: recv_finite_def not_le [symmetric])
    then have "k - length (filter data_event (trace ?s)) < k - length (filter data_event (trace s))"
      using data(2) frame(1) by simp
    then obtain r s2 h where ih: "tls_pull_messages ch os ?s = Some (r, s2)"
        "r = Inr () \<or> r = Inl (SocketError ''Failed to receive data'')" "tls_reading os h0 ch rx del s2"
        "trace s2 = trace ?s @ h" "recv_ended (m_fd ?s) h (tcp_is_valid s2)" "tcp_is_valid s2 \<longrightarrow> r = Inr () \<and> tls_state s2 = tls_state ?s"
      using less.hyps [OF _ s'(2)] valid by blast
    have "tls_pull_messages ch os s = tls_pull_messages ch os ?s"
      using data(1) s'(1) by (subst tls_pull_messages.simps) simp
    then show ?thesis
      using ih frame recv_ended_append [of "m_fd s" h _ "[?e]"]
      by (intro exI [of _ r] exI [of _ s2] exI [of _ "?e # h"]) simp
  next
    case (stop r s' h)
    then have "tls_pull_messages ch os s = Some (map_sum id (\<lambda>_. ()) r, s')"
      by (subst tls_pull_messages.simps) auto
    then show ?thesis using stop by auto
  qed
qed

text \<open>\<open>receive\<close> hands out the oldest message.\<close>

fun handed_out :: "message_in_t option \<Rightarrow> byte list list" where
  "handed_out None = []"
| "handed_out (Some msg) = [mi_data msg]"

lemma tls_receive_total:
  assumes "recv_bounded os" "recv_finite os k" and "records_sound os h0 ch rx" and "tls_reading os h0 ch rx del s"
  shows "\<exists>r s' h. tls_receive ch os s = Some (r, s') \<and> trace s' = trace s @ h \<and>
    (tcp_is_valid s \<longrightarrow> recv_ended (m_fd s) h (tcp_is_valid s')) \<and>
    (r = Inl (SocketError ''Failed to receive data'') \<and> \<not> tcp_is_valid s' \<and> tls_reading os h0 ch rx del s' \<or>
     (\<exists>m. r = Inr m \<and> tls_reading os h0 ch rx (del @ handed_out m) s' \<and> (m = None \<longrightarrow> slicer_msgs (m_slicer s') = [])))"
proof -
  obtain r s1 h where p: "tls_pull_messages ch os s = Some (r, s1)"
      "r = Inr () \<or> r = Inl (SocketError ''Failed to receive data'')" "tls_reading os h0 ch rx del s1"
      "trace s1 = trace s @ h" "tcp_is_valid s \<longrightarrow> recv_ended (m_fd s) h (tcp_is_valid s1)" "tcp_is_valid s1 \<longrightarrow> r = Inr ()"
    using tls_pull_total [OF assms] by blast
  have idle: "slicer_idle Datagram (m_slicer s1)" using p(3) by (simp add: tls_reading_def)
  then have inv: "slicer_inv Datagram (m_slicer s1)" by (simp add: slicer_idle_def)
  show ?thesis
  proof (cases "r = Inr ()")
    case False
    then show ?thesis using p by (auto simp: tls_receive_def)
  next
    case True
    show ?thesis
    proof (cases "slicer_msgs (m_slicer s1)")
      case Nil
      then show ?thesis using True p sl.has_messages_iff [OF inv] by (auto simp: tls_receive_def)
    next
      case (Cons m ms)
      obtain sl where sl: "slicer_get_message (m_slicer s1) = (Some \<lparr>mi_data = m, mi_length = of_nat (length m)\<rparr>, sl)"
          "slicer_idle Datagram sl" "slicer_pending sl = slicer_pending (m_slicer s1)" "slicer_msgs sl = ms"
        using sl.get_message_Cons [OF inv Cons] idle by (auto simp: slicer_idle_def)
      have "tls_reading os h0 ch rx (del @ [m]) (s1\<lparr>m_slicer := sl\<rparr>)"
        using p(3) sl(2-4) Cons by (auto simp: tls_reading_def)
      then show ?thesis
        using True p sl(1) Cons sl.has_messages_iff [OF inv]
        by (intro exI [of _ "Inr (Some \<lparr>mi_data = m, mi_length = of_nat (length m)\<rparr>)"] exI [of _ "s1\<lparr>m_slicer := sl\<rparr>"] exI [of _ h])
          (simp add: tls_receive_def tcp_is_valid_def)
    qed
  qed
qed

section \<open>The two ends of a channel\<close>

text \<open>
  What \<open>TlsContext::send\<close> passes to the channel for a message: the header and the payload.  The channel may cut each of
  these portions into several records.
\<close>

definition message_portions :: "byte list \<Rightarrow> byte list list" where
  "message_portions m = [le_bytes (of_nat (length m) + 4), m]"

fun refragments :: "byte list list \<Rightarrow> byte list list \<Rightarrow> bool" where
  "refragments [] rs \<longleftrightarrow> rs = []"
| "refragments (p # ps) rs \<longleftrightarrow> (\<exists>frs rs'. rs = frs @ rs' \<and> concat frs = p \<and> [] \<notin> set frs \<and> refragments ps rs')"

text \<open>What the channel writes for a sequence of portions.\<close>

fun channel_sends :: "'c botan \<Rightarrow> 'c \<Rightarrow> byte list list \<Rightarrow> ('c \<times> byte list) option" where
  "channel_sends ch c [] = Some (c, [])"
| "channel_sends ch c (p # ps) =
     (case bc_send ch c p of
        (_, None) \<Rightarrow> None
      | (c, Some ds) \<Rightarrow> map_option (\<lambda>(c, w). (c, concat ds @ w)) (channel_sends ch c ps))"

text \<open>
  The contract of an established channel between a sending end \<open>tx\<close> and a receiving end \<open>rx\<close>: it takes every portion, and
  whatever the chunks in which a part of the ciphertext arrives, the receiving end makes records of it that
  belong to the portions sent, in order, none of them with data of two portions; of the whole ciphertext it makes all of them.
\<close>

definition faithful_channel :: "'c botan \<Rightarrow> ('c \<Rightarrow> 'c \<Rightarrow> bool) \<Rightarrow> bool" where
  "faithful_channel ch in_step \<longleftrightarrow> (\<forall>tx rx ps. in_step tx rx \<longrightarrow> list_all valid_payload ps \<longrightarrow>
     (\<exists>tx' w. channel_sends ch tx ps = Some (tx', w) \<and>
       (\<forall>cs. prefix (concat cs) w \<longrightarrow>
         (\<exists>rx' rs rest. channel_run ch rx cs = (rx', map RecordReceived rs) \<and> refragments ps (rs @ rest) \<and>
           (concat cs = w \<longrightarrow> rest = [])))))"

lemma channel_sends_append:
  "channel_sends ch c (ps @ ps') =
     Option.bind (channel_sends ch c ps) (\<lambda>(c, w). map_option (\<lambda>(c, w'). (c, w @ w')) (channel_sends ch c ps'))"
proof (induction ps arbitrary: c)
  case (Cons p ps)
  then show ?case
    by (cases "bc_send ch c p"; cases "snd (bc_send ch c p)"; cases "channel_sends ch (fst (bc_send ch c p)) ps")
      (auto simp: option.map_comp comp_def split_beta)
qed (simp add: option.map_id split_beta)

lemma refragments_append: "refragments (ps @ ps') rs \<Longrightarrow> \<exists>rs1 rs2. rs = rs1 @ rs2 \<and> refragments ps rs1 \<and> refragments ps' rs2"
proof (induction ps arbitrary: rs)
  case (Cons p ps)
  then show ?case by simp (metis append.assoc)
qed simp

lemma refragments_concat: "refragments ps rs \<Longrightarrow> concat rs = concat ps \<and> [] \<notin> set rs"
  by (induction ps arbitrary: rs) auto

lemma frame_fits:
  assumes "valid_payload m" and "p @ concat frs = frame m" and "[] \<notin> set frs" and "frs \<noteq> []" and "records_fit [] rest"
  shows "records_fit p (frs @ rest)"
  using assms(2-4)
proof (induction frs arbitrary: p)
  case (Cons fr frs)
  have ne: "fr \<noteq> []" using Cons.prems(2) by auto
  show ?case
  proof (cases "frs = []")
    case True
    then have "valid_payload m \<and> p @ fr @ [] = frame m \<and> records_fit (if [] = [] then [] else p @ fr) (frs @ rest)"
      using Cons.prems assms(1,5) by simp
    with ne show ?thesis unfolding append_Cons records_fit.simps by blast
  next
    case False
    then have "concat frs \<noteq> []" using Cons.prems(2) by (cases frs) auto
    then have "valid_payload m \<and> p @ fr @ concat frs = frame m \<and> records_fit (if concat frs = [] then [] else p @ fr) (frs @ rest)"
      using Cons False assms(1) by (auto simp del: concat_eq_Nil_conv)
    with ne show ?thesis unfolding append_Cons records_fit.simps by blast
  qed
qed simp

lemma concat_portions [simp]: "concat (message_portions m) = frame m"
  by (simp add: message_portions_def frame_def)

lemma messages_fit:
  assumes "refragments (concat (map message_portions ms)) rs" and "list_all valid_payload ms"
  shows "records_fit [] rs"
  using assms
proof (induction ms arbitrary: rs)
  case (Cons m ms)
  obtain rs1 rs2 where rs: "rs = rs1 @ rs2" "refragments (message_portions m) rs1" "refragments (concat (map message_portions ms)) rs2"
    using refragments_append [of "message_portions m" "concat (map message_portions ms)" rs] Cons.prems(1) by auto
  have c: "concat rs1 = frame m" "[] \<notin> set rs1" using refragments_concat [OF rs(2)] by simp_all
  then have "rs1 \<noteq> []" by (auto simp: frame_def le_bytes_def)
  then show ?case
    using rs c Cons.IH [OF rs(3)] Cons.prems(2) by (auto intro!: frame_fits [of m])
qed simp

lemma portions_valid: "list_all valid_payload ms \<Longrightarrow> list_all valid_payload (concat (map message_portions ms))"
  by (induction ms) (auto simp: message_portions_def valid_payload_def le_bytes_def)

lemma concat_messages: "concat (concat (map message_portions ms)) = concat (map frame ms)"
  by (induction ms) simp_all

section \<open>Runs\<close>

text \<open>The messages sent on a connection that stays connected.\<close>

inductive tls_sends :: "'c botan \<Rightarrow> os \<Rightarrow> 'c tls_socket \<Rightarrow> byte list list \<Rightarrow> 'c tls_socket \<Rightarrow> bool" for ch os s0 where
  start: "tls_sends ch os s0 [] s0"
| send: "tls_sends ch os s0 ms s \<Longrightarrow> tls_send ch os m (of_nat (length m)) async s = Some (r, s') \<Longrightarrow>
    tls_state s' = TlsConnected \<Longrightarrow> tls_sends ch os s0 (ms @ [m]) s'"

text \<open>The messages that calls of \<open>receive\<close> have returned.\<close>

inductive tls_reads :: "'c botan \<Rightarrow> os \<Rightarrow> 'c tls_socket \<Rightarrow> byte list list \<Rightarrow> 'c tls_socket \<Rightarrow> bool" for ch os r0 where
  start: "tls_reads ch os r0 [] r0"
| message: "tls_reads ch os r0 del r \<Longrightarrow> tls_receive ch os r = Some (Inr m, r') \<Longrightarrow> tls_reads ch os r0 (del @ handed_out m) r'"
| error: "tls_reads ch os r0 del r \<Longrightarrow> tls_receive ch os r = Some (Inl e, r') \<Longrightarrow> tls_reads ch os r0 del r'"

text \<open>An end of an established connection that has not transferred anything yet.\<close>

definition tls_ready :: "'c \<Rightarrow> 'c tls_socket \<Rightarrow> bool" where
  "tls_ready c s \<longleftrightarrow> tls_state s = TlsConnected \<and> tls_channel s = Some c \<and> idle_queue s \<and>
     slicer_idle Datagram (m_slicer s) \<and> slicer_view (m_slicer s) = ([], []) \<and>
     length (m_data (tls_buffer s)) = MAX_SIZE \<and> \<not> buffer_is_valid (tls_buffer s)"

lemma tls_sends_wire:
  assumes "tls_sends ch os s0 ms s" and "list_all valid_payload ms"
    and os: "write_bounded os" "write_live os k" "channel_ok ch" and ch: "faithful_channel ch in_step" "in_step tx rx"
    and s0: "tls_ready tx s0"
  shows "\<exists>h c. trace s = trace s0 @ h \<and> channel_sends ch tx (concat (map message_portions ms)) = Some (c, bytes_sent h) \<and>
    tls_state s = TlsConnected \<and> tls_channel s = Some c \<and> idle_queue s"
  using assms(1,2)
proof induction
  case start
  then show ?case using s0 by (simp add: tls_ready_def)
next
  case (send ms s m async r s')
  then obtain h c where h: "trace s = trace s0 @ h" "channel_sends ch tx (concat (map message_portions ms)) = Some (c, bytes_sent h)"
      "tls_state s = TlsConnected" "tls_channel s = Some c" "idle_queue s"
    by auto
  have len: "unat (of_nat (length m) :: u32) = length m"
    using send.prems by (intro unat_of_nat_small32) (simp add: valid_payload_def)
  obtain c' w where w: "channel_sends ch tx (concat (map message_portions (ms @ [m]))) = Some (c', w)"
    using ch portions_valid [OF send.prems] unfolding faithful_channel_def by blast
  then obtain w' where w': "channel_sends ch c (message_portions m) = Some (c', w')" "w = bytes_sent h @ w'"
    using h(2) by (auto simp: channel_sends_append)
  obtain c1 ds ds' where ds: "bc_send ch c (le_bytes (of_nat (length m) + 4)) = (c1, Some ds)" "bc_send ch c1 m = (c', Some ds')"
      "w' = concat ds @ concat ds'"
    using w'(1) by (auto simp: message_portions_def split: prod.splits option.splits)
  obtain h' where "s' = s\<lparr>tls_channel := Some c', trace := trace s @ h'\<rparr>" "bytes_sent h' = w'"
    using tls_send_stays [OF os h(3-5) _ ds(1), of m c' ds' async] send.hyps(2,3) ds(2,3) len by auto
  then show ?case using h w w' by (auto simp: idle_queue_def)
qed

lemma tls_reads_reading:
  assumes "tls_reads ch os r0 del r" and "recv_bounded os" "recv_finite os k" "records_sound os (trace r0) ch rx"
    and "tls_ready rx r0"
  shows "tls_reading os (trace r0) ch rx del r"
  using assms(1)
proof induction
  case start
  show ?case
    using assms(5) by (auto simp: tls_ready_def tls_reading_def slicer_view_idle slicer_idle_def chunks_received_def
        intro!: exI [of _ "[]"])
next
  case (message del r m r')
  then show ?case using tls_receive_total [OF assms(2-4) message.IH] by auto
next
  case (error del r e r')
  then show ?case using tls_receive_total [OF assms(2-4) error.IH] by auto
qed

lemma network_records:
  assumes "faithful_channel ch in_step" and "in_step tx rx" and "list_all valid_payload ms"
    and "channel_sends ch tx (concat (map message_portions ms)) = Some (c, w)" and "prefix (concat cs) w"
  obtains rx' rs where "channel_run ch rx cs = (rx', map RecordReceived rs)" "records_fit [] rs"
    "prefix (concat rs) (concat (map frame ms))" "concat cs = w \<longrightarrow> concat rs = concat (map frame ms)"
proof -
  let ?ps = "concat (map message_portions ms)"
  obtain tx' w' where "channel_sends ch tx ?ps = Some (tx', w')"
      and law: "\<forall>cs. prefix (concat cs) w' \<longrightarrow> (\<exists>rx' rs rest. channel_run ch rx cs = (rx', map RecordReceived rs) \<and>
        refragments ?ps (rs @ rest) \<and> (concat cs = w' \<longrightarrow> rest = []))"
    using assms(1,2) portions_valid [OF assms(3)] unfolding faithful_channel_def by blast
  then have "w' = w" using assms(4) by simp
  then obtain rx' rs rest where rs: "channel_run ch rx cs = (rx', map RecordReceived rs)"
      "refragments ?ps (rs @ rest)" "concat cs = w \<longrightarrow> rest = []"
    using law assms(5) by blast
  have "concat rs @ concat rest = concat (map frame ms)"
    using refragments_concat [OF rs(2)] by (simp add: concat_messages)
  moreover have "records_fit [] rs" by (rule records_fit_prefix [OF messages_fit [OF rs(2) assms(3)]])
  ultimately show thesis using rs(1,3) by (intro that [of rx' rs]) (auto intro: prefixI [OF sym])
qed

text \<open>What the receiving end makes of the ciphertext of whole messages.\<close>

lemma tls_wire_received:
  assumes "faithful_channel ch in_step" and "in_step tx rx" and "recv_bounded os" and "recv_finite os n"
    and "list_all valid_payload ms" and w: "channel_sends ch tx (concat (map message_portions ms)) = Some (c, wire)"
    and "tls_ready rx r0" and "tls_reads ch os r0 del r" and "trace r = trace r0 @ hr"
    and "\<forall>h. recv_true os (trace r0) h \<longrightarrow> prefix (bytes_received h) wire"
  shows "prefix (del @ slicer_msgs (m_slicer r)) ms" and "bytes_received hr = wire \<longrightarrow> del @ slicer_msgs (m_slicer r) = ms"
    and "recv_true os (trace r0) hr"
    and "\<exists>res r' h. tls_receive ch os r = Some (res, r') \<and> trace r' = trace r @ h \<and>
      (tcp_is_valid r \<longrightarrow> recv_ended (m_fd r) h (tcp_is_valid r')) \<and> (tcp_is_valid r' \<longrightarrow> (\<exists>m. res = Inr m))"
proof -
  note net = network_records [OF assms(1,2,5) w]
  have sound: "records_sound os (trace r0) ch rx"
    unfolding records_sound_def
  proof (intro allI impI)
    fix h
    assume "recv_true os (trace r0) h"
    then have "prefix (concat (chunks_received h)) wire" using assms(10) by simp
    from net [OF this] show "\<exists>c rs. channel_run ch rx (chunks_received h) = (c, map RecordReceived rs) \<and> records_fit [] rs"
      by blast
  qed
  have reading: "tls_reading os (trace r0) ch rx del r" by (rule tls_reads_reading [OF assms(8,3,4) sound assms(7)])
  then obtain c' rs where rs: "recv_true os (trace r0) hr" "channel_run ch rx (chunks_received hr) = (c', map RecordReceived rs)"
      "(del @ slicer_msgs (m_slicer r), slicer_pending (m_slicer r)) = parse (concat rs)"
    using assms(9) by (auto simp: tls_reading_def)
  have "prefix (concat (chunks_received hr)) wire" using assms(10) rs(1) by simp
  then obtain rx' rs' where rs': "channel_run ch rx (chunks_received hr) = (rx', map RecordReceived rs')"
      "prefix (concat rs') (concat (map frame ms))" "concat (chunks_received hr) = wire \<longrightarrow> concat rs' = concat (map frame ms)"
    by (rule net)
  then have "rs' = rs" using rs(2) by (simp add: inj_map_eq_map inj_def)
  note p = rs'(2,3) [unfolded this concat_chunks]
  have m: "parse (concat (map frame ms)) = (ms, [])" by (rule parse_all_frames [OF assms(5)])
  show "prefix (del @ slicer_msgs (m_slicer r)) ms"
    using parse_prefix [OF p(1)] by (simp add: m rs(3) [symmetric])
  show "bytes_received hr = wire \<longrightarrow> del @ slicer_msgs (m_slicer r) = ms"
    using p(2) m rs(3) by (metis fst_conv)
  show "recv_true os (trace r0) hr" by (rule rs(1))
  show "\<exists>res r' h. tls_receive ch os r = Some (res, r') \<and> trace r' = trace r @ h \<and>
      (tcp_is_valid r \<longrightarrow> recv_ended (m_fd r) h (tcp_is_valid r')) \<and> (tcp_is_valid r' \<longrightarrow> (\<exists>m. res = Inr m))"
    using tls_receive_total [OF assms(3,4) sound reading] by blast
qed

section \<open>Properties\<close>

text \<open>
  C17. Two TLS sockets over an established channel: the one sends any sequence of messages and stays connected, the kernel of the
  other delivers what has been written, in order, in chunks of any size.  Then every \<open>receive\<close> returns, and the
  messages handed out and queued are a prefix of the messages sent; once everything is received they are all of them, in order and unchanged.
  No record of the channel ever meets a loaded buffer.
\<close>

theorem tls_end_to_end:
  assumes "faithful_channel ch in_step" and "in_step tx rx" and "channel_ok ch"
    and "write_bounded os1" and "write_live os1 k" and "recv_bounded os2" and "recv_finite os2 n"
    and "tls_ready tx s0" and "tls_sends ch os1 s0 ms s" and "list_all valid_payload ms" and "trace s = trace s0 @ hs"
    and "tls_ready rx r0" and "tls_reads ch os2 r0 del r" and "trace r = trace r0 @ hr"
    and "\<forall>h. recv_true os2 (trace r0) h \<longrightarrow> prefix (bytes_received h) (bytes_sent hs)"
  shows "prefix (del @ slicer_msgs (m_slicer r)) ms \<and>
    (bytes_received hr = bytes_sent hs \<longrightarrow> del @ slicer_msgs (m_slicer r) = ms) \<and> recv_true os2 (trace r0) hr \<and>
    (\<exists>res r' h. tls_receive ch os2 r = Some (res, r') \<and> trace r' = trace r @ h \<and>
      (tcp_is_valid r \<longrightarrow> recv_ended (m_fd r) h (tcp_is_valid r')) \<and> (tcp_is_valid r' \<longrightarrow> (\<exists>m. res = Inr m)))"
proof -
  obtain c where w: "channel_sends ch tx (concat (map message_portions ms)) = Some (c, bytes_sent hs)"
    using tls_sends_wire [OF assms(9,10,4,5,3,1,2,8)] unfolding assms(11) by auto
  show ?thesis using tls_wire_received [OF assms(1,2,6,7,10) w assms(12-15)] by blast
qed

text \<open>A channel that frames every portion and delivers it when the frame is complete.\<close>

definition framing_channel :: "byte list botan" where
  "framing_channel = \<lparr>bc_server = \<lambda>_ _. Inr [], bc_client = ([], []),
     bc_received = \<lambda>c bs. (snd (parse (c @ bs)), map RecordReceived (fst (parse (c @ bs)))),
     bc_send = \<lambda>c bs. (c, if valid_payload bs then Some [frame bs] else None), bc_close = \<lambda>c. (c, [[0]])\<rparr>"

lemma framing_channel_ok: "channel_ok framing_channel"
  by (auto simp: channel_ok_def small_chunks_def framing_channel_def valid_payload_def frame_def split: if_splits)

lemma framing_channel_sends:
  "list_all valid_payload ps \<Longrightarrow> channel_sends framing_channel c ps = Some (c, concat (map frame ps))"
  by (induction ps) (simp_all add: framing_channel_def)

lemma framing_channel_run: "channel_run framing_channel c cs = (snd (feed c cs), map RecordReceived (fst (feed c cs)))"
  by (induction cs arbitrary: c) (simp_all add: framing_channel_def)

lemma refragments_same: "[] \<notin> set ps \<Longrightarrow> refragments ps ps"
proof (induction ps)
  case (Cons p ps)
  then have "p # ps = [p] @ ps \<and> concat [p] = p \<and> [] \<notin> set [p] \<and> refragments ps ps" by simp
  then show ?case unfolding refragments.simps by blast
qed simp

lemma framing_channel_faithful: "faithful_channel framing_channel (\<lambda>tx rx. rx = [])"
  unfolding faithful_channel_def
proof (intro allI impI)
  fix tx rx :: "byte list" and ps :: "byte list list"
  assume rx: "rx = []" and ps: "list_all valid_payload ps"
  have ne: "[] \<notin> set ps" using ps by (auto simp: list_all_iff valid_payload_def)
  have "\<exists>rx' rs rest. channel_run framing_channel rx cs = (rx', map RecordReceived rs) \<and> refragments ps (rs @ rest) \<and>
      (concat cs = concat (map frame ps) \<longrightarrow> rest = [])" if "prefix (concat cs) (concat (map frame ps))" for cs
  proof -
    have "prefix (fst (parse (concat cs))) ps" using parse_prefix [OF that] parse_all_frames [OF ps] by simp
    then obtain rest where "ps = fst (parse (concat cs)) @ rest" by (auto simp: prefix_def)
    moreover from this have "concat cs = concat (map frame ps) \<longrightarrow> rest = []"
      using parse_all_frames [OF ps] by (metis fst_conv self_append_conv)
    ultimately have "refragments ps (fst (feed rx cs) @ rest) \<and> (concat cs = concat (map frame ps) \<longrightarrow> rest = [])"
      using refragments_same [OF ne] by (simp add: rx feed_parse)
    then show ?thesis using framing_channel_run by blast
  qed
  then show "\<exists>tx' w. channel_sends framing_channel tx ps = Some (tx', w) \<and> (\<forall>cs. prefix (concat cs) w \<longrightarrow>
      (\<exists>rx' rs rest. channel_run framing_channel rx cs = (rx', map RecordReceived rs) \<and> refragments ps (rs @ rest) \<and>
        (concat cs = w \<longrightarrow> rest = [])))"
    using framing_channel_sends [OF ps] by blast
qed

definition linked_socket :: "byte list tls_socket" where
  "linked_socket = (tls_new Datagram [] [] 100)\<lparr>m_fd := 3, m_state := Connected, tls_state := TlsConnected, tls_channel := Some []\<rparr>"

lemma slicer_view_make: "slicer_view (make_slicer Datagram) = ([], [])"
  by (simp add: dg_view_def dg_msgs_def dg_pending_def dg_new_def)

lemma linked_socket: "tls_ready [] linked_socket" "trace linked_socket = []" "m_fd linked_socket = 3" "tcp_is_valid linked_socket"
  using buffer_fresh_new slicer_view_make
  by (simp_all add: tls_ready_def linked_socket_def tls_new_def tcp_socket.extend_def tcp_new_def idle_queue_def tcp_is_valid_def
      buffer_new_def buffer_reset_def buffer_is_valid_iff del: make_slicer.simps)

lemma feeding_emits:
  assumes "data \<noteq> []" and "length data < 2 ^ 32"
  shows "tls_emit_data ch (feeding_os chunks) s data = Some (Inr (), sys (SysWrite (m_fd s) data (WriteN (length data))) s)"
proof -
  have n: "unat (of_nat (length data) :: u32) = length data" using assms(2) by (rule unat_of_nat_small32)
  have w: "os_write (feeding_os chunks) h fd bs = WriteN (length bs)" for h fd bs by (simp add: feeding_os_def)
  show ?thesis
    unfolding tls_emit_data_def
    by (subst tls_emit_loop.simps, subst tls_emit_loop.simps) (simp add: w n assms(1) Let_def)
qed

lemma linked_send:
  obtains s r where "tls_send framing_channel (feeding_os []) [7, 8] 2 False linked_socket = Some (r, s)" "tls_state s = TlsConnected"
    "bytes_sent (trace s) = [8, 0, 0, 0, 6, 0, 0, 0, 6, 0, 0, 0, 7, 8]"
proof -
  have "le_bytes 6 = [6, 0, 0, 0]" "le_bytes 8 = [8, 0, 0, 0]" by (simp_all add: le_bytes_def)
  then show thesis
    using linked_socket
    by (intro that) (auto simp: tls_send_def tls_context_send_def tls_channel_send_def framing_channel_def valid_payload_def
        frame_def feeding_emits mem_read_def tls_ready_def tls_do_send_idle idle_queue_def bytes_sent_def)
qed

theorem tls_end_to_end_witness:
  "\<exists>s del r. tls_sends framing_channel (feeding_os []) linked_socket [[7, 8]] s \<and>
    tls_reads framing_channel (feeding_os [[8, 0, 0], [0, 6, 0, 0, 0, 6, 0], [0, 0, 7, 8]]) linked_socket del r \<and>
    del @ slicer_msgs (m_slicer r) = [[7, 8]]"
proof -
  let ?cs = "[[8, 0, 0], [0, 6, 0, 0, 0, 6, 0], [0, 0, 7, 8]] :: byte list list"
  let ?ch = framing_channel and ?os1 = "feeding_os []" and ?os2 = "feeding_os ?cs"
  obtain q s where q: "tls_send ?ch ?os1 [7, 8] 2 False linked_socket = Some (q, s)" "tls_state s = TlsConnected"
      "bytes_sent (trace s) = concat ?cs"
    by (rule linked_send) simp
  have sends: "tls_sends ?ch ?os1 linked_socket [[7, 8]] s"
    using tls_sends.send [OF tls_sends.start _ q(2), where m = "[7, 8]"] q(1) by simp
  have chunks: "list_all (\<lambda>c. c \<noteq> [] \<and> length c \<le> MAX_SIZE) ?cs" by (simp add: MAX_SIZE_def)
  have net: "\<forall>h. recv_true ?os2 (trace linked_socket) h \<longrightarrow> prefix (bytes_received h) (bytes_sent (trace s))"
    unfolding q(3) linked_socket(2)
    using feeding_received [OF chunks, of "[]"] by (metis append_take_drop_id concat_append drop0 filter.simps(1) list.size(3) prefixI)
  note run = tls_end_to_end [OF framing_channel_faithful refl framing_channel_ok feeding_os(3) feeding_write_live feeding_os(1,2)
      linked_socket(1) sends _ _ linked_socket(1) _ _ net, unfolded linked_socket(2)]
  have valid: "list_all valid_payload [[7, 8]]" "trace s = [] @ trace s" by (simp_all add: valid_payload_def)
  obtain res r h where r: "tls_receive ?ch ?os2 linked_socket = Some (res, r)" "trace r = [] @ h"
      "recv_ended 3 h (tcp_is_valid r)" "tcp_is_valid r \<longrightarrow> (\<exists>m. res = Inr m)"
    using run [OF valid tls_reads.start, of "[]"] linked_socket(2-4) by auto
  obtain del where del: "tls_reads ?ch ?os2 linked_socket del r"
    using tls_reads.message [OF tls_reads.start, of ?ch ?os2] tls_reads.error [OF tls_reads.start, of ?ch ?os2] r(1) by (cases res) blast+
  note fin = run [OF valid del r(2)]
  then have "bytes_received h = concat ?cs" using feeding_drained [OF chunks _ r(3), of "[]"] by simp
  then show ?thesis using fin q(3) sends del by auto
qed

end
