(* ===== verification/Threads.thy ===== *)
theory Threads
  imports Main
begin

text \<open>
  Threads that run interleaved: a system is a step function that says what the next step of a thread
  does, \<open>None\<close> when the thread is blocked or has ended, and a schedule is the list of the threads that
  take the next steps.  The two locales are what the theories on the socket and on the event
  loop need of such a system: invariants hold along every schedule, and where a measure decreases with every
  step, every schedule ends, in a state in which no thread can move.
\<close>

text \<open>Threads are the elements of a list; a step replaces one of them.\<close>

lemma in_update:
  assumes "i < length ls"
  shows "l' \<in> set (ls[i := l'])" and "l \<in> set ls \<Longrightarrow> l \<noteq> ls ! i \<Longrightarrow> l \<in> set (ls[i := l'])"
    and "l \<in> set (ls[i := l']) \<Longrightarrow> l = l' \<or> l \<in> set ls"
proof -
  show "l' \<in> set (ls[i := l'])" using assms by (rule set_update_memI)
  show "l \<in> set ls \<Longrightarrow> l \<noteq> ls ! i \<Longrightarrow> l \<in> set (ls[i := l'])"
    by (metis in_set_conv_nth length_list_update nth_list_update_neq)
  show "l \<in> set (ls[i := l']) \<Longrightarrow> l = l' \<or> l \<in> set ls"
    using set_update_subset_insert [of ls i l'] by blast
qed

lemma sum_list_map_update:
  fixes f :: "'a \<Rightarrow> nat"
  assumes "i < length xs"
  shows "sum_list (map f (xs[i := x])) + f (xs ! i) = sum_list (map f xs) + f x"
  using assms member_le_sum_list [of "f (xs ! i)" "map f xs"]
  by (simp add: map_update sum_list_update)

lemma count_list_update:
  assumes "i < length xs"
  shows "count_list (xs[i := y]) x + (if xs ! i = x then 1 else 0) = count_list xs x + (if y = x then 1 else 0)"
proof -
  have "count_list zs x = sum_list (map (\<lambda>z. if z = x then 1 else 0) zs)" for zs by (induction zs) simp_all
  then show ?thesis using sum_list_map_update [OF assms, of "\<lambda>z. if z = x then 1 else 0" y] by simp
qed

text \<open>Schedules.\<close>

fun schedule :: "('i \<Rightarrow> 's \<Rightarrow> 's option) \<Rightarrow> 'i list \<Rightarrow> 's \<Rightarrow> 's option" where
  "schedule step [] st = Some st"
| "schedule step (i # is) st = (case step i st of None \<Rightarrow> None | Some st' \<Rightarrow> schedule step is st')"

definition quiescent :: "('i \<Rightarrow> 's \<Rightarrow> 's option) \<Rightarrow> 's \<Rightarrow> bool" where
  "quiescent step st \<longleftrightarrow> (\<forall>i. step i st = None)"

lemma schedule_append:
  "schedule step (is @ js) st = Option.bind (schedule step is st) (schedule step js)"
  by (induction "is" arbitrary: st) (simp_all split: option.split)

locale thread_system =
  fixes step :: "'i \<Rightarrow> 's \<Rightarrow> 's option" and inv :: "'s \<Rightarrow> bool"
  assumes step_inv: "inv st \<Longrightarrow> step i st = Some st' \<Longrightarrow> inv st'"
begin

lemma schedule_inv: "inv st \<Longrightarrow> schedule step is st = Some st' \<Longrightarrow> inv st'"
  by (induction "is" arbitrary: st) (auto split: option.splits intro: step_inv)

end

locale terminating_system = thread_system step inv
  for step :: "'i \<Rightarrow> 's \<Rightarrow> 's option" and inv :: "'s \<Rightarrow> bool" +
  fixes size_of :: "'s \<Rightarrow> nat"
  assumes step_decreases: "inv st \<Longrightarrow> step i st = Some st' \<Longrightarrow> size_of st' < size_of st"
begin

lemma schedule_bounded:
  "inv st \<Longrightarrow> schedule step is st = Some st' \<Longrightarrow> length is + size_of st' \<le> size_of st"
proof (induction "is" arbitrary: st)
  case (Cons i "is")
  then obtain u where u: "step i st = Some u" "schedule step is u = Some st'" by (auto split: option.splits)
  from Cons.IH [OF step_inv [OF Cons.prems(1) u(1)] u(2)] step_decreases [OF Cons.prems(1) u(1)]
  show ?case by simp
qed simp

lemma schedule_completes:
  assumes "inv st"
  obtains "is" st' where "schedule step is st = Some st'" "inv st'" "quiescent step st'"
  using assms
proof (induction "size_of st" arbitrary: st thesis rule: less_induct)
  case less
  show thesis
  proof (cases "quiescent step st")
    case True
    then show thesis using less.prems by (intro less.prems(1) [of "[]"]) simp_all
  next
    case False
    then obtain i u where u: "step i st = Some u" by (auto simp: quiescent_def)
    show thesis
      by (rule less.hyps [OF step_decreases [OF less.prems(2) u] _ step_inv [OF less.prems(2) u]])
        (rule less.prems(1) [of "i # is" for "is"], simp_all add: u)
  qed
qed

end

end
