(* ===== verification/Tcp_Threads.thy ===== *)
theory Tcp_Threads
  imports Tcp_Lifecycle Threads
begin

text \<open>
  The sending half of \<open>TcpSocket\<close> used by several threads at once (\<open>src/network/TcpSocket.cpp\<close>: \<open>send\<close>, \<open>do_send\<close>,
  \<open>close\<close>, \<open>wait_send_queue_empty\<close>).  A thread is a location in one of these methods; between two locations it runs
  without interruption.  The steps are the critical sections of \<open>m_send_queue_mutex\<close>, the system calls, and
  the accesses to the socket's members between them; \<open>m_send_mutex\<close>, which \<open>do_send\<close> holds across many steps, has an
  owner, and a thread that sleeps on \<open>m_send_queue_cond\<close> moves on only after \<open>notify_all\<close> or a spurious wakeup.  The
  thread that receives appears through the only thing it does to the sending half, a fast \<open>close\<close>.
\<close>

section \<open>Threads and their locations\<close>

text \<open>
  The places at which a thread inside \<open>send\<close>, \<open>do_send\<close>, \<open>close\<close> or \<open>wait_send_queue_empty\<close> can be
  interrupted.  The first argument of \<open>AtSend\<close> and \<open>AtEnqueue\<close> tells the overload: a shared pointer or a
  pointer that the socket owns.  \<open>AtClose\<close> and \<open>AtNotify\<close> carry what the caller does afterwards: \<open>Some r\<close> is a
  \<open>return\<close> or \<open>throw\<close> of \<open>do_send\<close>, \<open>None\<close> a direct call of \<open>close\<close>.
\<close>

datatype location =
    AtSend bool "byte list" u32 bool
  | AtEnqueue bool "byte list" u32 bool
  | AtLock
  | AtNext
  | AtCheck
  | AtWrite
  | AtClose bool "(error + bool) option"
  | AtNotify "(error + bool) option"
  | AtWait
  | AtSleep
  | AtReturned
  | AtClosed "error + bool"
  | AtDone "error + bool"

record tcp_threads =
  tt_socket :: tcp_socket
  tt_send_mutex :: "nat option"
  tt_locations :: "location list"

definition tt_init :: "tcp_socket \<Rightarrow> location list \<Rightarrow> tcp_threads" where
  "tt_init s ls = \<lparr>tt_socket = s, tt_send_mutex = None, tt_locations = ls\<rparr>"

fun holds_send_mutex :: "location \<Rightarrow> bool" where
  "holds_send_mutex (AtClose _ (Some _)) \<longleftrightarrow> True"
| "holds_send_mutex (AtNotify (Some _)) \<longleftrightarrow> True"
| "holds_send_mutex l \<longleftrightarrow> l \<in> {AtNext, AtCheck, AtWrite}"

text \<open>\<open>m_send_queue_cond.notify_all()\<close>: the sleeping threads evaluate their condition again.\<close>

definition wake_all :: "location list \<Rightarrow> location list" where
  "wake_all ls = map (\<lambda>l. if l = AtSleep then AtWait else l) ls"

section \<open>The steps of one thread\<close>

text \<open>The message that the critical section of the two \<open>send\<close> methods puts into the queue.\<close>

definition tcp_message_out :: "bool \<Rightarrow> byte list \<Rightarrow> u32 \<Rightarrow> tcp_socket \<Rightarrow> error + message_out" where
  "tcp_message_out shared data len s =
     (if shared then Inr (message_out_shared data len)
      else case slicer_prepare_message (m_slicer s) data len of
        Inl e \<Rightarrow> Inl e
      | Inr (data, len) \<Rightarrow> Inr (message_out_unique data len))"

text \<open>\<open>close\<close> up to the final block: a result, or \<open>None\<close> when the block follows.\<close>

definition tcp_close_begin :: "os \<Rightarrow> bool \<Rightarrow> tcp_socket \<Rightarrow> (error + bool) option \<times> tcp_socket" where
  "tcp_close_begin os fast s =
     (if m_state s = Connected \<and> \<not> fast then
        let s = s\<lparr>m_state := Shutdown\<rparr>;
            i = os_shutdown os (trace s) (m_fd s);
            s = sys (SysShutdown (m_fd s) i) s
        in (case i of
              None \<Rightarrow> (Some (Inr False), s)
            | Some e \<Rightarrow>
              if e = ENOTCONN
              then (Some (Inr True), tcp_reset_buffer (s\<lparr>m_fd := -1, m_state := Closed\<rparr>))
              else (Some (Inl (Fatal ''Socket shutdown() failed'')), s))
      else if m_fd s > 0 then
        (None, tcp_reset_buffer ((sys (SysClose (m_fd s)) (s\<lparr>m_state := Closed\<rparr>))\<lparr>m_fd := -1\<rparr>))
      else if \<not> (m_state s = Closed \<or> m_state s = Unknown) then (Some (Inl (Fatal ''Invalid state'')), s)
      else (None, s))"

text \<open>After \<open>close\<close> has returned or aborted.\<close>

fun after_closing :: "(error + bool) option \<Rightarrow> error + bool \<Rightarrow> location" where
  "after_closing None r = AtClosed r"
| "after_closing (Some r) (Inr _) = AtDone r"
| "after_closing (Some r) (Inl e) = AtDone (Inl e)"

text \<open>One round of the inner loop of \<open>do_send\<close>, or the end of the message.\<close>

definition tcp_write_once :: "os \<Rightarrow> tcp_socket \<Rightarrow> location \<times> tcp_socket" where
  "tcp_write_once os s =
     (case m_current_message s of
        None \<Rightarrow> (AtDone (Inl MemoryFault), s)
      | Some message \<Rightarrow>
        if mo_sent_pos message < mo_length message then
          (case mem_read (mo_data message) (unat (mo_sent_pos message))
                  (unat (mo_length message - mo_sent_pos message)) of
             None \<Rightarrow> (AtDone (Inl MemoryFault), s)
           | Some bs \<Rightarrow>
             let x = os_write os (trace s) (m_fd s) bs;
                 s = sys (SysWrite (m_fd s) bs x) s
             in case x of
                  WriteN n \<Rightarrow>
                    if 0 < n then
                      (AtWrite, s\<lparr>m_current_message := Some (message\<lparr>mo_sent_pos := mo_sent_pos message + of_nat n\<rparr>)\<rparr>)
                    else (AtClose True (Some (Inr False)), s)
                | WriteErr e \<Rightarrow>
                    (case e of
                       EAGAIN \<Rightarrow> (AtDone (Inr True), s)
                     | ECONNRESET \<Rightarrow> (AtClose True (Some (Inr False)), s)
                     | EPIPE \<Rightarrow> (AtClose True (Some (Inr False)), s)
                     | _ \<Rightarrow> (AtClose True (Some (Inl (SocketError ''strerror''))), s)))
        else (AtNext, s\<lparr>m_current_message := None\<rparr>))"

text \<open>A step of a thread at a location: where it goes, the socket, and whether it wakes the waiting threads.\<close>

fun location_step :: "os \<Rightarrow> location \<Rightarrow> tcp_socket \<Rightarrow> location \<times> tcp_socket \<times> bool" where
  "location_step os (AtSend shared data len async) s =
     (if len = 0 then AtDone (Inl (SocketError ''Message size has to be > 0''))
      else if \<not> tcp_is_valid s then AtDone (Inl (SocketError ''Socket is closed''))
      else AtEnqueue shared data len async, s, False)"
| "location_step os (AtEnqueue shared data len async) s =
     (if m_send_queue_size s \<ge> m_max_send_queue_size s then (AtDone (Inl SendQueueFull), s, False)
      else case tcp_message_out shared data len s of
        Inl e \<Rightarrow> (AtDone (Inl e), s, False)
      | Inr msg_out \<Rightarrow> (if async then AtDone (Inr True) else AtLock, tcp_enqueue msg_out s, False))"
| "location_step os AtNext s =
     (case tcp_next_message s of
        None \<Rightarrow> (AtDone (Inr False), s, False)
      | Some t \<Rightarrow> (AtCheck, t, m_current_message s = None))"
| "location_step os AtCheck s =
     (if \<not> tcp_is_valid s then AtDone (Inl (SocketError ''Socket is closed'')) else AtWrite, s, False)"
| "location_step os AtWrite s = (case tcp_write_once os s of (l, s) \<Rightarrow> (l, s, False))"
| "location_step os (AtClose fast k) s =
     (case tcp_close_begin os fast s of
        (Some r, s) \<Rightarrow> (after_closing k r, s, False)
      | (None, s) \<Rightarrow> (AtNotify k, s, False))"
| "location_step os (AtNotify k) s = (after_closing k (Inr True), sys SysNotifyAll s, True)"
| "location_step os AtWait s = (if tcp_send_queue_waits s then AtSleep else AtReturned, s, False)"
| "location_step os l s = (l, s, False)"

text \<open>
  A step of thread \<open>i\<close>: it waits for the send mutex, sleeps, or has ended; the mutex is released with the
  scope of its lock.
\<close>

definition tt_step :: "os \<Rightarrow> nat \<Rightarrow> tcp_threads \<Rightarrow> tcp_threads option" where
  "tt_step os i st =
     (if length (tt_locations st) \<le> i then None
      else case tt_locations st ! i of
        AtLock \<Rightarrow>
          (if tt_send_mutex st = None
           then Some (st\<lparr>tt_send_mutex := Some i, tt_locations := (tt_locations st)[i := AtNext]\<rparr>)
           else None)
      | AtSleep \<Rightarrow> None
      | AtReturned \<Rightarrow> None
      | AtClosed _ \<Rightarrow> None
      | AtDone _ \<Rightarrow> None
      | l \<Rightarrow>
        (case location_step os l (tt_socket st) of (l', s, notify) \<Rightarrow>
           Some \<lparr>tt_socket = s,
             tt_send_mutex = (if holds_send_mutex l \<and> \<not> holds_send_mutex l' then None else tt_send_mutex st),
             tt_locations = (if notify then wake_all (tt_locations st) else tt_locations st)[i := l']\<rparr>))"

text \<open>The scheduler can also wake a waiting thread without a notification.\<close>

datatype action = Run nat | Wake nat

fun tt_action :: "os \<Rightarrow> action \<Rightarrow> tcp_threads \<Rightarrow> tcp_threads option" where
  "tt_action os (Run i) st = tt_step os i st"
| "tt_action os (Wake i) st =
     (if i < length (tt_locations st) \<and> tt_locations st ! i = AtSleep
      then Some (st\<lparr>tt_locations := (tt_locations st)[i := AtWait]\<rparr>) else None)"

text \<open>The bytes that a step of a thread accepts, and those that a schedule accepts, in their order.\<close>

fun location_accepts :: "location \<Rightarrow> tcp_socket \<Rightarrow> byte list" where
  "location_accepts (AtEnqueue shared data len async) s =
     (if m_send_queue_size s \<ge> m_max_send_queue_size s then []
      else if shared then take (unat len) data else wire_of (slicer_type (m_slicer s)) data)"
| "location_accepts l s = []"

fun tt_accepts :: "action \<Rightarrow> tcp_threads \<Rightarrow> byte list" where
  "tt_accepts (Run i) st = location_accepts (tt_locations st ! i) (tt_socket st)"
| "tt_accepts (Wake i) st = []"

fun tt_accepted :: "os \<Rightarrow> action list \<Rightarrow> tcp_threads \<Rightarrow> byte list" where
  "tt_accepted os [] st = []"
| "tt_accepted os (a # as) st =
     tt_accepts a st @ (case tt_action os a st of None \<Rightarrow> [] | Some st' \<Rightarrow> tt_accepted os as st')"

section \<open>What the steps do\<close>

fun finished :: "location \<Rightarrow> bool" where
  "finished AtReturned \<longleftrightarrow> True"
| "finished (AtClosed _) \<longleftrightarrow> True"
| "finished (AtDone _) \<longleftrightarrow> True"
| "finished _ \<longleftrightarrow> False"

text \<open>A step of a location that is not waiting for anything.\<close>

definition movable :: "location \<Rightarrow> bool" where
  "movable l \<longleftrightarrow> \<not> finished l \<and> l \<noteq> AtSleep \<and> l \<noteq> AtLock"

lemma tt_step_movable:
  assumes "i < length (tt_locations st)" and "movable (tt_locations st ! i)"
    and "location_step os (tt_locations st ! i) (tt_socket st) = (l', s, notify)"
  shows "tt_step os i st = Some \<lparr>tt_socket = s,
     tt_send_mutex = (if holds_send_mutex (tt_locations st ! i) \<and> \<not> holds_send_mutex l' then None else tt_send_mutex st),
     tt_locations = (if notify then wake_all (tt_locations st) else tt_locations st)[i := l']\<rparr>"
  using assms by (cases "tt_locations st ! i") (simp_all add: tt_step_def movable_def del: location_step.simps)

lemma tt_step_cases:
  assumes "tt_step os i st = Some st'"
  obtains (lock) "i < length (tt_locations st)" "tt_locations st ! i = AtLock" "tt_send_mutex st = None"
      "st' = st\<lparr>tt_send_mutex := Some i, tt_locations := (tt_locations st)[i := AtNext]\<rparr>"
    | (move) l' s notify where "i < length (tt_locations st)" "movable (tt_locations st ! i)"
      "location_step os (tt_locations st ! i) (tt_socket st) = (l', s, notify)"
      "st' = \<lparr>tt_socket = s,
         tt_send_mutex = (if holds_send_mutex (tt_locations st ! i) \<and> \<not> holds_send_mutex l' then None else tt_send_mutex st),
         tt_locations = (if notify then wake_all (tt_locations st) else tt_locations st)[i := l']\<rparr>"
proof -
  obtain l' s notify where ls: "location_step os (tt_locations st ! i) (tt_socket st) = (l', s, notify)"
    by (metis prod_cases3)
  have i: "i < length (tt_locations st)" using assms by (auto simp: tt_step_def split: if_splits)
  show thesis
  proof (cases "movable (tt_locations st ! i)")
    case True
    then show thesis using move [OF i True ls] tt_step_movable [OF i True ls] assms by simp
  next
    case False
    then show thesis
      using assms lock i by (cases "tt_locations st ! i") (auto simp: tt_step_def movable_def split: if_splits)
  qed
qed

text \<open>The states after \<open>close\<close> has begun.\<close>

lemma tcp_close_begin_cases:
  assumes "shutdown_ok os" and "tcp_inv mode s"
  obtains (shutdown) t where "\<not> fast" "tcp_close_begin os fast s = (Some (Inr False), t)" "tcp_inv mode t"
      "same_sending s t" "bytes_sent (trace t) = bytes_sent (trace s)" "m_fd t = m_fd s"
    | (notconn) t where "\<not> fast" "os_shutdown os (trace s) (m_fd s) = Some ENOTCONN"
      "tcp_close_begin os fast s = (Some (Inr True), t)" "tcp_inv mode t"
      "same_sending s t" "bytes_sent (trace t) = bytes_sent (trace s)" "\<not> tcp_is_valid t"
    | (closed) t where "tcp_close_begin os fast s = (None, t)" "tcp_inv mode t"
      "same_sending s t" "bytes_sent (trace t) = bytes_sent (trace s)" "\<not> tcp_is_valid t"
proof -
  have inv: "tcp_inv mode (tcp_reset_buffer t)"
    if "same_sending s t" "m_slicer t = m_slicer s" "m_state t = Closed" for t
    using assms(2) that tcp_base_closed [of mode t]
    by (simp add: tcp_inv_def tcp_base_def send_inv_def queue_bounded_def same_sending_def)
  show thesis
  proof (cases "m_state s = Connected \<and> \<not> fast")
    case True
    show thesis
    proof (cases "os_shutdown os (trace s) (m_fd s)")
      case None
      then show thesis
        using True assms(2)
        by (intro shutdown [of "sys (SysShutdown (m_fd s) None) (s\<lparr>m_state := Shutdown\<rparr>)"])
          (simp_all add: tcp_close_begin_def tcp_inv_def tcp_base_def fd_ok_def send_inv_def queue_bounded_def same_sending_def)
    next
      case (Some e)
      then have e: "e = ENOTCONN" using assms(1) by (simp add: shutdown_ok_def)
      let ?t = "(sys (SysShutdown (m_fd s) (Some ENOTCONN)) (s\<lparr>m_state := Shutdown\<rparr>))\<lparr>m_fd := -1, m_state := Closed\<rparr>"
      show thesis
        using True Some e inv [of ?t]
        by (intro notconn [of "tcp_reset_buffer ?t"])
          (simp_all add: tcp_close_begin_def same_sending_def tcp_is_valid_def)
    qed
  next
    case False
    let ?t = "(sys (SysClose (m_fd s)) (s\<lparr>m_state := Closed\<rparr>))\<lparr>m_fd := -1\<rparr>"
    show thesis
    proof (cases "m_fd s > 0")
      case True
      then show thesis
        using False inv [of ?t]
        by (intro closed [of "tcp_reset_buffer ?t"])
          (auto simp: tcp_close_begin_def same_sending_def tcp_is_valid_def)
    next
      case fd: False
      then have "m_state s \<in> {Closed, Unknown}"
        using assms(2) by (cases "m_state s") (auto simp: tcp_inv_def tcp_base_def fd_ok_def)
      then show thesis
        using False fd assms(2)
        by (intro closed [of s]) (auto simp: tcp_close_begin_def same_sending_def tcp_is_valid_def)
    qed
  qed
qed

text \<open>One round of the inner loop.\<close>

lemma tcp_write_once_cases:
  assumes "write_bounded os" and "m_current_message s = Some m" and "message_ok m"
  obtains (written) e n where "0 < n" "n \<le> length (remaining m)" "sent_by e = take n (remaining m)"
      "tcp_write_once os s =
        (AtWrite, (sys e s)\<lparr>m_current_message := Some (m\<lparr>mo_sent_pos := mo_sent_pos m + of_nat n\<rparr>)\<rparr>)"
    | (again) e where "remaining m \<noteq> []" "sent_by e = []" "tcp_write_once os s = (AtDone (Inr True), sys e s)"
    | (failed) e r where "remaining m \<noteq> []" "sent_by e = []" "r \<in> {Inr False, Inl (SocketError ''strerror'')}"
      "tcp_write_once os s = (AtClose True (Some r), sys e s)"
    | (sent) "remaining m = []" "tcp_write_once os s = (AtNext, s\<lparr>m_current_message := None\<rparr>)"
proof (cases "mo_sent_pos m < mo_length m")
  case False
  then have "mo_sent_pos m = mo_length m" using assms(3) by (simp add: message_ok_def)
  then show thesis
    using assms(2) message_ok_remaining(2) [OF assms(3)] by (intro sent) (simp_all add: tcp_write_once_def)
next
  case True
  then have ne: "remaining m \<noteq> []" using message_ok_remaining(2) [OF assms(3)] by auto
  let ?x = "os_write os (trace s) (m_fd s) (remaining m)"
  let ?e = "SysWrite (m_fd s) (remaining m) ?x"
  note eq = tcp_write_once_def [of os s] assms(2) True message_ok_read [OF assms(3)]
  show thesis
  proof (cases ?x)
    case (WriteN n)
    have "n \<le> length (remaining m)" using write_boundedD [OF assms(1) WriteN] .
    then show thesis
      using WriteN ne written [of n ?e] failed [of ?e "Inr False"] by (cases "n = 0") (simp_all add: eq Let_def)
  next
    case (WriteErr e)
    then show thesis
      using ne again [of ?e] failed [of ?e "Inr False"] failed [of ?e "Inl (SocketError ''strerror'')"]
      by (cases e) (simp_all add: eq Let_def)
  qed
qed

section \<open>The invariant\<close>

text \<open>
  What a location says about the socket and the arguments of its thread; results are never
  undefined behaviour or an abort.
\<close>

fun arguments_ok :: "bool \<Rightarrow> byte list \<Rightarrow> u32 \<Rightarrow> bool" where
  "arguments_ok True data len \<longleftrightarrow> unat len \<le> length data"
| "arguments_ok False data len \<longleftrightarrow> unat len = length data \<and> length data + 4 < 2 ^ 32"

definition result_ok :: "error + bool \<Rightarrow> bool" where
  "result_ok r \<longleftrightarrow> r \<noteq> Inl MemoryFault \<and> (\<forall>msg. r \<noteq> Inl (Fatal msg))"

fun location_ok :: "location \<Rightarrow> tcp_socket \<Rightarrow> bool" where
  "location_ok (AtSend shared data len async) s \<longleftrightarrow> arguments_ok shared data len"
| "location_ok (AtEnqueue shared data len async) s \<longleftrightarrow> arguments_ok shared data len \<and> 0 < len"
| "location_ok AtCheck s \<longleftrightarrow> m_current_message s \<noteq> None"
| "location_ok AtWrite s \<longleftrightarrow> m_current_message s \<noteq> None"
| "location_ok (AtClose fast (Some r)) s \<longleftrightarrow> fast \<and> result_ok r"
| "location_ok (AtNotify (Some r)) s \<longleftrightarrow> result_ok r"
| "location_ok (AtClosed r) s \<longleftrightarrow> result_ok r"
| "location_ok (AtDone r) s \<longleftrightarrow> result_ok r"
| "location_ok _ s \<longleftrightarrow> True"

lemma result_okI [simp]: "result_ok (Inr b)" "result_ok (Inl (SocketError msg))" "result_ok (Inl SendQueueFull)"
  by (simp_all add: result_ok_def)

definition tt_inv :: "MessageMode \<Rightarrow> tcp_threads \<Rightarrow> bool" where
  "tt_inv mode st \<longleftrightarrow> tcp_inv mode (tt_socket st) \<and>
     (\<forall>i < length (tt_locations st). location_ok (tt_locations st ! i) (tt_socket st) \<and>
       (holds_send_mutex (tt_locations st ! i) \<longleftrightarrow> tt_send_mutex st = Some i)) \<and>
     (\<forall>i. tt_send_mutex st = Some i \<longrightarrow> i < length (tt_locations st))"

text \<open>The locations at which a thread may start, with the arguments its caller passes.\<close>

fun entry :: "location \<Rightarrow> bool" where
  "entry (AtSend shared data len async) \<longleftrightarrow> arguments_ok shared data len"
| "entry (AtClose fast k) \<longleftrightarrow> k = None"
| "entry l \<longleftrightarrow> l = AtLock \<or> l = AtWait"

lemma tt_inv_init:
  assumes "tcp_inv mode s" and "list_all entry ls"
  shows "tt_inv mode (tt_init s ls)"
proof -
  have "entry l \<Longrightarrow> location_ok l s \<and> \<not> holds_send_mutex l" for l by (cases l) auto
  then show ?thesis using assms by (auto simp: tt_inv_def tt_init_def list_all_length)
qed

text \<open>The message of an accepted \<open>send\<close>.\<close>

lemma tcp_message_out_ok:
  assumes "tcp_inv mode s" and "arguments_ok shared data len" and "0 < len"
  obtains m where "tcp_message_out shared data len s = Inr m" "queued_ok m"
    "remaining m = (if shared then take (unat len) data else wire_of mode data)"
proof (cases shared)
  case True
  then show thesis
    using assms(2,3) by (intro that [of "message_out_shared data len"])
      (simp_all add: tcp_message_out_def queued_ok_def message_out_shared_def remaining_def)
next
  case False
  then have l: "length data = unat len" "unat len + 4 < 2 ^ 32" using assms(2) by simp_all
  let ?w = "wire_of mode data"
  have w: "length ?w < 2 ^ 32" using l by (cases mode) (simp_all add: frame_def)
  have ne: "?w \<noteq> []" using l(1) assms(3) by (cases mode) (auto simp: frame_def word_less_nat_alt)
  have wl: "unat (of_nat (length ?w) :: u32) = length ?w" using w by (rule unat_of_nat_small32)
  have "slicer_prepare_message (m_slicer s) data len = Inr (?w, of_nat (length ?w))"
    using assms(1) l by (intro slicer_prepare_message) (simp_all add: tcp_inv_def tcp_base_def slicer_idle_def)
  then show thesis
    using False ne wl by (intro that [of "message_out_unique ?w (of_nat (length ?w))"])
      (simp_all add: tcp_message_out_def queued_ok_def message_out_unique_def remaining_def word_less_nat_alt)
qed

text \<open>
  The effect of a step on the sending half: the invariant is kept, bytes are conserved up to what the step accepts,
  and only the holder of the mutex touches the current message.
\<close>

definition step_ok :: "MessageMode \<Rightarrow> location \<Rightarrow> tcp_socket \<Rightarrow> location \<Rightarrow> tcp_socket \<Rightarrow> bool" where
  "step_ok mode l s l' s' \<longleftrightarrow> tcp_inv mode s' \<and> location_ok l' s' \<and>
     bytes_sent (trace s') @ backlog s' = bytes_sent (trace s) @ backlog s @ location_accepts l s \<and>
     (holds_send_mutex l' \<longrightarrow> holds_send_mutex l) \<and>
     (\<not> holds_send_mutex l \<longrightarrow> m_current_message s' = m_current_message s)"

lemma tcp_inv_current:
  assumes "tcp_inv mode s"
  shows "(\<And>m. c = Some m \<Longrightarrow> message_ok m) \<Longrightarrow> tcp_inv mode (s\<lparr>m_current_message := c\<rparr>)"
    and "tcp_inv mode (sys e s)"
  using assms by (auto simp: tcp_inv_def send_inv_def queue_bounded_def split: option.split)

lemma step_ok_enqueue:
  assumes "tcp_inv mode s" and "arguments_ok shared data len" and "0 < len"
    and "location_step os (AtEnqueue shared data len async) s = (l', s', n)"
  shows "step_ok mode (AtEnqueue shared data len async) s l' s'"
proof (cases "m_send_queue_size s < m_max_send_queue_size s")
  case False
  then show ?thesis using assms(1,4) by (auto simp: step_ok_def not_less)
next
  case True
  obtain m where m: "tcp_message_out shared data len s = Inr m" "queued_ok m"
      "remaining m = (if shared then take (unat len) data else wire_of mode data)"
    by (rule tcp_message_out_ok [OF assms(1-3)])
  have s': "s' = tcp_enqueue m s" "l' = (if async then AtDone (Inr True) else AtLock)"
    using assms(4) True m(1) by (auto simp: not_le [symmetric])
  have "slicer_type (m_slicer s) = mode"
    using assms(1) by (auto simp: tcp_inv_def tcp_base_def slicer_idle_def intro: slicer_inv_type)
  moreover have "m_current_message (tcp_enqueue m s) = m_current_message s" by (simp add: tcp_enqueue_def)
  ultimately show ?thesis
    using tcp_enqueue [OF assms(1) True m(2)] True [folded not_le] m(3) by (simp add: step_ok_def s')
qed

lemma step_ok_next:
  assumes "tcp_inv mode s" and "location_step os AtNext s = (l', s', n)"
  shows "step_ok mode AtNext s l' s'"
proof (cases "tcp_next_message s")
  case None
  then show ?thesis using assms by (auto simp: step_ok_def)
next
  case (Some t)
  have "send_inv s" and b: "tcp_base mode s" "queue_bounded s" using assms(1) by (simp_all add: tcp_inv_def)
  note t = tcp_next_message_Some [OF Some this(1)]
  have "tcp_base mode t" using b(1) Some by (auto simp: tcp_next_message_def split: option.splits list.splits)
  then have "tcp_inv mode t" using t(2,3) b(2) by (simp add: tcp_inv_def queue_bounded_conserves)
  then show ?thesis
    using assms(2) Some t(1) conserves_bytes [OF t(3)] by (auto simp: step_ok_def)
qed

lemma step_ok_write:
  assumes "write_bounded os" and "tcp_inv mode s" and "m_current_message s = Some m"
    and "tcp_write_once os s = (l', s')"
  shows "step_ok mode AtWrite s l' s'"
proof -
  have mok: "message_ok m" using assms(2,3) by (simp add: tcp_inv_def send_inv_def)
  show ?thesis
    using assms(1,3) mok
  proof (cases rule: tcp_write_once_cases)
    case (written e n)
    note adv = message_ok_advance [OF mok written(2)]
    show ?thesis
      using written assms(2-4) adv tcp_inv_current [OF tcp_inv_current(2) [OF assms(2)]]
      by (auto simp: step_ok_def backlog_def)
  next
    case (again e)
    then show ?thesis using assms(2-4) tcp_inv_current(2) [OF assms(2)] by (auto simp: step_ok_def backlog_def)
  next
    case (failed e r)
    then show ?thesis using assms(2-4) tcp_inv_current(2) [OF assms(2)] by (auto simp: step_ok_def backlog_def)
  next
    case sent
    then show ?thesis
      using assms(2-4) tcp_inv_current(1) [OF assms(2), of None] by (auto simp: step_ok_def backlog_def)
  qed
qed

lemma step_ok_close:
  assumes "shutdown_ok os" and "tcp_inv mode s" and "location_ok (AtClose fast k) s"
    and "location_step os (AtClose fast k) s = (l', s', n)"
  shows "step_ok mode (AtClose fast k) s l' s'"
proof -
  have eq: "backlog t = backlog s \<and> m_current_message t = m_current_message s" if "same_sending s t" for t
    using that same_sending_backlog by (simp add: same_sending_def)
  show ?thesis
    using assms(1,2)
  proof (cases rule: tcp_close_begin_cases [where fast = fast])
    case (shutdown t)
    then show ?thesis using assms(3,4) eq by (cases k) (auto simp: step_ok_def)
  next
    case (notconn t)
    then show ?thesis using assms(3,4) eq by (cases k) (auto simp: step_ok_def)
  next
    case (closed t)
    then show ?thesis using assms(3,4) eq by (cases k) (auto simp: step_ok_def)
  qed
qed

lemma location_step_ok:
  assumes "write_bounded os" and "shutdown_ok os" and "tcp_inv mode s" and "location_ok l s" and "movable l"
    and "location_step os l s = (l', s', n)"
  shows "step_ok mode l s l' s'"
proof (cases l)
  case (AtWrite)
  then obtain m where "m_current_message s = Some m" using assms(4) by auto
  then show ?thesis using AtWrite assms step_ok_write by (auto split: prod.splits)
next
  case (AtNotify k)
  then show ?thesis
    using assms tcp_inv_current(2) [OF assms(3)] by (cases k) (auto simp: step_ok_def backlog_def)
next
  case (AtEnqueue shared data len async)
  then show ?thesis using assms step_ok_enqueue by simp
next
  case AtNext
  then show ?thesis using assms step_ok_next by simp
next
  case (AtClose fast k)
  then show ?thesis using assms step_ok_close by simp
qed (use assms in \<open>auto simp: step_ok_def movable_def word_gt_0 split: if_splits\<close>)

section \<open>The laws of a step\<close>

text \<open>A thread that still has to look at the send queue, or has told its caller that there is more to send.\<close>

fun responsible :: "location \<Rightarrow> bool" where
  "responsible (AtClose _ k) \<longleftrightarrow> k \<noteq> None"
| "responsible (AtDone r) \<longleftrightarrow> r = Inr True"
| "responsible l \<longleftrightarrow> l \<in> {AtLock, AtNext, AtCheck, AtWrite}"

lemma location_step_responsible:
  assumes "write_bounded os" and "shutdown_ok os" and "tcp_inv mode s" and "location_ok l s" and "movable l"
    and "location_step os l s = (l', s', n)" and "tcp_is_valid s'" and "backlog s' \<noteq> []"
  shows "tcp_is_valid s \<and> (responsible l' \<or> backlog s \<noteq> [] \<and> \<not> responsible l)"
proof (cases l)
  case AtWrite
  then obtain m where m: "m_current_message s = Some m" using assms(4) by auto
  then have mok: "message_ok m" using assms(3) by (simp add: tcp_inv_def send_inv_def)
  show ?thesis
    using assms(1) m mok
    by (cases rule: tcp_write_once_cases) (use AtWrite assms(6,7) in \<open>auto simp: tcp_is_valid_def\<close>)
next
  case (AtClose fast k)
  show ?thesis
    using assms(2,3)
  proof (cases rule: tcp_close_begin_cases [where fast = fast])
    case (shutdown t)
    then show ?thesis using AtClose assms(4,6-8) same_sending_backlog [of s t]
      by (cases k) (auto simp: tcp_is_valid_def)
  qed (use AtClose assms(6-8) in auto)
next
  case AtNext
  then show ?thesis
    using assms(6-8) by (auto simp: tcp_next_message_def backlog_def tcp_is_valid_def split: option.splits list.splits)
next
  case (AtEnqueue shared data len async)
  obtain m where "tcp_message_out shared data len s = Inr m"
    using tcp_message_out_ok [OF assms(3), of shared data len] assms(4) AtEnqueue by auto
  then show ?thesis
    using AtEnqueue assms(6-8) by (auto simp: tcp_enqueue_def tcp_is_valid_def split: if_splits)
next
  case (AtNotify k)
  then show ?thesis using assms(6-8) by (auto simp: backlog_def tcp_is_valid_def)
qed (use assms in \<open>auto simp: movable_def split: if_splits\<close>)

text \<open>A waiting thread is notified when its condition changes, unless \<open>shutdown\<close> has failed.\<close>

lemma location_step_waits:
  assumes "write_bounded os" and "\<And>h fd. os_shutdown os h fd = None" and "tcp_inv mode s" and "location_ok l s"
    and "movable l" and "location_step os l s = (l', s', False)" and "tcp_send_queue_waits s"
  shows "tcp_send_queue_waits s' \<or> (\<exists>k. l' = AtNotify k)"
proof (cases l)
  case AtWrite
  then obtain m where m: "m_current_message s = Some m" using assms(4) by auto
  then have mok: "message_ok m" using assms(3) by (simp add: tcp_inv_def send_inv_def)
  show ?thesis
    using assms(1) m mok
    by (cases rule: tcp_write_once_cases)
      (use AtWrite assms(6,7) in \<open>auto simp: tcp_is_valid_def tcp_send_queue_waits_def\<close>)
next
  case (AtClose fast k)
  have "shutdown_ok os" using assms(2) by (simp add: shutdown_ok_def)
  then show ?thesis
    using assms(3)
  proof (cases rule: tcp_close_begin_cases [where fast = fast])
    case (shutdown t)
    then show ?thesis using AtClose assms(6,7)
      by (auto simp: tcp_send_queue_waits_def tcp_is_valid_def same_sending_def)
  next
    case (notconn t)
    then show ?thesis using assms(2) by simp
  qed (use AtClose assms(6) in auto)
next
  case AtNext
  then show ?thesis
    using assms(6,7) by (auto simp: tcp_next_message_def split: option.splits list.splits)
next
  case (AtEnqueue shared data len async)
  then have a: "arguments_ok shared data len" "0 < len" using assms(4) by simp_all
  obtain m where m: "tcp_message_out shared data len s = Inr m" "queued_ok m"
    using tcp_message_out_ok [OF assms(3) a] by blast
  show ?thesis
  proof (cases "m_send_queue_size s < m_max_send_queue_size s")
    case True
    note e = tcp_enqueue(1) [OF assms(3) True m(2)]
    have "0 < unat (m_send_queue_size (tcp_enqueue m s))"
      using send_queue_size_exact [of "tcp_enqueue m s"] e m(2)
      by (simp add: tcp_inv_def tcp_enqueue_def queued_ok_def word_less_nat_alt)
    moreover have "tcp_is_valid (tcp_enqueue m s)" using assms(7) by (simp add: tcp_send_queue_waits_def tcp_enqueue_def tcp_is_valid_def)
    ultimately show ?thesis
      using AtEnqueue assms(6) True [folded not_le] m(1) by (auto simp: tcp_send_queue_waits_def word_less_nat_alt)
  qed (use AtEnqueue assms(6,7) in \<open>auto simp: not_less\<close>)
qed (use assms in \<open>auto simp: movable_def split: if_splits\<close>)

text \<open>
  A measure of the work that is left: every location has a rank, and every message and every byte in the backlog count.
  A notification lets up to \<open>n\<close> threads evaluate their condition once more.
\<close>

fun rank :: "nat \<Rightarrow> location \<Rightarrow> nat" where
  "rank n (AtSend _ data _ _) = length data + 2 * n + 15"
| "rank n (AtEnqueue _ data _ _) = length data + 2 * n + 14"
| "rank n AtLock = n + 6"
| "rank n AtNext = n + 5"
| "rank n AtCheck = n + 4"
| "rank n AtWrite = n + 3"
| "rank n (AtClose _ _) = n + 2"
| "rank n (AtNotify _) = n + 1"
| "rank n AtWait = 2"
| "rank n AtSleep = 1"
| "rank n _ = 0"

definition sending_size :: "nat \<Rightarrow> tcp_socket \<Rightarrow> nat" where
  "sending_size n s = (if m_current_message s = None then 0 else 3) + (n + 3) * length (m_send_queue s) +
     length (backlog s)"

definition tt_size :: "tcp_threads \<Rightarrow> nat" where
  "tt_size st = sending_size (length (tt_locations st)) (tt_socket st) +
     sum_list (map (rank (length (tt_locations st))) (tt_locations st))"

lemma location_step_decreases:
  assumes "write_bounded os" and "shutdown_ok os" and "tcp_inv mode s" and "location_ok l s" and "movable l"
    and "location_step os l s = (l', s', notify)"
  shows "sending_size n s' + rank n l' + (if notify then n else 0) < sending_size n s + rank n l"
proof (cases l)
  case AtWrite
  then obtain m where m: "m_current_message s = Some m" using assms(4) by auto
  then have mok: "message_ok m" using assms(3) by (simp add: tcp_inv_def send_inv_def)
  show ?thesis
    using assms(1) m mok
  proof (cases rule: tcp_write_once_cases)
    case (written e k)
    have "length (remaining m) - k < length (remaining m)" using written(1,2) by simp
    then show ?thesis
      using AtWrite assms(6) written m message_ok_advance(3) [OF mok written(2)]
      by (auto simp: sending_size_def backlog_def)
  qed (use AtWrite assms(6) m in \<open>auto simp: sending_size_def backlog_def\<close>)
next
  case (AtClose fast k)
  have eq: "sending_size n t = sending_size n s" if "same_sending s t" for t
    using that same_sending_backlog [OF that] by (simp add: sending_size_def same_sending_def)
  have r: "rank n (after_closing k r) = 0" for r by (cases k; cases r) simp_all
  show ?thesis
    using assms(2,3)
    by (cases rule: tcp_close_begin_cases [where fast = fast]) (use AtClose assms(6) eq r in auto)
next
  case AtNext
  then show ?thesis
    using assms(6) by (auto simp: tcp_next_message_def sending_size_def backlog_def split: option.splits list.splits)
next
  case (AtEnqueue shared data len async)
  then have a: "arguments_ok shared data len" "0 < len" using assms(4) by simp_all
  obtain m where m: "tcp_message_out shared data len s = Inr m"
      "remaining m = (if shared then take (unat len) data else wire_of mode data)"
    using tcp_message_out_ok [OF assms(3) a] by blast
  have "length (remaining m) \<le> length data + 4" unfolding m(2) by (cases mode) (auto simp: frame_def)
  then show ?thesis
    using AtEnqueue assms(6) m(1)
    by (auto simp: sending_size_def tcp_enqueue_def backlog_def split: if_splits)
next
  case (AtNotify k)
  then show ?thesis using assms(6) by (cases k) (auto simp: sending_size_def backlog_def)
qed (use assms in \<open>auto simp: movable_def split: if_splits\<close>)

section \<open>Every schedule\<close>

lemma wake_all [simp]:
  "length (wake_all ls) = length ls"
  "i < length ls \<Longrightarrow> wake_all ls ! i = (if ls ! i = AtSleep then AtWait else ls ! i)"
  by (simp_all add: wake_all_def)

lemma woken_ok [simp]:
  "location_ok (if l = AtSleep then AtWait else l) s = location_ok l s"
  "holds_send_mutex (if l = AtSleep then AtWait else l) = holds_send_mutex l"
  "responsible (if l = AtSleep then AtWait else l) = responsible l"
  by simp_all

text \<open>The locations of the other threads stay well formed, because the step leaves the current message alone unless it holds the mutex.\<close>

lemma location_ok_other:
  assumes "location_ok l s" and "holds_send_mutex l \<Longrightarrow> m_current_message s' = m_current_message s"
  shows "location_ok l s'"
  using assms by (cases l rule: holds_send_mutex.cases) auto

definition tt_safe :: "os \<Rightarrow> MessageMode \<Rightarrow> tcp_threads \<Rightarrow> bool" where
  "tt_safe os mode st \<longleftrightarrow> write_bounded os \<and> shutdown_ok os \<and> tt_inv mode st"

lemma tt_invD:
  assumes "tt_inv mode st" and "i < length (tt_locations st)"
  shows "location_ok (tt_locations st ! i) (tt_socket st)"
    and "holds_send_mutex (tt_locations st ! i) \<longleftrightarrow> tt_send_mutex st = Some i"
  using assms by (simp_all add: tt_inv_def)

lemma tt_safe_move:
  assumes "tt_safe os mode st" and "i < length (tt_locations st)" and "movable (tt_locations st ! i)"
    and "location_step os (tt_locations st ! i) (tt_socket st) = (l', s, n)"
  shows "step_ok mode (tt_locations st ! i) (tt_socket st) l' s"
  using assms by (intro location_step_ok [of os mode _ _ l' s n]) (auto simp: tt_safe_def tt_inv_def)

lemma tt_step_safe:
  assumes "tt_safe os mode st" and "tt_step os i st = Some st'"
  shows "tt_safe os mode st'"
  using assms(2)
proof (cases rule: tt_step_cases)
  case lock
  then show ?thesis
    using assms(1) by (auto simp: tt_safe_def tt_inv_def nth_list_update)
next
  case (move l' s n)
  let ?l = "tt_locations st ! i"
  define ls where "ls = (if n then wake_all (tt_locations st) else tt_locations st)"
  note ok = tt_safe_move [OF assms(1) move(1-3)]
  have inv: "tt_inv mode st" using assms(1) by (simp add: tt_safe_def)
  have "location_ok (ls ! j) s \<and> (holds_send_mutex (ls ! j) \<longleftrightarrow> tt_send_mutex st = Some j)"
    if j: "j < length ls" "j \<noteq> i" for j
    using tt_invD [OF inv, of j] tt_invD(2) [OF inv move(1)] j ok
      location_ok_other [of "tt_locations st ! j" "tt_socket st" s]
    by (auto simp: step_ok_def ls_def)
  moreover have "length ls = length (tt_locations st)" by (simp add: ls_def)
  ultimately have "tt_inv mode st'"
    using inv ok move(1) tt_invD(2) [OF inv move(1)] unfolding move(4) ls_def [symmetric]
    by (auto simp: tt_inv_def step_ok_def nth_list_update)
  then show ?thesis using assms(1) by (simp add: tt_safe_def)
qed

lemma tt_action_safe:
  assumes "tt_safe os mode st" and "tt_action os a st = Some st'"
  shows "tt_safe os mode st'"
proof (cases a)
  case (Run i)
  then show ?thesis using assms tt_step_safe by simp
next
  case (Wake i)
  then have i: "i < length (tt_locations st)" "tt_locations st ! i = AtSleep"
      "st' = st\<lparr>tt_locations := (tt_locations st)[i := AtWait]\<rparr>"
    using assms(2) by (simp_all split: if_splits)
  then have "tt_send_mutex st \<noteq> Some i"
    using assms(1) tt_invD(2) [of mode st i] by (simp add: tt_safe_def)
  then show ?thesis
    using assms(1) i by (auto simp: tt_safe_def tt_inv_def nth_list_update)
qed

lemma tt_action_conserves:
  assumes "tt_safe os mode st" and "tt_action os a st = Some st'"
  shows "bytes_sent (trace (tt_socket st')) @ backlog (tt_socket st') =
    bytes_sent (trace (tt_socket st)) @ backlog (tt_socket st) @ tt_accepts a st"
proof (cases a)
  case (Run i)
  then have "tt_step os i st = Some st'" using assms(2) by simp
  then show ?thesis
  proof (cases rule: tt_step_cases)
    case (move l' s n)
    then show ?thesis using Run tt_safe_move [OF assms(1) move(1-3)] by (simp add: step_ok_def)
  qed (simp add: Run)
qed (use assms(2) in \<open>auto split: if_splits\<close>)

text \<open>The two progress laws of the whole system.\<close>

definition tt_attended :: "tcp_threads \<Rightarrow> bool" where
  "tt_attended st \<longleftrightarrow> (tcp_is_valid (tt_socket st) \<and> backlog (tt_socket st) \<noteq> [] \<longrightarrow>
     (\<exists>l \<in> set (tt_locations st). responsible l))"

definition tt_wakeful :: "tcp_threads \<Rightarrow> bool" where
  "tt_wakeful st \<longleftrightarrow> (AtSleep \<in> set (tt_locations st) \<longrightarrow>
     tcp_send_queue_waits (tt_socket st) \<or> (\<exists>k. AtNotify k \<in> set (tt_locations st)))"

lemma in_wake_all: "l \<in> set (wake_all ls) \<longleftrightarrow> l \<noteq> AtSleep \<and> (l \<in> set ls \<or> l = AtWait \<and> AtSleep \<in> set ls)"
  by (auto simp: wake_all_def)

lemma location_step_sleep:
  assumes "location_step os l s = (AtSleep, s', n)" and "movable l"
  shows "\<not> n \<and> tcp_send_queue_waits s'"
proof (cases l)
  case AtWrite
  then show ?thesis
    using assms(1) by (auto simp: tcp_write_once_def Let_def
      split: if_splits option.splits write_res.splits errno.splits)
next
  case (AtClose fast k)
  then show ?thesis
    using assms(1) by (auto split: prod.splits option.splits elim: after_closing.elims)
next
  case (AtNotify k)
  then show ?thesis using assms(1) by (auto elim: after_closing.elims)
qed (use assms in \<open>auto simp: movable_def split: if_splits option.splits sum.splits\<close>)

lemma tt_action_attended:
  assumes "tt_safe os mode st" and "tt_attended st" and "tt_action os a st = Some st'"
  shows "tt_attended st'"
proof (cases a)
  case (Wake i)
  then have i: "i < length (tt_locations st)" "tt_locations st ! i = AtSleep"
      "st' = st\<lparr>tt_locations := (tt_locations st)[i := AtWait]\<rparr>"
    using assms(3) by (simp_all split: if_splits)
  have "l \<noteq> AtSleep" if "responsible l" for l using that by auto
  then show ?thesis using assms(2) i in_update(2) [OF i(1)] unfolding tt_attended_def by fastforce
next
  case (Run i)
  then have "tt_step os i st = Some st'" using assms(3) by simp
  then show ?thesis
  proof (cases rule: tt_step_cases)
    case lock
    then show ?thesis using in_update(1) [OF lock(1), of AtNext] by (auto simp: tt_attended_def intro!: bexI)
  next
    case (move l' s n)
    define ls where "ls = (if n then wake_all (tt_locations st) else tt_locations st)"
    have ok: "write_bounded os" "shutdown_ok os" "tcp_inv mode (tt_socket st)"
        "location_ok (tt_locations st ! i) (tt_socket st)"
      using assms(1) move(1) by (auto simp: tt_safe_def tt_inv_def)
    have ls: "i < length ls" "ls ! i = tt_locations st ! i" using move(1,2) by (auto simp: ls_def movable_def)
    have resp: "l \<in> set (tt_locations st) \<Longrightarrow> responsible l \<Longrightarrow> l \<in> set ls" for l
      by (auto simp: ls_def in_wake_all)
    have "\<exists>l \<in> set (ls[i := l']). responsible l" if "tcp_is_valid s \<and> backlog s \<noteq> []"
    proof (cases "responsible l'")
      case True
      then show ?thesis using in_update(1) [OF ls(1)] by blast
    next
      case False
      then have "tcp_is_valid (tt_socket st)" "backlog (tt_socket st) \<noteq> []" "\<not> responsible (ls ! i)"
        using location_step_responsible [OF ok move(2,3)] that ls(2) by auto
      then show ?thesis using assms(2) resp in_update(2) [OF ls(1)] unfolding tt_attended_def by metis
    qed
    then show ?thesis unfolding tt_attended_def move(4) ls_def [symmetric] by simp
  qed
qed

lemma tt_action_wakeful:
  assumes "tt_safe os mode st" and "\<And>h fd. os_shutdown os h fd = None" and "tt_wakeful st"
    and "tt_action os a st = Some st'"
  shows "tt_wakeful st'"
proof (cases a)
  case (Wake i)
  then have i: "i < length (tt_locations st)" "tt_locations st ! i = AtSleep"
      "st' = st\<lparr>tt_locations := (tt_locations st)[i := AtWait]\<rparr>"
    using assms(4) by (simp_all split: if_splits)
  then show ?thesis
    using assms(3) in_update(2,3) [OF i(1), of _ AtWait] unfolding tt_wakeful_def by fastforce
next
  case (Run i)
  then have "tt_step os i st = Some st'" using assms(4) by simp
  then show ?thesis
  proof (cases rule: tt_step_cases)
    case lock
    then show ?thesis
      using assms(3) in_update(2,3) [OF lock(1), of _ AtNext] unfolding tt_wakeful_def by fastforce
  next
    case (move l' s n)
    have ok: "write_bounded os" "tcp_inv mode (tt_socket st)"
        "location_ok (tt_locations st ! i) (tt_socket st)"
      using assms(1) move(1) by (auto simp: tt_safe_def tt_inv_def)
    show ?thesis
    proof (cases n)
      case True
      have i: "i < length (wake_all (tt_locations st))" using move(1) by simp
      have "l' \<noteq> AtSleep" using location_step_sleep [of os _ _ s n] move(2,3) True by auto
      then have "AtSleep \<notin> set (tt_locations st')"
        using True move(4) in_update(3) [OF i, of AtSleep l'] by (auto simp: in_wake_all)
      then show ?thesis by (simp add: tt_wakeful_def)
    next
      case False
      let ?ls = "(tt_locations st)[i := l']"
      have "tcp_send_queue_waits s \<or> (\<exists>k. AtNotify k \<in> set ?ls)" if "AtSleep \<in> set ?ls"
      proof (cases "l' = AtSleep")
        case True
        then show ?thesis using location_step_sleep [of os _ _ s n] move(2,3) by auto
      next
        case sl: False
        then have "AtSleep \<in> set (tt_locations st)" using that in_update(3) [OF move(1)] by blast
        then consider "tcp_send_queue_waits (tt_socket st)" | k where "AtNotify k \<in> set (tt_locations st)"
          using assms(3) by (auto simp: tt_wakeful_def)
        then show ?thesis
        proof cases
          case 1
          then show ?thesis
            using location_step_waits [OF ok(1) assms(2) ok(2,3) move(2)] move(3) False in_update(1) [OF move(1)] by metis
        next
          case 2
          have "tt_locations st ! i \<noteq> AtNotify k" using move(3) False by auto
          then show ?thesis using 2 in_update(2) [OF move(1)] by metis
        qed
      qed
      then show ?thesis using False move(4) by (simp add: tt_wakeful_def)
    qed
  qed
qed

text \<open>Every step of a thread brings the system closer to its end.\<close>

lemma rank_wake_all: "sum_list (map (rank n) (wake_all ls)) \<le> sum_list (map (rank n) ls) + length ls"
  by (induction ls) (auto simp: wake_all_def)

lemma tt_step_decreases:
  assumes "tt_safe os mode st" and "tt_step os i st = Some st'"
  shows "tt_size st' < tt_size st"
  using assms(2)
proof (cases rule: tt_step_cases)
  case lock
  then show ?thesis
    using sum_list_map_update [OF lock(1), of "rank (length (tt_locations st))" AtNext] by (simp add: tt_size_def)
next
  case (move l' s n)
  let ?n = "length (tt_locations st)"
  define ls where "ls = (if n then wake_all (tt_locations st) else tt_locations st)"
  have ls: "i < length ls" "ls ! i = tt_locations st ! i" "length ls = ?n"
    using move(1,2) by (auto simp: ls_def movable_def)
  have "location_ok (tt_locations st ! i) (tt_socket st)" "write_bounded os" "shutdown_ok os" "tcp_inv mode (tt_socket st)"
    using assms(1) move(1) by (auto simp: tt_safe_def tt_inv_def)
  from location_step_decreases [OF this(2-4,1) move(2,3), of ?n]
  have "sending_size ?n s + rank ?n l' + (if n then ?n else 0) < sending_size ?n (tt_socket st) + rank ?n (ls ! i)"
    using ls(2) by simp
  moreover have "sum_list (map (rank ?n) ls) \<le> sum_list (map (rank ?n) (tt_locations st)) + (if n then ?n else 0)"
    using rank_wake_all [of ?n "tt_locations st"] by (simp add: ls_def)
  ultimately show ?thesis
    using ls(3) sum_list_map_update [OF ls(1), of "rank ?n" l'] unfolding tt_size_def move(4) ls_def [symmetric] by simp
qed

lemma tt_stuck:
  assumes "tt_safe os mode st" and "quiescent (tt_step os) st" and "l \<in> set (tt_locations st)"
  shows "finished l \<or> l = AtSleep"
proof -
  have move: False if "j < length (tt_locations st)" "movable (tt_locations st ! j)" for j
    using assms(2) tt_step_movable [OF that] prod_cases3 unfolding quiescent_def by (metis option.distinct(1))
  obtain i where i: "i < length (tt_locations st)" "l = tt_locations st ! i"
    using assms(3) by (auto simp: in_set_conv_nth)
  have "l \<noteq> AtLock"
  proof
    assume l: "l = AtLock"
    then have "tt_send_mutex st \<noteq> None"
      using assms(2) i by (auto simp: quiescent_def tt_step_def split: if_splits dest!: spec [of _ i])
    then obtain j where j: "tt_send_mutex st = Some j" by auto
    then have "j < length (tt_locations st)" "holds_send_mutex (tt_locations st ! j)"
      using assms(1) by (auto simp: tt_safe_def tt_inv_def)
    moreover from this(2) have "movable (tt_locations st ! j)"
      by (cases "tt_locations st ! j") (auto simp: movable_def)
    ultimately show False using move by blast
  qed
  then show ?thesis using move [OF i(1)] i(2) by (auto simp: movable_def)
qed

interpretation ttw: thread_system "tt_action os" "\<lambda>st. tt_safe os mode st \<and> tt_attended st" for os mode
  by unfold_locales (blast intro: tt_action_safe tt_action_attended)

interpretation ttn: thread_system "tt_action os"
  "\<lambda>st. tt_safe os mode st \<and> (\<forall>h fd. os_shutdown os h fd = None) \<and> tt_wakeful st" for os mode
  by unfold_locales (blast intro: tt_action_safe tt_action_wakeful)

interpretation tts: terminating_system "tt_step os" "\<lambda>st. tt_safe os mode st \<and> tt_attended st" tt_size for os mode
proof
  fix st i st'
  assume "tt_safe os mode st \<and> tt_attended st" "tt_step os i st = Some st'"
  then show "tt_safe os mode st' \<and> tt_attended st'" "tt_size st' < tt_size st"
    using ttw.step_inv [of os mode st "Run i" st'] tt_step_decreases by auto
qed

lemma schedule_Run: "schedule (tt_step os) is st = schedule (tt_action os) (map Run is) st"
  by (induction "is" arbitrary: st) (simp_all split: option.split)

lemma schedule_conserves:
  assumes "tt_safe os mode st" and "schedule (tt_action os) as st = Some st'"
  shows "bytes_sent (trace (tt_socket st')) @ backlog (tt_socket st') =
    bytes_sent (trace (tt_socket st)) @ backlog (tt_socket st) @ tt_accepted os as st"
  using assms
proof (induction "as" arbitrary: st)
  case (Cons a "as")
  then obtain u where u: "tt_action os a st = Some u" "schedule (tt_action os) as u = Some st'"
    by (auto split: option.splits)
  from Cons.IH [OF tt_action_safe [OF Cons.prems(1) u(1)] u(2)] show ?case
    using tt_action_conserves [OF Cons.prems(1) u(1)] u(1) by simp
qed simp

section \<open>Properties\<close>

interpretation ttb: thread_system "tt_action os" "tt_safe os mode" for os mode
  by unfold_locales (rule tt_action_safe)

lemma tt_safe_init:
  assumes "write_bounded os" and "shutdown_ok os" and "tcp_inv mode s" and "list_all entry ls"
  shows "tt_safe os mode (tt_init s ls)"
  using assms tt_inv_init by (simp add: tt_safe_def)

lemma tt_attended_init: "backlog s = [] \<Longrightarrow> tt_attended (tt_init s ls)"
  by (simp add: tt_attended_def tt_init_def)


text \<open>Two senders, a waiting thread and one that closes the socket, on a connected socket.\<close>

definition four_threads :: "location list" where
  "four_threads = [AtSend False [7, 8] 2 False, AtSend True [9] 1 True, AtWait, AtClose False None]"

lemma four_threads: "list_all entry four_threads"
  by (simp add: four_threads_def)

lemma four_threads_complete:
  obtains "is" st where "schedule (tt_step (feeding_os [])) is (tt_init (connected_socket Datagram) four_threads) = Some st"
    "quiescent (tt_step (feeding_os [])) st"
proof -
  have "tt_safe (feeding_os []) Datagram (tt_init (connected_socket Datagram) four_threads) \<and>
      tt_attended (tt_init (connected_socket Datagram) four_threads)"
    using tt_safe_init [OF feeding_os(3) feeding_shutdown_ok tcp_inv_connected_socket(1) four_threads]
    by (simp add: tt_attended_init)
  from tts.schedule_completes [OF this] show thesis using that by metis
qed


lemma tt_finished:
  assumes "tt_safe os mode st" and "tt_attended st" and "quiescent (tt_step os) st"
  shows "(\<forall>l \<in> set (tt_locations st). finished l \<or> l = AtSleep) \<and>
    (tcp_is_valid (tt_socket st) \<and> backlog (tt_socket st) \<noteq> [] \<longrightarrow> AtDone (Inr True) \<in> set (tt_locations st))"
proof -
  note stuck = tt_stuck [OF assms(1,3)]
  have "l = AtDone (Inr True)" if "responsible l" "finished l \<or> l = AtSleep" for l
    using that by (cases l) auto
  then show ?thesis using assms(2) stuck unfolding tt_attended_def by metis
qed

text \<open>
  C13. The threads always come to an end: from every moment of every interleaving, any further schedule is
  bounded by the work that is left, and some schedule reaches a state in which no thread can move.  There is no
  deadlock: in such a state every call has returned, or waits in \<open>wait_send_queue_empty\<close>.  And nothing is left
  behind unnoticed: if the socket is still open and not everything is written, some call of \<open>send\<close> or \<open>do_send\<close> has
  returned true, which makes the listener wait for the socket to become writable.
\<close>

theorem tcp_threads_finish:
  assumes "write_bounded os" and "shutdown_ok os" and "tcp_inv mode s" and "list_all entry ls" and "backlog s = []"
    and "schedule (tt_action os) as (tt_init s ls) = Some st"
  shows "(\<exists>is st'. schedule (tt_step os) is st = Some st' \<and> quiescent (tt_step os) st') \<and>
    (\<forall>is st'. schedule (tt_step os) is st = Some st' \<longrightarrow> length is \<le> tt_size st \<and>
      (quiescent (tt_step os) st' \<longrightarrow> (\<forall>l \<in> set (tt_locations st'). finished l \<or> l = AtSleep) \<and>
        (tcp_is_valid (tt_socket st') \<and> backlog (tt_socket st') \<noteq> [] \<longrightarrow> AtDone (Inr True) \<in> set (tt_locations st'))))"
proof -
  have st: "tt_safe os mode st \<and> tt_attended st"
    using tt_safe_init [OF assms(1-4)] tt_attended_init [OF assms(5)] by (intro ttw.schedule_inv [OF _ assms(6)]) simp
  have "(\<forall>l \<in> set (tt_locations u). finished l \<or> l = AtSleep) \<and>
      (tcp_is_valid (tt_socket u) \<and> backlog (tt_socket u) \<noteq> [] \<longrightarrow> AtDone (Inr True) \<in> set (tt_locations u))"
    if "schedule (tt_step os) is st = Some u" "quiescent (tt_step os) u" for "is" u
    using tts.schedule_inv [OF st that(1)] that(2) tt_finished by metis
  moreover have "length is \<le> tt_size st" if "schedule (tt_step os) is st = Some u" for "is" u
    using tts.schedule_bounded [OF st that] by simp
  ultimately show ?thesis using tts.schedule_completes [OF st] by metis
qed

theorem tcp_threads_finish_witness:
  "\<exists>is st. schedule (tt_step (feeding_os [])) is (tt_init (connected_socket Datagram) four_threads) = Some st \<and>
    (\<forall>l \<in> set (tt_locations st). finished l \<or> l = AtSleep)"
  using tcp_threads_finish [OF feeding_os(3) feeding_shutdown_ok tcp_inv_connected_socket(1) four_threads
      tcp_inv_connected_socket(4), of "[]" "[]" Datagram "tt_init (connected_socket Datagram) four_threads"]
  by (metis schedule.simps(1))

text \<open>
  C15. \<open>wait_send_queue_empty\<close> misses no wakeup, as long as \<open>shutdown\<close> does not fail: when no thread can move any
  more and a thread still sleeps, its condition still holds (the socket is open and its queue is not empty), and some
  other call has returned true, so that \<open>do_send\<close> will be called again.
\<close>

theorem tcp_threads_no_lost_wakeup:
  assumes "write_bounded os" and "\<forall>h fd. os_shutdown os h fd = None" and "tcp_inv mode s" and "list_all entry ls"
    and "backlog s = []" and "schedule (tt_action os) as (tt_init s ls) = Some st"
    and "quiescent (tt_step os) st" and "AtSleep \<in> set (tt_locations st)"
  shows "tcp_send_queue_waits (tt_socket st) \<and> AtDone (Inr True) \<in> set (tt_locations st)"
proof -
  have sd: "shutdown_ok os" using assms(2) by (simp add: shutdown_ok_def)
  note init = tt_safe_init [OF assms(1) sd assms(3,4)]
  have "AtSleep \<notin> set ls" using assms(4) by (auto simp: list_all_iff)
  then have "tt_wakeful (tt_init s ls)" by (simp add: tt_wakeful_def tt_init_def)
  then have st: "tt_safe os mode st" "tt_wakeful st"
    using ttn.schedule_inv [OF _ assms(6)] init assms(2) by blast+
  note stuck = tt_stuck [OF st(1) assms(7)]
  have "AtNotify k \<notin> set (tt_locations st)" for k using stuck by fastforce
  then have w: "tcp_send_queue_waits (tt_socket st)" using st(2) assms(8) by (auto simp: tt_wakeful_def)
  have "tt_inv mode st" using st(1) by (simp add: tt_safe_def)
  then have i: "send_inv (tt_socket st)" by (simp add: tt_inv_def tcp_inv_def)
  then have "m_send_queue (tt_socket st) \<noteq> []" using w by (auto simp: tcp_send_queue_waits_def send_inv_def)
  then obtain m where "m \<in> set (m_send_queue (tt_socket st))" by (meson last_in_set)
  moreover from this have "remaining m \<noteq> []"
    using i by (auto simp: send_inv_def list_all_iff queued_remaining queued_ok_def word_less_nat_alt)
  ultimately have "backlog (tt_socket st) \<noteq> []" by (auto simp: backlog_def)
  moreover have "tt_attended st"
    using ttw.schedule_inv [OF _ assms(6)] init tt_attended_init [OF assms(5)] by blast
  ultimately show ?thesis
    using tt_finished [OF st(1) _ assms(7)] w by (auto simp: tcp_send_queue_waits_def)
qed

text \<open>A kernel that takes no bytes: the waiting thread sleeps.\<close>

definition busy_os :: os where
  "busy_os = (feeding_os [])\<lparr>os_write := \<lambda>_ _ _. WriteErr EAGAIN\<rparr>"

lemma busy_os: "write_bounded busy_os" "\<forall>h fd. os_shutdown busy_os h fd = None"
  by (simp_all add: busy_os_def write_bounded_def feeding_os_def)

text \<open>One thread has sent a message in vain, a second one has queued one more, and a third one waits.\<close>

definition sleeping_threads :: tcp_threads where
  "sleeping_threads = the (schedule (tt_action busy_os) [Run 0, Run 0, Run 0, Run 0, Run 0, Run 0, Run 1, Run 1, Run (Suc 1)]
     (tt_init (connected_socket Stream) [AtSend True [7] 1 False, AtSend True [9] 1 True, AtWait]))"

lemma sleeping_threads:
  "schedule (tt_action busy_os) [Run 0, Run 0, Run 0, Run 0, Run 0, Run 0, Run 1, Run 1, Run (Suc 1)]
     (tt_init (connected_socket Stream) [AtSend True [7] 1 False, AtSend True [9] 1 True, AtWait]) = Some sleeping_threads"
  "tt_locations sleeping_threads = [AtDone (Inr True), AtDone (Inr True), AtSleep]"
  by (simp_all add: sleeping_threads_def tt_init_def tt_step_def connected_socket_def tcp_new_def tcp_is_valid_def tcp_message_out_def
      tcp_enqueue_def message_out_shared_def tcp_next_message_def tcp_write_once_def sys_def busy_os_def feeding_os_def
      mem_read_def Let_def tcp_send_queue_waits_def wake_all_def del: make_slicer.simps)

theorem tcp_threads_no_lost_wakeup_witness:
  "tcp_send_queue_waits (tt_socket sleeping_threads) \<and> AtDone (Inr True) \<in> set (tt_locations sleeping_threads)"
proof -
  have "tt_step busy_os i sleeping_threads = None" for i
    by (cases "i < 3") (auto simp: tt_step_def sleeping_threads(2) less_Suc_eq numeral_3_eq_3)
  then have "quiescent (tt_step busy_os) sleeping_threads" by (simp add: quiescent_def)
  then show ?thesis
    by (intro tcp_threads_no_lost_wakeup [OF busy_os tcp_inv_connected_socket(1) [of Stream] _ tcp_inv_connected_socket(4) sleeping_threads(1)])
      (simp_all add: sleeping_threads(2))
qed

text \<open>
  C36. When \<open>shutdown\<close> fails because the peer has closed the connection already, \<open>close\<close> marks the socket closed but
  returns before it notifies: a thread that waits for the queue to become empty sleeps on, although its condition
  no longer holds and no other thread is left that could wake it.
\<close>

theorem tcp_close_strands_waiter:
  assumes "os_shutdown os (trace s) (m_fd s) = Some ENOTCONN" and "m_state s = Connected" and "tcp_send_queue_waits s"
  shows "\<exists>st. schedule (tt_step os) [0, 1] (tt_init s [AtWait, AtClose False None]) = Some st \<and>
    tt_locations st = [AtSleep, AtClosed (Inr True)] \<and> \<not> tcp_send_queue_waits (tt_socket st) \<and>
    quiescent (tt_step os) st"
proof -
  let ?t = "tcp_reset_buffer ((sys (SysShutdown (m_fd s) (Some ENOTCONN)) (s\<lparr>m_state := Shutdown\<rparr>))\<lparr>m_fd := -1, m_state := Closed\<rparr>)"
  let ?st = "\<lparr>tt_socket = ?t, tt_send_mutex = None, tt_locations = [AtSleep, AtClosed (Inr True)]\<rparr>"
  have "schedule (tt_step os) [0, 1] (tt_init s [AtWait, AtClose False None]) = Some ?st"
    using assms by (simp add: tt_init_def tt_step_def tcp_close_begin_def Let_def)
  moreover have "tt_step os i ?st = None" for i
    by (cases "i < 2") (auto simp: tt_step_def less_2_cases_iff)
  ultimately show ?thesis
    by (intro exI [of _ ?st]) (simp add: quiescent_def tcp_send_queue_waits_def tcp_is_valid_def)
qed

theorem tcp_close_strands_waiter_witness:
  "\<exists>st. schedule (tt_step ((feeding_os [])\<lparr>os_shutdown := \<lambda>_ _. Some ENOTCONN\<rparr>)) [0, 1]
      (tt_init loaded_socket [AtWait, AtClose False None]) = Some st \<and>
    tt_locations st = [AtSleep, AtClosed (Inr True)]"
  using tcp_close_strands_waiter [of "(feeding_os [])\<lparr>os_shutdown := \<lambda>_ _. Some ENOTCONN\<rparr>" loaded_socket]
  by (auto simp: loaded_socket_def connected_socket_def tcp_new_def tcp_enqueue_def message_out_unique_def
      tcp_send_queue_waits_def tcp_is_valid_def)

end
