(* ===== verification/Tcp_Solo.thy ===== *)
theory Tcp_Solo
  imports Tcp_Threads
begin

text \<open>
  The link between the two models of the sending half of \<open>TcpSocket\<close>: the interruptible steps of \<open>Tcp_Threads\<close>, run
  by one thread alone, and the sequential operations of \<open>Tcp_Send\<close> and \<open>Tcp_Socket\<close>.  Every sequential operation is simulated
  by steps, and since a thread on its own is deterministic and the operations return, the two agree.
\<close>

section \<open>A thread that runs alone\<close>

text \<open>
  The steps of a single thread, put together again: without other threads they compute the sequential
  operations of the socket.
\<close>

definition solo :: "location \<Rightarrow> tcp_socket \<Rightarrow> tcp_threads" where
  "solo l s = \<lparr>tt_socket = s, tt_send_mutex = (if holds_send_mutex l then Some 0 else None), tt_locations = [l]\<rparr>"

definition alone :: "os \<Rightarrow> location \<Rightarrow> tcp_socket \<Rightarrow> location \<Rightarrow> tcp_socket \<Rightarrow> bool" where
  "alone os l s l' s' \<longleftrightarrow> (\<exists>n. schedule (tt_step os) (replicate n 0) (solo l s) = Some (solo l' s'))"

lemma alone_refl: "alone os l s l s"
  unfolding alone_def by (rule exI [of _ 0]) simp

lemma alone_trans:
  assumes "alone os l s l' s'" and "alone os l' s' l'' s''"
  shows "alone os l s l'' s''"
proof -
  obtain m n where "schedule (tt_step os) (replicate m 0) (solo l s) = Some (solo l' s')"
    "schedule (tt_step os) (replicate n 0) (solo l' s') = Some (solo l'' s'')"
    using assms by (auto simp: alone_def)
  then show ?thesis
    unfolding alone_def by (intro exI [of _ "m + n"]) (simp add: replicate_add schedule_append)
qed

lemma alone_step:
  assumes "movable l" and "location_step os l s = (l', s', n)" and "holds_send_mutex l' \<Longrightarrow> holds_send_mutex l"
    and "l' \<noteq> AtSleep" and "alone os l' s' l'' s''"
  shows "alone os l s l'' s''"
proof -
  have "tt_step os 0 (solo l s) = Some (solo l' s')"
    using tt_step_movable [of 0 "solo l s" os l' s' n] assms(1-4)
    by (auto simp: solo_def wake_all_def)
  then have "alone os l s l' s'" unfolding alone_def by (intro exI [of _ 1]) simp
  then show ?thesis using assms(5) by (rule alone_trans)
qed

lemma alone_lock:
  assumes "alone os AtNext s l' s'"
  shows "alone os AtLock s l' s'"
proof -
  have "tt_step os 0 (solo AtLock s) = Some (solo AtNext s)" by (simp add: tt_step_def solo_def)
  then have "alone os AtLock s AtNext s" unfolding alone_def by (intro exI [of _ 1]) simp
  then show ?thesis using assms by (rule alone_trans)
qed

lemma tcp_close_steps:
  "tcp_close os fast s =
    (case tcp_close_begin os fast s of (Some r, t) \<Rightarrow> (r, t) | (None, t) \<Rightarrow> (Inr True, sys SysNotifyAll t))"
  by (simp add: tcp_close_def tcp_close_begin_def Let_def split: option.split)

lemma after_closing_simps [simp]:
  "movable (AtClose fast k)" "movable (AtNotify k)" "after_closing k r \<noteq> AtSleep"
  "\<not> holds_send_mutex (after_closing k r)"
  by (cases k; cases r; simp add: movable_def)+

lemma alone_close:
  assumes "tcp_close os fast s = (r, s')"
  shows "alone os (AtClose fast k) s (after_closing k r) s'"
proof (cases "tcp_close_begin os fast s")
  case (Pair x t)
  show ?thesis
  proof (cases x)
    case None
    then have eq: "r = Inr True" "s' = sys SysNotifyAll t" using assms Pair by (simp_all add: tcp_close_steps)
    have n: "alone os (AtNotify k) t (after_closing k r) s'"
      by (rule alone_step [OF _ _ _ _ alone_refl]) (simp_all add: eq)
    show ?thesis
      by (rule alone_step [where l' = "AtNotify k" and s' = t and n = False, OF _ _ _ _ n]; cases k) (simp_all add: Pair None)
  next
    case (Some r')
    then have eq: "r' = r" "t = s'" using assms Pair by (simp_all add: tcp_close_steps)
    show ?thesis
      by (rule alone_step [where n = False, OF _ _ _ _ alone_refl]) (simp_all add: Pair Some eq)
  qed
qed

lemma movable_simps [simp]: "movable AtNext" "movable AtCheck" "movable AtWrite"
  "movable (AtSend sh d n a)" "movable (AtEnqueue sh d n a)"
  by (simp_all add: movable_def)

definition write_exit :: "(error + bool option) \<Rightarrow> location" where
  "write_exit r = (case r of Inl e \<Rightarrow> AtDone (Inl e) | Inr (Some b) \<Rightarrow> AtDone (Inr b) | Inr None \<Rightarrow> AtNext)"

definition write_rest :: "(error + bool option) \<Rightarrow> tcp_socket \<Rightarrow> tcp_socket" where
  "write_rest r s = (if r = Inr None then s\<lparr>m_current_message := None\<rparr> else s)"

lemma close_then_exit:
  fixes s :: tcp_socket
  assumes "close_then (tcp_close os) True s (case r0 of Inl e \<Rightarrow> Inl e | Inr b \<Rightarrow> Inr (Some b)) = (r, s')"
  shows "alone os (AtClose True (Some r0)) s (write_exit r) (write_rest r s')"
proof -
  obtain b t where c: "tcp_close os True s = (b, t)" by force
  have "write_exit r = after_closing (Some r0) b \<and> write_rest r s' = t"
  proof (cases b)
    case (Inl e)
    then show ?thesis using assms c by (auto simp: close_then_def write_exit_def write_rest_def)
  next
    case (Inr x)
    then have "r = (case r0 of Inl e \<Rightarrow> Inl e | Inr b \<Rightarrow> Inr (Some b))" "s' = t"
      using assms c by (simp_all add: close_then_def)
    then show ?thesis using Inr by (cases r0) (simp_all add: write_exit_def write_rest_def)
  qed
  then show ?thesis using alone_close [OF c, of "Some r0"] by simp
qed

lemma alone_write_loop:
  fixes s :: tcp_socket
  assumes "tcp_write_loop os (tcp_close os) s = Some (r, s')"
  shows "alone os AtWrite s (write_exit r) (write_rest r s')"
proof -
  let ?P = "\<lambda>os (cl :: tcp_socket closer) (s :: tcp_socket) y. cl = tcp_close os \<longrightarrow>
    alone os AtWrite s (write_exit (fst y)) (write_rest (fst y) (snd y))"
  have "?P os (tcp_close os) s (r, s')"
  proof (rule tcp_write_loop.raw_induct [where P = ?P, OF _ assms])
    fix loop :: "os \<Rightarrow> tcp_socket closer \<Rightarrow> tcp_socket \<Rightarrow> (tcp_socket, bool option) outcome option"
      and os cl s y
    assume ih: "\<And>os cl s y. loop os cl s = Some y \<Longrightarrow> ?P os cl s y"
    assume body: "(case m_current_message s of
        None \<Rightarrow> Some (Inl MemoryFault, s)
      | Some message \<Rightarrow>
        if mo_sent_pos message < mo_length message then
          (case mem_read (mo_data message) (unat (mo_sent_pos message))
                  (unat (mo_length message - mo_sent_pos message)) of
             None \<Rightarrow> Some (Inl MemoryFault, s)
           | Some bs \<Rightarrow>
             let x = os_write os (trace s) (m_fd s) bs;
                 s = sys (SysWrite (m_fd s) bs x) s
             in case x of
                  WriteN n \<Rightarrow>
                    if 0 < n then
                      loop os cl
                        (s\<lparr>m_current_message := Some (message\<lparr>mo_sent_pos := mo_sent_pos message + of_nat n\<rparr>)\<rparr>)
                    else Some (close_then cl True s (Inr (Some False)))
                | WriteErr e \<Rightarrow>
                    (case e of
                       EAGAIN \<Rightarrow> Some (Inr (Some True), s)
                     | ECONNRESET \<Rightarrow> Some (close_then cl True s (Inr (Some False)))
                     | EPIPE \<Rightarrow> Some (close_then cl True s (Inr (Some False)))
                     | _ \<Rightarrow> Some (close_then cl True s (Inl (SocketError ''strerror'')))))
        else Some (Inr None, s)) = Some y"
    show "?P os cl s y"
    proof
      assume cl: "cl = tcp_close os"
      obtain l t where w: "tcp_write_once os s = (l, t)" by force
      have "l = write_exit (fst y) \<and> t = write_rest (fst y) (snd y) \<or> l = AtWrite \<and> loop os cl t = Some y \<or>
        (\<exists>r0. l = AtClose True (Some r0) \<and> y = close_then cl True t (case r0 of Inl e \<Rightarrow> Inl e | Inr b \<Rightarrow> Inr (Some b)))"
        using body w unfolding tcp_write_once_def
        by (auto simp: write_exit_def write_rest_def Let_def
          split: option.splits if_splits write_res.splits errno.splits)
      then have a: "alone os l t (write_exit (fst y)) (write_rest (fst y) (snd y))"
        using ih cl close_then_exit [of os t _ "fst y" "snd y"] alone_refl by fastforce
      have "l \<noteq> AtSleep"
        using w by (auto simp: tcp_write_once_def Let_def split: option.splits if_splits write_res.splits errno.splits)
      then show "alone os AtWrite s (write_exit (fst y)) (write_rest (fst y) (snd y))"
        by (intro alone_step [OF _ _ _ _ a, where n = False]) (simp_all add: w)
    qed
  qed
  then show ?thesis by simp
qed

lemma alone_do_send:
  fixes s :: tcp_socket
  assumes "tcp_do_send os (tcp_close os) s = Some (r, s')"
  shows "alone os AtNext s (AtDone r) s'"
proof -
  let ?P = "\<lambda>os (cl :: tcp_socket closer) (s :: tcp_socket) y. cl = tcp_close os \<longrightarrow> alone os AtNext s (AtDone (fst y)) (snd y)"
  have "?P os (tcp_close os) s (r, s')"
  proof (rule tcp_do_send.raw_induct [where P = ?P, OF _ assms], rule impI)
    fix do_send :: "os \<Rightarrow> tcp_socket closer \<Rightarrow> tcp_socket \<Rightarrow> (tcp_socket, bool) outcome option"
      and os :: os and cl :: "tcp_socket closer" and s :: tcp_socket and y
    assume ih: "\<And>os cl s y. do_send os cl s = Some y \<Longrightarrow> ?P os cl s y" and cl: "cl = tcp_close os"
    assume body: "(case tcp_next_message s of
        None \<Rightarrow> Some (Inr False, s)
      | Some s \<Rightarrow>
        if \<not> tcp_is_valid s then Some (Inl (SocketError ''Socket is closed''), s)
        else Option.bind (tcp_write_loop os cl s) (\<lambda>(r, s).
          case r of
            Inl e \<Rightarrow> Some (Inl e, s)
          | Inr None \<Rightarrow> do_send os cl (s\<lparr>m_current_message := None\<rparr>)
          | Inr (Some b) \<Rightarrow> Some (Inr b, s))) = Some y"
    show "alone os AtNext s (AtDone (fst y)) (snd y)"
    proof (cases "tcp_next_message s")
      case None
      then show ?thesis
        using body by (intro alone_step [where n = False, OF _ _ _ _ alone_refl]) auto
    next
      case (Some t)
      have "alone os AtCheck t (AtDone (fst y)) (snd y)"
      proof (cases "tcp_is_valid t")
        case False
        then show ?thesis
          using body Some by (intro alone_step [where n = False, OF _ _ _ _ alone_refl]) auto
      next
        case True
        then obtain r u where w: "tcp_write_loop os (tcp_close os) t = Some (r, u)"
            "(case r of Inl e \<Rightarrow> Some (Inl e, u) | Inr None \<Rightarrow> do_send os cl (u\<lparr>m_current_message := None\<rparr>)
              | Inr (Some b) \<Rightarrow> Some (Inr b, u)) = Some y"
          using body Some cl by (auto simp: bind_eq_Some_conv)
        have "alone os (write_exit r) (write_rest r u) (AtDone (fst y)) (snd y)"
          using w(2) ih cl alone_refl by (auto simp: write_exit_def write_rest_def split: sum.splits option.splits)
        then have "alone os AtWrite t (AtDone (fst y)) (snd y)"
          by (rule alone_trans [OF alone_write_loop [OF w(1)]])
        then show ?thesis
          by (rule alone_step [where n = False, rotated 4]) (simp_all add: True)
      qed
      then show ?thesis
        by (rule alone_step [where n = "m_current_message s = None", rotated 4]) (simp_all add: Some)
    qed
  qed
  then show ?thesis by simp
qed

text \<open>The two \<open>send\<close> methods behind one definition, as in the steps.\<close>

definition tcp_send_ptr :: "bool \<Rightarrow> os \<Rightarrow> byte list \<Rightarrow> u32 \<Rightarrow> bool \<Rightarrow> tcp_socket \<Rightarrow> (tcp_socket, bool) outcome option" where
  "tcp_send_ptr shared = (if shared then tcp_send_shared else tcp_send_unique)"

lemma tcp_send_ptr_eq:
  "tcp_send_ptr shared os data len async s =
    (if len = 0 then Some (Inl (SocketError ''Message size has to be > 0''), s)
     else if \<not> tcp_is_valid s then Some (Inl (SocketError ''Socket is closed''), s)
     else if m_send_queue_size s \<ge> m_max_send_queue_size s then Some (Inl SendQueueFull, s)
     else case tcp_message_out shared data len s of
       Inl e \<Rightarrow> Some (Inl e, s)
     | Inr m \<Rightarrow> if async then Some (Inr True, tcp_enqueue m s) else tcp_do_send os (tcp_close os) (tcp_enqueue m s))"
  by (auto simp: tcp_send_ptr_def tcp_send_shared_def tcp_send_unique_def tcp_message_out_def Let_def
      split: sum.split prod.split)

lemma alone_enqueue:
  assumes "m_send_queue_size s < m_max_send_queue_size s" and "tcp_message_out shared data len s = Inr m"
    and "(if async then Some (Inr True, tcp_enqueue m s) else tcp_do_send os (tcp_close os) (tcp_enqueue m s)) = Some (r, s')"
  shows "alone os (AtEnqueue shared data len async) s (AtDone r) s'"
proof -
  have "alone os (if async then AtDone (Inr True) else AtLock) (tcp_enqueue m s) (AtDone r) s'"
    using assms(3) alone_refl by (auto intro: alone_lock alone_do_send split: if_splits)
  then show ?thesis
    by (rule alone_step [where n = False, rotated 4]; cases async) (use assms(1) [folded not_le] assms(2) in simp_all)
qed

lemma alone_send:
  assumes "tcp_send_ptr shared os data len async s = Some (r, s')"
  shows "alone os (AtSend shared data len async) s (AtDone r) s'"
proof (cases "len = 0 \<or> \<not> tcp_is_valid s")
  case True
  then show ?thesis
    using assms by (intro alone_step [where n = False, OF _ _ _ _ alone_refl]) (auto simp: tcp_send_ptr_eq)
next
  case False
  note eq = assms [unfolded tcp_send_ptr_eq]
  have "alone os (AtEnqueue shared data len async) s (AtDone r) s'"
  proof (cases "m_max_send_queue_size s \<le> m_send_queue_size s")
    case True
    then show ?thesis
      using eq False by (intro alone_step [where n = False, OF _ _ _ _ alone_refl]) simp_all
  next
    case room: False
    show ?thesis
    proof (cases "tcp_message_out shared data len s")
      case (Inl e)
      then show ?thesis
        using eq False room by (intro alone_step [where n = False, OF _ _ _ _ alone_refl]) simp_all
    next
      case (Inr m)
      then show ?thesis using eq False room by (intro alone_enqueue) simp_all
    qed
  qed
  then show ?thesis
    by (rule alone_step [where n = False, rotated 4]) (use False in simp_all)
qed

section \<open>Equivalence\<close>

text \<open>A thread on its own is deterministic, and a finished thread does not move.\<close>

lemma schedule_finished:
  assumes "finished l" and "schedule (tt_step os) (replicate n 0) (solo l s) = Some st"
  shows "st = solo l s"
proof -
  have "tt_step os 0 (solo l s) = None" using assms(1) by (cases l) (simp_all add: tt_step_def solo_def)
  then show ?thesis using assms(2) by (cases n) auto
qed

lemma solo_inject: "solo l s = solo l' s' \<longleftrightarrow> l = l' \<and> s = s'"
  by (auto simp: solo_def)

lemma alone_deterministic:
  assumes "alone os l s l1 s1" and "alone os l s l2 s2" and "finished l1" and "finished l2"
  shows "l1 = l2 \<and> s1 = s2"
proof -
  obtain m n where m: "schedule (tt_step os) (replicate m 0) (solo l s) = Some (solo l1 s1)"
    and n: "schedule (tt_step os) (replicate n 0) (solo l s) = Some (solo l2 s2)"
    using assms(1,2) by (auto simp: alone_def)
  have "solo l1 s1 = solo l2 s2"
  proof (cases "m \<le> n")
    case True
    then have "schedule (tt_step os) (replicate (n - m) 0) (solo l1 s1) = Some (solo l2 s2)"
      using m n schedule_append [of "tt_step os" "replicate m 0" "replicate (n - m) 0"]
      by (simp flip: replicate_add)
    then show ?thesis using schedule_finished [OF assms(3)] by metis
  next
    case False
    then have "schedule (tt_step os) (replicate (m - n) 0) (solo l2 s2) = Some (solo l1 s1)"
      using m n schedule_append [of "tt_step os" "replicate n 0" "replicate (m - n) 0"]
      by (simp flip: replicate_add)
    then show ?thesis using schedule_finished [OF assms(4)] by metis
  qed
  then show ?thesis by (simp add: solo_inject)
qed

lemma tcp_send_ptr_returns:
  assumes "write_bounded os" and "tcp_inv mode s" and "arguments_ok shared data len"
  obtains r s' where "tcp_send_ptr shared os data len async s = Some (r, s')"
proof (cases "len \<noteq> 0 \<and> tcp_is_valid s \<and> m_send_queue_size s < m_max_send_queue_size s")
  case True
  obtain m where m: "tcp_message_out shared data len s = Inr m" "queued_ok m"
    using tcp_message_out_ok [OF assms(2,3)] True by (auto simp: word_gt_0)
  have "\<exists>r s'. tcp_do_send os (tcp_close os) (tcp_enqueue m s) = Some (r, s')"
    using tcp_do_send_total [OF assms(1) tcp_enqueue(1) [OF assms(2) _ m(2)]] True by metis
  moreover have "\<not> m_max_send_queue_size s \<le> m_send_queue_size s" using True by (simp add: not_le)
  ultimately have "\<exists>r s'. tcp_send_ptr shared os data len async s = Some (r, s')"
    using True m(1) by (cases async) (simp_all add: tcp_send_ptr_eq)
  then show thesis using that by blast
next
  case False
  then have "\<exists>r s'. tcp_send_ptr shared os data len async s = Some (r, s')"
    by (auto simp: tcp_send_ptr_eq not_less)
  then show thesis using that by blast
qed

text \<open>
  C16. The interruptible model and the sequential one agree: a thread that runs alone from the entry of \<open>send\<close> (with an
  owned or a shared pointer), \<open>do_send\<close> or \<open>close\<close> ends with a result and a socket exactly when the sequential definition of the
  operation returns that result and that socket, system calls and notifications in the same order.
\<close>

theorem tcp_solo_equivalent:
  assumes "write_bounded os" and "tcp_inv mode s" and "arguments_ok False data len" and "arguments_ok True data' len'"
  shows "(alone os (AtSend False data len async) s (AtDone r) s' \<longleftrightarrow> tcp_send_unique os data len async s = Some (r, s')) \<and>
    (alone os (AtSend True data' len' async) s (AtDone r) s' \<longleftrightarrow> tcp_send_shared os data' len' async s = Some (r, s')) \<and>
    (alone os AtLock s (AtDone r) s' \<longleftrightarrow> tcp_do_send os (tcp_close os) s = Some (r, s')) \<and>
    (alone os (AtClose fast None) s (AtClosed r) s' \<longleftrightarrow> tcp_close os fast s = (r, s'))"
proof -
  have send: "alone os (AtSend shared d n async) s (AtDone r) s' \<longleftrightarrow> tcp_send_ptr shared os d n async s = Some (r, s')"
    if a: "arguments_ok shared d n" for shared d n
  proof
    assume l: "alone os (AtSend shared d n async) s (AtDone r) s'"
    obtain r1 s1 where b: "tcp_send_ptr shared os d n async s = Some (r1, s1)"
      by (rule tcp_send_ptr_returns [OF assms(1,2) a])
    from alone_deterministic [OF l alone_send [OF b]] b
    show "tcp_send_ptr shared os d n async s = Some (r, s')" by simp
  qed (rule alone_send)
  have "alone os AtLock s (AtDone r) s' \<longleftrightarrow> tcp_do_send os (tcp_close os) s = Some (r, s')"
  proof
    assume l: "alone os AtLock s (AtDone r) s'"
    obtain r1 s1 where b: "tcp_do_send os (tcp_close os) s = Some (r1, s1)"
      using tcp_do_send_total [OF assms(1,2)] by metis
    from alone_deterministic [OF l alone_lock [OF alone_do_send [OF b]]] b
    show "tcp_do_send os (tcp_close os) s = Some (r, s')" by simp
  qed (rule alone_lock [OF alone_do_send])
  moreover have "alone os (AtClose fast None) s (AtClosed r) s' \<longleftrightarrow> tcp_close os fast s = (r, s')"
  proof
    assume l: "alone os (AtClose fast None) s (AtClosed r) s'"
    obtain r1 s1 where b: "tcp_close os fast s = (r1, s1)" by force
    from alone_deterministic [OF l alone_close [OF b, of None]] b
    show "tcp_close os fast s = (r, s')" by simp
  next
    assume "tcp_close os fast s = (r, s')"
    from alone_close [OF this, of None] show "alone os (AtClose fast None) s (AtClosed r) s'" by simp
  qed
  ultimately show ?thesis
    using send [OF assms(3)] send [OF assms(4)] by (simp add: tcp_send_ptr_def)
qed

theorem tcp_solo_equivalent_witness:
  "\<exists>r s'. alone (feeding_os []) AtLock loaded_socket (AtDone r) s' \<and>
    tcp_do_send (feeding_os []) (tcp_close (feeding_os [])) loaded_socket = Some (r, s')"
proof -
  obtain r s' where "tcp_do_send (feeding_os []) (tcp_close (feeding_os [])) loaded_socket = Some (r, s')"
    using tcp_do_send_total [OF feeding_os(3) loaded_socket(1)] by metis
  then show ?thesis
    using tcp_solo_equivalent [OF feeding_os(3) loaded_socket(1), of "[7]" 1 "[7]" 1 "[]" False r s' True] by auto
qed

end
