(* ===== verification/Loop_Workers.thy ===== *)
theory Loop_Workers
  imports Event_Loop Threads
begin

text \<open>
  The threads of an \<open>EventLoop\<close> (\<open>src/EventLoop.cpp\<close>: \<open>run\<close>, \<open>thread_loop\<close>, \<open>update\<close>, \<open>stop\<close>, \<open>wait\<close>), interleaved.  A worker
  thread and a thread that calls \<open>stop\<close> are locations in these methods.  The semaphore is an \<open>eventfd\<close>, watched
  edge-triggered: a write adds to its counter and makes it ready, and one waiting thread takes the readiness.  What
  the handlers of the listeners and other threads do to the table of listeners happens at any time between the steps, and so
  do events on other descriptors and errors of \<open>epoll_wait\<close>.
\<close>

section \<open>Threads\<close>

datatype 'l loop_location =
    AtTop                    \<comment> \<open>the condition of the loop of \<open>thread_loop\<close>\<close>
  | AtRetry                  \<comment> \<open>the condition of the loop around \<open>epoll_wait\<close>\<close>
  | AtEpoll                  \<comment> \<open>in \<open>epoll_wait\<close>\<close>
  | AtSemaphore              \<comment> \<open>woken by the semaphore, before \<open>decrement_semaphore\<close>\<close>
  | AtWoken                  \<comment> \<open>after it\<close>
  | AtRaise                  \<comment> \<open>before \<open>increment_semaphore\<close> at the end of \<open>update\<close>\<close>
  | AtEvent int u32          \<comment> \<open>woken by a descriptor, with its flags\<close>
  | AtHandle 'l EventType    \<comment> \<open>in the handlers of a listener\<close>
  | AtEnd                    \<comment> \<open>\<open>thread_loop\<close> has returned\<close>
  | AtAbort error
  | StopTest                 \<comment> \<open>the entry of \<open>stop\<close>\<close>
  | StopLock                 \<comment> \<open>before \<open>m_okay = false\<close>\<close>
  | StopWait                 \<comment> \<open>in the loops that wait for the table to be empty\<close>
  | StopRaise                \<comment> \<open>before \<open>increment_semaphore\<close>\<close>
  | StopReturned             \<comment> \<open>another thread had stopped the loop\<close>
  | StopDone

record 'l loop_threads =
  lt_loop :: "'l event_loop"
  lt_ready :: bool
  lt_locations :: "'l loop_location list"

text \<open>\<open>run\<close> starts the workers; \<open>k\<close> threads will call \<open>stop\<close>.\<close>

definition lt_run :: "nat \<Rightarrow> nat \<Rightarrow> 'l event_loop \<Rightarrow> 'l loop_threads" where
  "lt_run num_threads k s =
     \<lparr>lt_loop = s, lt_ready = False, lt_locations = replicate num_threads AtTop @ replicate k StopTest\<rparr>"

text \<open>A write to the semaphore makes it ready.\<close>

definition lt_increment :: "'l loop_threads \<Rightarrow> 'l loop_threads" where
  "lt_increment st = st\<lparr>lt_loop := el_increment_semaphore (lt_loop st), lt_ready := True\<rparr>"

definition lt_go :: "nat \<Rightarrow> 'l loop_location \<Rightarrow> 'l loop_threads \<Rightarrow> 'l loop_threads" where
  "lt_go i l st = st\<lparr>lt_locations := (lt_locations st)[i := l]\<rparr>"

text \<open>One step of thread \<open>i\<close>; \<open>None\<close> when it has ended or waits.\<close>

fun loop_location_step :: "nat \<Rightarrow> 'l loop_location \<Rightarrow> 'l loop_threads \<Rightarrow> 'l loop_threads option" where
  "loop_location_step i AtTop st = Some (lt_go i (if el_okay (lt_loop st) then AtRetry else AtEnd) st)"
| "loop_location_step i AtRetry st = Some (lt_go i (if el_okay (lt_loop st) then AtEpoll else AtRaise) st)"
| "loop_location_step i AtEpoll st =
     (if lt_ready st \<and> 0 < el_semaphore_count (lt_loop st) then Some (lt_go i AtSemaphore (st\<lparr>lt_ready := False\<rparr>)) else None)"
| "loop_location_step i AtSemaphore st =
     (case el_decrement_semaphore (lt_loop st) of
        (Inl e, s) \<Rightarrow> Some (lt_go i (AtAbort e) (st\<lparr>lt_loop := s\<rparr>))
      | (Inr _, s) \<Rightarrow> Some (lt_go i AtWoken (st\<lparr>lt_loop := s\<rparr>)))"
| "loop_location_step i AtWoken st = Some (lt_go i (if el_okay (lt_loop st) then AtRetry else AtRaise) st)"
| "loop_location_step i AtRaise st = Some (lt_go i AtEnd (lt_increment st))"
| "loop_location_step i (AtEvent fd flags) st =
     (case event_type flags of
        None \<Rightarrow> Some (lt_go i (AtAbort (Fatal ''Invalid event flag'')) st)
      | Some type \<Rightarrow>
        (case map_of (el_listeners (lt_loop st)) fd of
           None \<Rightarrow> Some (lt_go i AtEnd st)
         | Some listener \<Rightarrow> Some (lt_go i (AtHandle listener type) st)))"
| "loop_location_step i (AtHandle listener type) st = Some (lt_go i AtTop st)"
| "loop_location_step i StopTest st = Some (lt_go i (if el_okay (lt_loop st) then StopLock else StopReturned) st)"
| "loop_location_step i StopLock st = Some (lt_go i StopWait (st\<lparr>lt_loop := (lt_loop st)\<lparr>el_okay := False\<rparr>\<rparr>))"
| "loop_location_step i StopWait st = (if el_listeners (lt_loop st) = [] then Some (lt_go i StopRaise st) else None)"
| "loop_location_step i StopRaise st = Some (lt_go i StopDone (lt_increment st))"
| "loop_location_step i l st = None"

definition lt_step :: "nat \<Rightarrow> 'l loop_threads \<Rightarrow> 'l loop_threads option" where
  "lt_step i st = (if i < length (lt_locations st) then loop_location_step i (lt_locations st ! i) st else None)"

text \<open>What else can happen: an event or an error for a thread in \<open>epoll_wait\<close>, a call of a listener, a registration.\<close>

datatype 'l loop_action =
    Step nat
  | Event nat int u32
  | EpollError nat
  | Call loop_call
  | Register int 'l "loop_call list"

fun lt_action :: "'l loop_action \<Rightarrow> 'l loop_threads \<Rightarrow> 'l loop_threads option" where
  "lt_action (Step i) st = lt_step i st"
| "lt_action (Event i fd flags) st =
     (if i < length (lt_locations st) \<and> lt_locations st ! i = AtEpoll \<and> fd \<noteq> el_semaphore (lt_loop st)
      then Some (lt_go i (AtEvent fd flags) st) else None)"
| "lt_action (EpollError i) st =
     (if i < length (lt_locations st) \<and> lt_locations st ! i = AtEpoll then Some (lt_go i AtRetry st) else None)"
| "lt_action (Call c) st = Some (st\<lparr>lt_loop := el_call c (lt_loop st)\<rparr>)"
| "lt_action (Register idx listener cs) st =
     map_option (\<lambda>s. st\<lparr>lt_loop := s\<rparr>) (el_register_event_listener idx listener cs (lt_loop st))"

text \<open>\<open>wait\<close> returns when every worker has ended.\<close>

fun stopper :: "'l loop_location \<Rightarrow> bool" where
  "stopper StopTest \<longleftrightarrow> True"
| "stopper StopLock \<longleftrightarrow> True"
| "stopper StopWait \<longleftrightarrow> True"
| "stopper StopRaise \<longleftrightarrow> True"
| "stopper StopReturned \<longleftrightarrow> True"
| "stopper StopDone \<longleftrightarrow> True"
| "stopper l \<longleftrightarrow> False"

definition lt_wait_returns :: "'l loop_threads \<Rightarrow> bool" where
  "lt_wait_returns st \<longleftrightarrow> (\<forall>l \<in> set (lt_locations st). \<not> stopper l \<longrightarrow> l = AtEnd)"

section \<open>The invariant\<close>

text \<open>
  The semaphore's counter covers the threads that are about to take from it and the readiness that is still to be
  taken; the loop is raised only after it is stopped, and the wakeup is passed on.
\<close>

fun stopped_only :: "'l loop_location \<Rightarrow> bool" where
  "stopped_only l \<longleftrightarrow> l \<in> {AtSemaphore, AtWoken, AtRaise, StopWait, StopRaise, StopDone}"

definition lt_signal :: "'l loop_threads \<Rightarrow> bool" where
  "lt_signal st \<longleftrightarrow> lt_ready st \<or> (\<exists>l \<in> {AtSemaphore, AtWoken, AtRaise}. l \<in> set (lt_locations st))"

definition lt_inv :: "'l loop_threads \<Rightarrow> bool" where
  "lt_inv st \<longleftrightarrow>
     count_list (lt_locations st) AtSemaphore + (if lt_ready st then 1 else 0) \<le> el_semaphore_count (lt_loop st) \<and>
     (el_okay (lt_loop st) \<longrightarrow> \<not> lt_ready st \<and> (\<forall>l \<in> set (lt_locations st). \<not> stopped_only l)) \<and>
     (StopDone \<in> set (lt_locations st) \<longrightarrow> lt_signal st) \<and>
     (\<forall>e. AtAbort e \<in> set (lt_locations st) \<longrightarrow> e = Fatal ''Invalid event flag'')"

lemma lt_go_simps [simp]:
  "lt_loop (lt_go i l st) = lt_loop st" "lt_ready (lt_go i l st) = lt_ready st"
  "lt_locations (lt_go i l st) = (lt_locations st)[i := l]"
  "lt_locations (lt_increment st) = lt_locations st" "lt_ready (lt_increment st) = True"
  "lt_loop (lt_increment st) = el_increment_semaphore (lt_loop st)"
  by (simp_all add: lt_go_def lt_increment_def)

lemma lt_inv_run: "el_semaphore_count s = 0 \<Longrightarrow> lt_inv (lt_run n k s)"
  by (auto simp: lt_inv_def lt_run_def count_list_0_iff)

text \<open>A step that only moves a thread between locations that do not concern the semaphore.\<close>

lemma lt_inv_go:
  assumes "lt_inv st" and "i < length (lt_locations st)"
    and "lt_locations st ! i \<notin> {AtSemaphore, AtWoken, AtRaise}" and "l \<notin> {AtSemaphore, StopDone}"
    and "\<And>e. l = AtAbort e \<Longrightarrow> e = Fatal ''Invalid event flag''"
    and "el_okay (lt_loop st) \<Longrightarrow> \<not> stopped_only l"
  shows "lt_inv (lt_go i l st)"
proof -
  let ?ls = "lt_locations st"
  have "count_list (?ls[i := l]) AtSemaphore = count_list ?ls AtSemaphore"
    using count_list_update [OF assms(2), of l AtSemaphore] assms(3,4) by auto
  moreover have "lt_signal (lt_go i l st)" if "lt_signal st"
    using that assms(3) in_update(2) [OF assms(2), of _ l] unfolding lt_signal_def by fastforce
  moreover have "StopDone \<in> set (?ls[i := l]) \<Longrightarrow> StopDone \<in> set ?ls"
    using in_update(3) [OF assms(2)] assms(4) by fastforce
  moreover have "x \<in> set (?ls[i := l]) \<Longrightarrow> x = l \<or> x \<in> set ?ls" for x
    by (rule in_update(3) [OF assms(2)])
  ultimately show ?thesis using assms(1,5,6) unfolding lt_inv_def by fastforce
qed

text \<open>The environment leaves the semaphore alone.\<close>

lemma lt_inv_loop:
  assumes "lt_inv st" and "el_okay s = el_okay (lt_loop st)" and "el_semaphore_count s = el_semaphore_count (lt_loop st)"
  shows "lt_inv (st\<lparr>lt_loop := s\<rparr>)"
  using assms by (simp add: lt_inv_def lt_signal_def)

lemma lt_inv_stopped:
  assumes "lt_inv st" and "i < length (lt_locations st)" and "stopped_only (lt_locations st ! i)"
  shows "\<not> el_okay (lt_loop st)"
  using assms nth_mem by (fastforce simp: lt_inv_def)

lemma lt_inv_step:
  assumes "lt_inv st" and "lt_step i st = Some st'"
  shows "lt_inv st'"
proof -
  let ?ls = "lt_locations st"
  have i: "i < length ?ls" and step: "loop_location_step i (?ls ! i) st = Some st'"
    using assms(2) by (auto simp: lt_step_def split: if_splits)
  note go = lt_inv_go [OF assms(1) i]
  note stopped = lt_inv_stopped [OF assms(1) i]
  note cnt = count_list_update [OF i]
  note mem = in_update [OF i]
  have ab: "e = Fatal ''Invalid event flag''" if "AtAbort e \<in> set (?ls[i := l])" "\<And>e. l \<noteq> AtAbort e" for e l
    using assms(1) mem(3) [OF that(1)] that(2) by (auto simp: lt_inv_def)
  show ?thesis
  proof (cases "?ls ! i")
    case AtEpoll
    then have st': "st' = lt_go i AtSemaphore (st\<lparr>lt_ready := False\<rparr>)" "lt_ready st"
      using step by (auto split: if_splits)
    then have "\<not> el_okay (lt_loop st)" using assms(1) by (auto simp: lt_inv_def)
    moreover have "lt_signal st'" using mem(1) [of AtSemaphore] by (auto simp: lt_signal_def st')
    ultimately show ?thesis
      using assms(1) cnt [of AtSemaphore AtSemaphore] AtEpoll st'(2) ab [of _ AtSemaphore] by (simp add: lt_inv_def st'(1))
  next
    case AtSemaphore
    then have "0 < count_list ?ls AtSemaphore" using i by (metis count_list_0_iff neq0_conv nth_mem)
    then have c: "0 < el_semaphore_count (lt_loop st)" using assms(1) by (auto simp: lt_inv_def)
    then have st': "st' = lt_go i AtWoken (st\<lparr>lt_loop := (lt_loop st)\<lparr>el_semaphore_count := el_semaphore_count (lt_loop st) - 1\<rparr>\<rparr>)"
      using step AtSemaphore by (simp add: el_decrement_semaphore_def)
    have "lt_signal st'" using mem(1) [of AtWoken] by (auto simp: lt_signal_def st')
    moreover have "count_list (?ls[i := AtWoken]) AtSemaphore + (if lt_ready st then 1 else 0) \<le> el_semaphore_count (lt_loop st) - 1"
      using assms(1) [unfolded lt_inv_def, THEN conjunct1] cnt [of AtWoken AtSemaphore] AtSemaphore by simp
    ultimately show ?thesis using AtSemaphore stopped ab [of _ AtWoken] by (simp add: lt_inv_def st')
  next
    case AtWoken
    then have st': "st' = lt_go i AtRaise st" using step stopped by simp
    have "lt_signal st'" using mem(1) [of AtRaise] by (auto simp: lt_signal_def st')
    then show ?thesis
      using assms(1) cnt [of AtRaise AtSemaphore] AtWoken stopped ab [of _ AtRaise] by (simp add: lt_inv_def st')
  next
    case AtRaise
    then show ?thesis
      using step assms(1) cnt [of AtEnd AtSemaphore] stopped ab [of _ AtEnd]
      by (auto simp: lt_inv_def lt_signal_def el_increment_semaphore_def)
  next
    case StopRaise
    then show ?thesis
      using step assms(1) cnt [of StopDone AtSemaphore] stopped ab [of _ StopDone]
      by (auto simp: lt_inv_def lt_signal_def el_increment_semaphore_def)
  next
    case StopLock
    have "lt_inv (st\<lparr>lt_loop := (lt_loop st)\<lparr>el_okay := False\<rparr>\<rparr>)"
      using assms(1) by (simp add: lt_inv_def lt_signal_def)
    from lt_inv_go [OF this, of i StopWait] show ?thesis using step StopLock i by simp
  qed (use step go stopped in \<open>auto split: if_splits option.splits\<close>)
qed

lemma lt_inv_action:
  assumes "lt_inv st" and "lt_action a st = Some st'"
  shows "lt_inv st'"
proof (cases a)
  case (Step i)
  then show ?thesis using assms lt_inv_step by simp
next
  case (Event i fd flags)
  then show ?thesis using assms by (auto split: if_splits intro!: lt_inv_go)
next
  case (EpollError i)
  then show ?thesis using assms by (auto split: if_splits intro!: lt_inv_go)
next
  case (Call c)
  then show ?thesis using assms by (auto intro!: lt_inv_loop)
next
  case (Register idx listener cs)
  then show ?thesis
    using assms by (auto simp: el_register_event_listener_def split: option.splits intro!: lt_inv_loop)
qed

section \<open>The end of the threads\<close>

text \<open>Once the loop is stopped every step brings its thread closer to its end.\<close>

fun loop_rank :: "'l loop_location \<Rightarrow> nat" where
  "loop_rank AtTop = 1"
| "loop_rank AtRetry = 2"
| "loop_rank AtEpoll = 4"
| "loop_rank AtSemaphore = 3"
| "loop_rank AtWoken = 2"
| "loop_rank AtRaise = 1"
| "loop_rank (AtEvent _ _) = 3"
| "loop_rank (AtHandle _ _) = 2"
| "loop_rank StopTest = 4"
| "loop_rank StopLock = 3"
| "loop_rank StopWait = 2"
| "loop_rank StopRaise = 1"
| "loop_rank _ = 0"

definition lt_size :: "'l loop_threads \<Rightarrow> nat" where
  "lt_size st = sum_list (map loop_rank (lt_locations st))"

lemma loop_location_step_stopped:
  assumes "loop_location_step i l st = Some st'" and "\<not> el_okay (lt_loop st)"
  obtains l' where "lt_locations st' = (lt_locations st)[i := l']" "loop_rank l' < loop_rank l" "\<not> el_okay (lt_loop st')"
  using assms
  by (cases l) (auto simp: el_decrement_semaphore_def el_increment_semaphore_def split: if_splits option.splits)

lemma lt_step_stopped:
  assumes "lt_step i st = Some st'" and "\<not> el_okay (lt_loop st)"
  shows "\<not> el_okay (lt_loop st')" and "lt_size st' < lt_size st"
proof -
  have i: "i < length (lt_locations st)" and step: "loop_location_step i (lt_locations st ! i) st = Some st'"
    using assms(1) by (auto simp: lt_step_def split: if_splits)
  obtain l' where l': "lt_locations st' = (lt_locations st)[i := l']" "loop_rank l' < loop_rank (lt_locations st ! i)"
      "\<not> el_okay (lt_loop st')"
    by (rule loop_location_step_stopped [OF step assms(2)])
  show "\<not> el_okay (lt_loop st')" by (rule l'(3))
  show "lt_size st' < lt_size st"
    using sum_list_map_update [OF i, of loop_rank l'] l'(1,2) by (simp add: lt_size_def)
qed

lemma StopDone_stays:
  assumes "lt_step i st = Some st'" and "StopDone \<in> set (lt_locations st)"
  shows "StopDone \<in> set (lt_locations st')"
proof -
  have i: "i < length (lt_locations st)" and step: "loop_location_step i (lt_locations st ! i) st = Some st'"
    using assms(1) by (auto simp: lt_step_def split: if_splits)
  obtain l' where "lt_locations st' = (lt_locations st)[i := l']" "lt_locations st ! i \<noteq> StopDone"
    using step by (cases "lt_locations st ! i")
      (auto simp: el_decrement_semaphore_def split: if_splits option.splits)
  then show ?thesis using in_update(2) [OF i assms(2)] by simp
qed

text \<open>When no thread can move, the wakeup has reached every worker.\<close>

lemma lt_stuck:
  assumes "lt_inv st" and "StopDone \<in> set (lt_locations st)" and "quiescent lt_step st"
    and "l \<in> set (lt_locations st)" and "\<not> stopper l"
  shows "l = AtEnd \<or> l = AtAbort (Fatal ''Invalid event flag'')"
proof -
  have step: "loop_location_step j (lt_locations st ! j) st = None" if "j < length (lt_locations st)" for j
    using assms(3) that by (simp add: quiescent_def lt_step_def) (metis)
  have stuck: "\<exists>j. loop_location_step j x st = None" if "x \<in> set (lt_locations st)" for x
    using step that by (metis in_set_conv_nth)
  have "AtSemaphore \<notin> set (lt_locations st)" "AtWoken \<notin> set (lt_locations st)" "AtRaise \<notin> set (lt_locations st)"
    using stuck [of AtSemaphore] stuck [of AtWoken] stuck [of AtRaise]
    by (auto simp: el_decrement_semaphore_def split: if_splits)
  then have "lt_ready st" using assms(1,2) by (auto simp: lt_inv_def lt_signal_def)
  moreover from this have "0 < el_semaphore_count (lt_loop st)" using assms(1) by (auto simp: lt_inv_def)
  ultimately have "l \<noteq> AtEpoll" using stuck [of AtEpoll] assms(4) by auto
  moreover have "\<exists>j. loop_location_step j l st = None" using stuck [OF assms(4)] .
  moreover have "l = AtAbort e \<Longrightarrow> e = Fatal ''Invalid event flag''" for e
    using assms(1,4) by (auto simp: lt_inv_def)
  ultimately show ?thesis
    using assms(5) by (cases l) (auto simp: el_decrement_semaphore_def split: if_splits option.splits)
qed

interpretation lta: thread_system lt_action lt_inv
  by unfold_locales (rule lt_inv_action)

interpretation lts: terminating_system lt_step "\<lambda>st. lt_inv st \<and> StopDone \<in> set (lt_locations st)" lt_size
proof
  fix st st' :: "'a loop_threads" and i
  assume st: "lt_inv st \<and> StopDone \<in> set (lt_locations st)" and step: "lt_step i st = Some st'"
  then have "\<not> el_okay (lt_loop st)" by (fastforce simp: lt_inv_def)
  then show "lt_size st' < lt_size st" using lt_step_stopped step by blast
  show "lt_inv st' \<and> StopDone \<in> set (lt_locations st')"
    using st step lt_inv_step StopDone_stays by blast
qed

section \<open>Properties\<close>

text \<open>
  The semaphore of the event loop under any interleaving of worker threads, threads that call \<open>stop\<close>, listeners
  and events: its counter covers every thread that is about to read it, so that \<open>decrement_semaphore\<close> never
  aborts the process; it is raised only after the loop has been stopped, so that a worker is never woken for
  nothing; and a thread aborts only on an event without any of the expected flags.
\<close>

theorem loop_semaphore_safe:
  assumes "el_okay s" and "el_semaphore_count s = 0" and "schedule lt_action as (lt_run n k s) = Some st"
  shows "count_list (lt_locations st) AtSemaphore \<le> el_semaphore_count (lt_loop st) \<and>
    (el_okay (lt_loop st) \<longrightarrow> \<not> lt_ready st \<and> AtWoken \<notin> set (lt_locations st)) \<and>
    (\<forall>e. AtAbort e \<in> set (lt_locations st) \<longrightarrow> e = Fatal ''Invalid event flag'')"
proof -
  have "lt_inv st" using lta.schedule_inv [OF lt_inv_run [OF assms(2)] assms(3)] .
  then show ?thesis by (auto simp: lt_inv_def split: if_splits)
qed

text \<open>A loop with two workers and one thread that stops it.\<close>

definition small_loop :: "nat event_loop" where
  "small_loop = \<lparr>el_okay = True, el_listeners = [], el_semaphore = 5, el_semaphore_count = 0,
     el_epoll = [(5, CtlAdd (EPOLLIN OR EPOLLET))], el_num_threads = 2, el_threads = 0\<rparr>"

lemma small_loop_new: "el_new 4 5 2 = Inr small_loop"
  by (simp add: el_new_def el_register_socket_def small_loop_def)

text \<open>Both workers wait, the loop is stopped, and the first worker takes the wakeup.\<close>

definition small_run :: "nat loop_action list" where
  "small_run = [Step 0, Step 0, Step 1, Step 1, Step (Suc 1), Step (Suc 1), Step (Suc 1), Step (Suc 1), Step 0]"

definition small_stopped :: "nat loop_threads" where
  "small_stopped = \<lparr>lt_loop = small_loop\<lparr>el_okay := False, el_semaphore_count := 1\<rparr>, lt_ready = False,
     lt_locations = [AtSemaphore, AtEpoll, StopDone]\<rparr>"

lemma small_run: "schedule lt_action small_run (lt_run 2 1 small_loop) = Some small_stopped"
  by (simp add: small_run_def small_stopped_def lt_run_def lt_step_def lt_go_def lt_increment_def small_loop_def
      el_increment_semaphore_def numeral_2_eq_2)

theorem loop_semaphore_safe_witness:
  "count_list (lt_locations small_stopped) AtSemaphore \<le> el_semaphore_count (lt_loop small_stopped)"
  using loop_semaphore_safe [OF _ _ small_run] by (simp add: small_loop_def)

text \<open>
  C14. After \<open>stop\<close> has returned in one thread, every worker thread ends: the number of steps that threads can still
  take is bounded, they can always go on to a state in which no thread can move, and in such a state every worker has left
  \<open>thread_loop\<close>, each one having passed the wakeup on, so that \<open>wait\<close> returns (unless the process has been
  aborted by an event without any of the expected flags).
\<close>

theorem loop_workers_end:
  assumes "el_okay s" and "el_semaphore_count s = 0" and "schedule lt_action as (lt_run n k s) = Some st"
    and "StopDone \<in> set (lt_locations st)"
  shows "(\<exists>is st'. schedule lt_step is st = Some st' \<and> quiescent lt_step st') \<and>
    (\<forall>is st'. schedule lt_step is st = Some st' \<longrightarrow> length is \<le> lt_size st \<and>
      (quiescent lt_step st' \<longrightarrow>
        lt_wait_returns st' \<or> AtAbort (Fatal ''Invalid event flag'') \<in> set (lt_locations st')))"
proof -
  have st: "lt_inv st \<and> StopDone \<in> set (lt_locations st)"
    using lta.schedule_inv [OF lt_inv_run [OF assms(2)] assms(3)] assms(4) by simp
  have "lt_wait_returns u \<or> AtAbort (Fatal ''Invalid event flag'') \<in> set (lt_locations u)"
    if "schedule lt_step is st = Some u" "quiescent lt_step u" for "is" u
  proof -
    have u: "lt_inv u" "StopDone \<in> set (lt_locations u)" using lts.schedule_inv [OF st that(1)] by simp_all
    show ?thesis using lt_stuck [OF u that(2)] unfolding lt_wait_returns_def by metis
  qed
  moreover have "length is \<le> lt_size st" if "schedule lt_step is st = Some u" for "is" u
    using lts.schedule_bounded [OF st that] by simp
  ultimately show ?thesis using lts.schedule_completes [OF st] by metis
qed

definition small_end :: "nat loop_threads" where
  "small_end = small_stopped\<lparr>lt_ready := True, lt_locations := [AtEnd, AtEnd, StopDone]\<rparr>"

lemma small_end: "schedule lt_step [0, 0, 0, 1, 1, 1, 1] small_stopped = Some small_end"
  by (simp add: small_end_def small_stopped_def lt_step_def lt_go_def lt_increment_def small_loop_def
      el_increment_semaphore_def el_decrement_semaphore_def)

theorem loop_workers_end_witness:
  "schedule lt_step [0, 0, 0, 1, 1, 1, 1] small_stopped = Some small_end \<and> lt_wait_returns small_end"
proof -
  have "lt_step i small_end = None" for i
    by (cases "i < 3") (auto simp: lt_step_def small_end_def less_Suc_eq numeral_3_eq_3)
  then have "quiescent lt_step small_end" by (simp add: quiescent_def)
  moreover have "StopDone \<in> set (lt_locations small_stopped)" by (simp add: small_stopped_def)
  moreover have "AtAbort e \<notin> set (lt_locations small_end)" for e by (simp add: small_end_def)
  moreover have "el_okay small_loop" "el_semaphore_count small_loop = 0" by (simp_all add: small_loop_def)
  ultimately show ?thesis
    using loop_workers_end [OF _ _ small_run] small_end by metis
qed

lemma lt_action_el_inv:
  assumes "el_inv (lt_loop st)" and "lt_action a st = Some st'"
  shows "el_inv (lt_loop st')"
proof (cases a)
  case (Step i)
  have "el_inv (s\<lparr>el_semaphore_count := c\<rparr>) = el_inv s" "el_inv (s\<lparr>el_okay := b\<rparr>) = el_inv s" for s :: "'a event_loop" and c b
    by (simp_all add: el_inv_def)
  then show ?thesis
    using Step assms
    by (cases "lt_locations st ! i") (auto simp: lt_step_def el_decrement_semaphore_def el_increment_semaphore_def
      split: if_splits option.splits)
next
  case (Register idx listener cs)
  then obtain s where s: "el_register_event_listener idx listener cs (lt_loop st) = Some s" "st' = st\<lparr>lt_loop := s\<rparr>"
    using assms(2) by auto
  then show ?thesis
    using el_register(1) [OF assms(1)] el_calls_inv
    by (auto simp: el_register_event_listener_def split: option.splits)
qed (use assms el_call_inv in \<open>auto split: if_splits\<close>)

interpretation lte: thread_system lt_action "\<lambda>st. el_inv (lt_loop st)"
  by unfold_locales (rule lt_action_el_inv)



end
