(* ===== verification/Message_App.thy ===== *)
theory Message_App
  imports Network_Listener
begin

text \<open>
  Applications of \<open>NetworkSocketListener\<close> whose \<open>on_network_message\<close> uses the listener, for instance to answer.  The locale
  \<open>message_app\<close> is what the library asks of them: the callback leaves the listener well formed and adds its answers
  to the outgoing bytes, and \<open>on_disconnect\<close>, which can run with the listener's mutex held, does not touch the listener.
  \<open>app_run\<close> is any sequence of handler calls, sends and closes on a connection, with the portions passed to the
  sends and the answers as its record.  The listener of \<open>test/messages.cpp\<close> that answers every ping with a pong is an
  application in this sense.
\<close>

section \<open>The contract\<close>

text \<open>A socket that is still open has no complete message left, and the last \<open>recv\<close> would have blocked.\<close>

definition drained :: "net_listener \<Rightarrow> bool" where
  "drained l \<longleftrightarrow> (\<exists>s. nl_socket l = Some s \<and> 
     (tcp_is_valid s \<longrightarrow> slicer_msgs (m_slicer s) = [] \<and> recv_ended (m_fd s) (trace s) True))"

locale message_app =
  fixes os :: os and mode :: MessageMode and app :: app and replies :: "byte list \<Rightarrow> byte list list"
  assumes on_message: "posix os \<Longrightarrow> shutdown_ok os \<Longrightarrow> nl_inv mode l \<Longrightarrow>
      nl_inv mode (app (NetworkMessage m) l) \<and> sends l (replies (mi_data m)) (app (NetworkMessage m) l)"
    and on_disconnect: "app (Disconnect held) l = l"
begin

lemma close_app:
  "nl_close_socket os app True = nl_close_socket os passive_app True"
  "nl_close_socket_internal os app True = nl_close_socket os passive_app True"
proof -
  have "nl_callback app (Disconnect held) l = nl_callback passive_app (Disconnect held) l" for held l
    by (simp add: nl_callback_def on_disconnect passive_app_def)
  then have eq: "nl_disconnected app True = nl_disconnected passive_app True"
    by (intro ext) (simp only: nl_disconnected_def)
  show "nl_close_socket os app True = nl_close_socket os passive_app True"
    "nl_close_socket_internal os app True = nl_close_socket os passive_app True"
    by (unfold nl_close_socket_def nl_close_socket_internal_def eq) (rule refl)+
qed

text \<open>The callback of a message, after the message has been taken from the socket.\<close>

lemma callback_message:
  assumes os: "posix os" "shutdown_ok os" and u: "unsettled mode l s"
    and rw: "tcp_is_connected s \<and> backlog s \<noteq> [] \<longrightarrow> nl_mode l = ReadWrite"
    and r: "tcp_inv mode s'" "received_view mode (delivered l @ [mi_data m]) s'" "recv_frame s s'"
  obtains l' s'' where "nl_callback app (NetworkMessage m) (l\<lparr>nl_socket := Some s'\<rparr>) = l'" "nl_inv mode l'"
    "nl_socket l' = Some s''" "delivered l' = delivered l @ [mi_data m]" "grows l (replies (mi_data m)) l'"
    "data_count s'' = data_count s'" "slicer_msgs (m_slicer s'') = slicer_msgs (m_slicer s')"
proof -
  let ?l = "nl_callback passive_app (NetworkMessage m) (l\<lparr>nl_socket := Some s'\<rparr>)"
  have f: "backlog s' = backlog s" "outgoing s' = outgoing s" "tcp_is_connected s' \<longrightarrow> tcp_is_connected s"
    using r(3) same_sending_backlog [of s s'] by (auto simp: recv_frame_def outgoing_def tcp_is_connected_def)
  have "unsettled mode ?l s'" using unsettled_message(2) [OF u r] by simp
  then have inv: "nl_inv mode ?l" using rw f by (auto simp: nl_inv_unsettled)
  have l: "nl_socket l = Some s" using u by (simp add: unsettled_def)
  then have "grows l [] ?l" using f by (auto simp: grows_def intro!: exI [of _ "[]"])
  then have g: "grows l (replies (mi_data m)) l'" if "grows ?l (replies (mi_data m)) l'" for l'
    using grows_trans that by fastforce
  have app: "nl_callback app (NetworkMessage m) (l\<lparr>nl_socket := Some s'\<rparr>) = app (NetworkMessage m) ?l"
    by (simp add: nl_callback_def passive_app_def)
  have del: "delivered ?l = delivered l @ [mi_data m]" and sock: "nl_socket ?l = Some s'" by (simp_all add: delivered_def)
  note m = on_message [OF os inv, of m]
  then obtain s'' where "nl_socket (app (NetworkMessage m) ?l) = Some s''" "same_received s' s''"
    unfolding sends_def sock by blast
  then show thesis
    using m g del app by (intro that [of "app (NetworkMessage m) ?l" s'']) (auto simp: sends_def same_received_def same_content_def)
qed

lemma read_loop_total:
  assumes os: "posix os" "shutdown_ok os" "recv_finite os k" and "nl_inv mode l" and "nl_socket l = Some s"
  obtains l' ms where "nl_read_loop os app l = Some (Inr (), l')" "nl_inv mode l'" "drained l'"
    "delivered l' = delivered l @ ms" "grows l (concat (map replies ms)) l'"
  using assms(4-)
proof (induction "(s, l)" arbitrary: s l thesis
    rule: wf_induct_rule [OF wf_measures [of "[\<lambda>(s, l). k - data_count s, \<lambda>(s, l). length (slicer_msgs (m_slicer s))]"]])
  case 1
  note sock = "1.prems"(3)
  have u: "unsettled mode l s" and rw: "tcp_is_connected s \<and> backlog s \<noteq> [] \<longrightarrow> nl_mode l = ReadWrite"
    using "1.prems"(2) sock by (auto simp: nl_inv_unsettled unsettled_def)
  then have inv: "tcp_inv mode s" "received_view mode (delivered l) s" by (simp_all add: unsettled_def)
  obtain r s' where r: "tcp_receive os s = Some (r, s')" "tcp_inv mode s'"
      "received_view mode (delivered l @ (case r of Inr (Some m) \<Rightarrow> [mi_data m] | _ \<Rightarrow> [])) s'" "recv_frame s s'"
      "case r of Inl e \<Rightarrow> (\<exists>msg. e = SocketError msg) \<and> \<not> tcp_is_valid s'
       | Inr None \<Rightarrow> slicer_msgs (m_slicer s') = []
       | Inr (Some m) \<Rightarrow> data_count s < data_count s' \<and> data_count s < k \<or>
         data_count s' = data_count s \<and> length (slicer_msgs (m_slicer s')) < length (slicer_msgs (m_slicer s))"
      "tcp_is_valid s' \<longrightarrow> recv_ended (m_fd s') (trace s') True"
    using tcp_receive_step [OF os(1,3) inv] by blast
  consider (stop) "nl_read_loop os app l = Some (Inr (), l\<lparr>nl_socket := Some s'\<rparr>)"
        "received_view mode (delivered l) s'" "drained (l\<lparr>nl_socket := Some s'\<rparr>)"
    | (msg) m where "r = Inr (Some m)"
    using r(1,3,5,6) sock by (cases r) (auto simp: nl_read_loop.simps [of os _ l] drained_def split: option.splits)
  then show thesis
  proof cases
    case stop
    let ?l = "l\<lparr>nl_socket := Some s'\<rparr>"
    have f: "backlog s' = backlog s" "outgoing s' = outgoing s" "tcp_is_connected s' \<longrightarrow> tcp_is_connected s"
      using r(4) same_sending_backlog [of s s'] by (auto simp: recv_frame_def outgoing_def tcp_is_connected_def)
    have "unsettled mode ?l s'" using unsettled_message(1) [OF u r(2) _ r(4), of "[]"] stop(2) by simp
    then have "nl_inv mode ?l" using rw f by (auto simp: nl_inv_unsettled)
    moreover have "grows l [] ?l" using sock f by (auto simp: grows_def intro!: exI [of _ "[]"])
    ultimately show thesis
      using stop by (intro "1.prems"(1) [OF stop(1), of "[]"]) (simp_all add: delivered_def)
  next
    case (msg m)
    obtain l1 s1 where l1: "nl_callback app (NetworkMessage m) (l\<lparr>nl_socket := Some s'\<rparr>) = l1" "nl_inv mode l1"
        "nl_socket l1 = Some s1" "delivered l1 = delivered l @ [mi_data m]" "grows l (replies (mi_data m)) l1"
        "data_count s1 = data_count s'" "slicer_msgs (m_slicer s1) = slicer_msgs (m_slicer s')"
      using callback_message [OF os(1,2) u rw r(2) _ r(4)] r(3) msg by auto
    have eq: "nl_read_loop os app l = nl_read_loop os app l1"
      using msg r(1) sock l1(1) by (simp add: nl_read_loop.simps [of os _ l])
    have lt: "((s1, l1), (s, l)) \<in> measures [\<lambda>(s, l). k - data_count s, \<lambda>(s, l). length (slicer_msgs (m_slicer s))]"
      using r(5) msg l1(6,7) by auto
    show thesis
    proof (rule "1.hyps" [OF lt _ l1(2,3)])
      fix l' ms
      assume "nl_read_loop os app l1 = Some (Inr (), l')" "nl_inv mode l'" "drained l'"
        "delivered l' = delivered l1 @ ms" "grows l1 (concat (map replies ms)) l'"
      then show thesis
        using eq l1(4) grows_trans [OF l1(5)] by (intro "1.prems"(1) [of l' "mi_data m # ms"]) simp_all
    qed
  qed
qed

lemma on_read_ready_total:
  assumes os: "posix os" "shutdown_ok os" and l: "nl_inv mode l"
  obtains l' s' ms where "nl_on_read_ready os net app True l = Some (Inr (), l')" "nl_inv mode l'"
    "nl_socket l' = Some s'" "drained l'"
    "\<not> tcp_is_valid s' \<Longrightarrow> nl_has_disconnected l'"
    "delivered l' = delivered l @ ms" "grows l (concat (map replies ms)) l'"
proof -
  obtain k where k: "recv_finite os k" using os(1) by (auto simp: posix_def)
  obtain s where s: "nl_socket l = Some s" using l by (auto simp: nl_inv_def)
  have type: "nl_socket_type l = Connection" using l by (simp add: nl_inv_def told_inv_def)
  obtain l1 ms where r: "nl_read_loop os app l = Some (Inr (), l1)" "nl_inv mode l1" "drained l1"
      "delivered l1 = delivered l @ ms" "grows l (concat (map replies ms)) l1"
    by (rule read_loop_total [OF os k l s])
  obtain s1 where s1: "nl_socket l1 = Some s1" using r(3) by (auto simp: drained_def)
  show thesis
  proof (cases "tcp_is_valid s1")
    case True
    then show thesis using r s1 type by (intro that [of l1 s1 ms]) (auto simp: nl_on_read_ready_def)
  next
    case False
    have "unsettled mode l1 s1" using r(2) s1 by (auto simp: nl_inv_unsettled unsettled_def)
    then obtain l2 s2 where c: "nl_close_socket os passive_app True l1 = (Inr (), l2)" "unsettled mode l2 s2"
        "\<not> tcp_is_connected s2" "nl_has_disconnected l2" "sends l1 [] l2"
      using unsettled_close [OF os(2)] False by metis
    have s2: "nl_socket l2 = Some s2" "nl_inv mode l2" "\<not> tcp_is_valid s2"
      using c(2-5) False s1 by (auto simp: unsettled_def nl_inv_unsettled sends_def)
    have "grows l (concat (map replies ms)) l2" "delivered l2 = delivered l @ ms"
      using c(5) r(4) grows_trans [OF r(5), of "[]" l2] by (simp_all add: sends_def)
    then show thesis
      using c(1,4) False s2 r(1) s1 type
      by (intro that [of l2 s2 ms]) (simp_all add: nl_on_read_ready_def close_app drained_def)
  qed
qed

end

section \<open>The life of a connection\<close>

inductive app_run ::
    "os \<Rightarrow> inet \<Rightarrow> MessageMode \<Rightarrow> app \<Rightarrow> (byte list \<Rightarrow> byte list list) \<Rightarrow> byte list list \<Rightarrow> net_listener \<Rightarrow> bool"
  for os net mode app replies where
  start: "tcp_inv mode s \<Longrightarrow> outgoing s = [] \<Longrightarrow> received_view mode [] s \<Longrightarrow>
    nl_new_socket (Some s) Connection = (Inr (), l) \<Longrightarrow> app_run os net mode app replies [] l"
| on_read: "app_run os net mode app replies bss l \<Longrightarrow> nl_on_read_ready os net app True l = Some (r, l') \<Longrightarrow>
    delivered l' = delivered l @ ms \<Longrightarrow> app_run os net mode app replies (bss @ concat (map replies ms)) l'"
| on_write: "app_run os net mode app replies bss l \<Longrightarrow>
    nl_on_write_ready os (nl_close_socket os app True) l = Some (r, l') \<Longrightarrow> app_run os net mode app replies bss l'"
| send: "app_run os net mode app replies bss l \<Longrightarrow> unat (ucast len :: u32) \<le> length data \<Longrightarrow>
    unat (ucast len :: u32) + 4 < 2 ^ 32 \<Longrightarrow> nl_send os wait app True data len False async l = Some (r, l') \<Longrightarrow>
    app_run os net mode app replies (bss @ [wire_of mode (take (unat (ucast len :: u32)) data)]) l'"
| send_shared: "app_run os net mode app replies bss l \<Longrightarrow> unat (ucast len :: u32) \<le> length data \<Longrightarrow>
    nl_send_shared os wait app True data len False async l = Some (r, l') \<Longrightarrow>
    app_run os net mode app replies (bss @ [take (unat (ucast len :: u32)) data]) l'"
| send_unique: "app_run os net mode app replies bss l \<Longrightarrow> unat (ucast len :: u32) = length data \<Longrightarrow>
    unat (ucast len :: u32) + 4 < 2 ^ 32 \<Longrightarrow> nl_send_unique os wait app True data len False async l = Some (r, l') \<Longrightarrow>
    app_run os net mode app replies (bss @ [wire_of mode data]) l'"
| on_error: "app_run os net mode app replies bss l \<Longrightarrow> nl_on_error (nl_close_socket os app True) l = (r, l') \<Longrightarrow>
    app_run os net mode app replies bss l'"
| close: "app_run os net mode app replies bss l \<Longrightarrow> nl_close_socket os app True l = (r, l') \<Longrightarrow>
    app_run os net mode app replies bss l'"
| re_register: "app_run os net mode app replies bss l \<Longrightarrow> nl_re_register first_time l = (r, l') \<Longrightarrow>
    app_run os net mode app replies bss l'"

text \<open>The outgoing bytes are the portions passed to the sends, and all of them while the socket is connected.\<close>

definition traffic :: "byte list list \<Rightarrow> net_listener \<Rightarrow> bool" where
  "traffic bss l \<longleftrightarrow> (\<exists>s css. nl_socket l = Some s \<and> subseq css bss \<and> outgoing s = concat css \<and>
     (tcp_is_connected s \<longrightarrow> css = bss))"

lemma traffic_grows: "traffic a l \<Longrightarrow> grows l b l' \<Longrightarrow> traffic (a @ b) l'"
proof -
  assume "traffic a l" and g: "grows l b l'"
  then obtain s as where 1: "nl_socket l = Some s" "subseq as a" "outgoing s = concat as" "tcp_is_connected s \<longrightarrow> as = a"
    unfolding traffic_def by blast
  obtain s' bs where 2: "nl_socket l' = Some s'" "subseq bs b" "outgoing s' = outgoing s @ concat bs"
      "tcp_is_connected s' \<longrightarrow> tcp_is_connected s \<and> bs = b"
    using g 1(1) unfolding grows_def by auto
  have "subseq (as @ bs) (a @ b)" using 1(2) 2(2) by (rule list_emb_append_mono)
  then show ?thesis
    using 1 2 unfolding traffic_def by (intro exI [of _ s'] exI [of _ "as @ bs"]) simp
qed

lemma traffic_sends: "traffic a l \<Longrightarrow> sends l b l' \<Longrightarrow> traffic (a @ b) l'" "traffic a l \<Longrightarrow> sends l [] l' \<Longrightarrow> traffic a l'"
  using traffic_grows [of a l b l'] traffic_grows [of a l "[]" l'] by (simp_all add: sends_def)

lemma nl_close_sends:
  assumes "shutdown_ok os" and "nl_inv mode l" and "nl_close_socket os passive_app True l = (r, l')"
  shows "sends l [] l'"
proof -
  obtain s where "unsettled mode l s" using assms(2) by (auto simp: nl_inv_unsettled)
  from unsettled_close [OF assms(1) this] show ?thesis using assms(3) by auto
qed

lemma app_run_inv:
  assumes "app_run os net mode app replies bss l" and "message_app os mode app replies"
    and os: "posix os" "shutdown_ok os"
  shows "nl_inv mode l \<and> traffic bss l"
  using assms(1)
proof induction
  case (start s l)
  then show ?case
    by (auto simp: nl_new_socket_def nl_set_socket_def nl_new_def nl_inv_def socket_inv_def told_inv_def
        delivered_def traffic_def outgoing_def intro!: exI [of _ "[]"] split: if_splits)
next
  case (on_read bss l r l' ms)
  then have inv: "nl_inv mode l" by blast
  show ?case
    by (rule message_app.on_read_ready_total [OF assms(2) os inv, of net])
      (use on_read traffic_grows in auto)
next
  case (on_write bss l r l')
  then show ?case
    using nl_on_write_ready_inv [of os mode l] os traffic_sends(2)
    by (auto simp: posix_def message_app.close_app(1) [OF assms(2)])
next
  case (send bss l len data wait async r l')
  then show ?case
    using raw.send_with_inv [of os len data mode l False wait async] os traffic_sends(1)
    by (auto simp: posix_def nl_send_def message_app.close_app(1) [OF assms(2)])
next
  case (send_shared bss l len data wait async r l')
  then show ?case
    using shared.send_with_inv [of os len data mode l False wait async] os traffic_sends(1)
    by (auto simp: posix_def nl_send_shared_def message_app.close_app(1) [OF assms(2)])
next
  case (send_unique bss l len data wait async r l')
  then show ?case
    using unique.send_with_inv [of os len data mode l False wait async] os traffic_sends(1)
    by (auto simp: posix_def nl_send_unique_def message_app.close_app(1) [OF assms(2)])
next
  case (on_error bss l r l')
  then show ?case
    using nl_close_inv [OF os(2)] nl_close_sends [OF os(2)] traffic_sends(2)
    by (metis message_app.close_app(1) [OF assms(2)] nl_on_error_def)
next
  case (close bss l r l')
  then show ?case
    using nl_close_inv [OF os(2)] nl_close_sends [OF os(2)] traffic_sends(2)
    by (metis message_app.close_app(1) [OF assms(2)])
next
  case (re_register bss l first_time r l')
  then have "nl_socket l' = nl_socket l" by (auto simp: nl_re_register_def nl_call_def split: option.splits if_splits)
  then show ?case using re_register nl_re_register_inv by (auto simp: traffic_def)
qed

section \<open>Two applications\<close>

text \<open>An application that only takes messages.\<close>

interpretation taking: message_app os mode passive_app "\<lambda>_. []" for os mode
proof
  fix l m
  assume "nl_inv mode l"
  then show "nl_inv mode (passive_app (NetworkMessage m) l) \<and> sends l [] (passive_app (NetworkMessage m) l)"
    by (auto simp: passive_app_def nl_inv_def intro: sendsI(1))
qed (simp add: passive_app_def)

text \<open>
  \<open>Peer\<close> of \<open>test/messages.cpp\<close>, without a delay: \<open>on_network_message\<close> answers a ping with a pong, sent asynchronously, and takes
  note of a pong.  \<open>on_disconnect\<close> is not overridden.
\<close>

definition to_bytes :: "string \<Rightarrow> byte list" where
  "to_bytes msg = map of_char msg"

definition peer_send :: "os \<Rightarrow> string \<Rightarrow> net_listener \<Rightarrow> (net_listener, unit) outcome option" where
  "peer_send os msg =
     nl_send os (\<lambda>_. None) passive_app True (to_bytes msg) (of_nat (length msg)) False True"

definition peer_on_network_message :: "os \<Rightarrow> message_in_t \<Rightarrow> net_listener \<Rightarrow> (net_listener, unit) outcome option" where
  "peer_on_network_message os msg l =
     (if mi_data msg = to_bytes ''ping'' then peer_send os ''pong'' l else Some (Inr (), l))"

definition peer_app :: "os \<Rightarrow> app" where
  "peer_app os e l =
     (case e of
        NetworkMessage m \<Rightarrow> (case peer_on_network_message os m l of Some (_, l') \<Rightarrow> l' | None \<Rightarrow> l)
      | _ \<Rightarrow> l)"

definition peer_done :: "net_listener \<Rightarrow> bool" where
  "peer_done l \<longleftrightarrow> to_bytes ''pong'' \<in> set (delivered l)"

definition peer_replies :: "MessageMode \<Rightarrow> byte list \<Rightarrow> byte list list" where
  "peer_replies mode bs = (if bs = to_bytes ''ping'' then [wire_of mode (to_bytes ''pong'')] else [])"

lemma ping_pong_bytes: "to_bytes ''ping'' = [112, 105, 110, 103]" "to_bytes ''pong'' = [112, 111, 110, 103]"
  by (simp_all add: to_bytes_def)

lemma peer_send_total:
  assumes "posix os" and "shutdown_ok os" and "nl_inv mode l" and "length msg + 4 < 2 ^ 32"
  shows "\<exists>l'. peer_send os msg l = Some (Inr (), l') \<and> nl_inv mode l' \<and> sends l [wire_of mode (to_bytes msg)] l'"
proof -
  have "take_bit 64 (length msg) = length msg" "take_bit 32 (length msg) = length msg"
    using assms(4) by (simp_all add: take_bit_nat_eq_self)
  then have n: "unat (ucast (of_nat (length msg) :: u64) :: u32) = length msg"
    by (simp add: unsigned_ucast_eq unsigned_of_nat)
  show ?thesis
    using raw.send_with_inv [of os "of_nat (length msg)" "to_bytes msg" mode l False "\<lambda>_. None" True] assms n
    by (simp add: posix_def peer_send_def nl_send_def to_bytes_def)
qed

interpretation peer: message_app os mode "peer_app os" "peer_replies mode" for os mode
proof
  fix l m
  assume a: "posix os" "shutdown_ok os" "nl_inv mode l"
  show "nl_inv mode (peer_app os (NetworkMessage m) l) \<and>
      sends l (peer_replies mode (mi_data m)) (peer_app os (NetworkMessage m) l)"
    using peer_send_total [OF a, of "''pong''"] taking.on_message [OF a, of m]
    by (auto simp: peer_app_def peer_on_network_message_def peer_replies_def passive_app_def)
qed (simp add: peer_app_def)

section \<open>Properties\<close>

text \<open>
  C9. A connection over any sequence of handler calls, sends and closes, with an application that answers messages: the
  messages handed to the application, with those still queued in the socket, are the parse of the bytes received;
  the bytes written and still to be written are the portions passed to the sends, with the application's answers in
  between, in order and all of them as long as the socket is connected; unsent data on a connected socket is
  announced to the loop; and the application is told of the disconnect, and the loop of the removal, exactly once,
  after the socket has become invalid.
\<close>

theorem app_run_invariant:
  assumes "app_run os net mode app replies bss l" and "message_app os mode app replies"
    and "posix os" and "shutdown_ok os"
  shows "\<exists>s css. nl_socket l = Some s \<and> received_view mode (delivered l) s \<and>
    bytes_sent (trace s) @ backlog s = concat css \<and> subseq css bss \<and> (tcp_is_connected s \<longrightarrow> css = bss) \<and>
    (tcp_is_connected s \<and> backlog s \<noteq> [] \<longrightarrow> nl_mode l = ReadWrite) \<and>
    times is_disconnect (nl_log l) = (if nl_has_disconnected l then 1 else 0) \<and>
    times is_unregister (nl_calls l) = (if nl_has_disconnected l then 1 else 0) \<and>
    (nl_has_disconnected l \<longrightarrow> \<not> tcp_is_valid s)"
  using app_run_inv [OF assms] by (auto simp: nl_inv_def socket_inv_def told_inv_def traffic_def outgoing_def)

text \<open>A peer that has sent a ping.\<close>

lemma peer_start: "app_run (feeding_os chunks) net Datagram app replies [] connected_listener"
proof (rule start [of _ "connected_socket Datagram"])
  show "nl_new_socket (Some (connected_socket Datagram)) Connection = (Inr (), connected_listener)"
    by (simp add: nl_new_socket_def nl_set_socket_def connected_listener_def nl_new_def tcp_get_fileno_def
        connected_socket_def tcp_is_valid_def)
qed (simp_all add: outgoing_def del: make_slicer.simps)

definition nothing_received :: "net_listener \<Rightarrow> bool" where
  "nothing_received l \<longleftrightarrow> (\<exists>s. nl_socket l = Some s \<and> bytes_received (trace s) = [])"

lemma ping_sent:
  "\<exists>l. peer_send (feeding_os []) ''ping'' connected_listener = Some (Inr (), l) \<and>
    app_run (feeding_os []) loopback_inet Datagram (peer_app (feeding_os [])) (peer_replies Datagram)
      [frame (to_bytes ''ping'')] l \<and> nothing_received l"
proof -
  let ?os = "feeding_os []"
  have "nl_inv Datagram connected_listener"
    using app_run_inv [OF peer_start taking.message_app_axioms feeding_posix feeding_shutdown_ok] ..
  then obtain l where l: "peer_send ?os ''ping'' connected_listener = Some (Inr (), l)"
      "sends connected_listener [frame (to_bytes ''ping'')] l"
    using peer_send_total [OF feeding_posix feeding_shutdown_ok, of Datagram connected_listener "''ping''"] by auto
  have "peer_send ?os ''ping'' connected_listener =
      nl_send ?os (\<lambda>_. None) (peer_app ?os) True (to_bytes ''ping'') 4 False True connected_listener"
    by (simp add: peer_send_def nl_send_def peer.close_app(1))
  from send [OF peer_start _ _ trans [OF this [symmetric] l(1)], of loopback_inet "peer_replies Datagram"]
  have "app_run ?os loopback_inet Datagram (peer_app ?os) (peer_replies Datagram) [frame (to_bytes ''ping'')] l"
    by (simp add: ping_pong_bytes)
  moreover have "nothing_received l"
    using l(2) by (auto simp: sends_def nothing_received_def same_received_def connected_listener_def)
  ultimately show ?thesis using l(1) by blast
qed

theorem app_run_invariant_witness:
  "\<exists>l. peer_send (feeding_os []) ''ping'' connected_listener = Some (Inr (), l) \<and>
    (\<exists>s css. nl_socket l = Some s \<and> bytes_sent (trace s) @ backlog s = concat css \<and>
      (tcp_is_connected s \<longrightarrow> css = [frame (to_bytes ''ping'')]))"
  using ping_sent app_run_invariant [OF _ peer.message_app_axioms feeding_posix feeding_shutdown_ok] by metis

text \<open>
  C23. The read handler returns whatever the application answers: it hands over every complete message that
  the kernel had, in order, up to a \<open>recv\<close> that would block, and the answers follow the bytes already accepted, all of them if the socket is still connected; and
  whenever the socket has become invalid, the application has been told.
\<close>

theorem app_read_answers:
  assumes "app_run os net mode app replies bss l" and "message_app os mode app replies"
    and "posix os" and "shutdown_ok os"
  shows "\<exists>l' s' ms. nl_on_read_ready os net app True l = Some (Inr (), l') \<and> nl_socket l' = Some s' \<and>
    delivered l' = delivered l @ ms \<and> received_view mode (delivered l') s' \<and>
    (tcp_is_valid s' \<longrightarrow> slicer_msgs (m_slicer s') = [] \<and> recv_ended (m_fd s') (trace s') True) \<and>
    (tcp_is_connected s' \<longrightarrow> outgoing s' = outgoing (the (nl_socket l)) @ concat (concat (map replies ms))) \<and>
    (\<not> tcp_is_valid s' \<longrightarrow> times is_disconnect (nl_log l') = 1)"
proof -
  have "nl_inv mode l" using app_run_inv [OF assms] ..
  then show ?thesis
  proof (rule message_app.on_read_ready_total [OF assms(2-4), of l net])
    fix l' s' ms
    assume r: "nl_on_read_ready os net app True l = Some (Inr (), l')" "nl_inv mode l'" "nl_socket l' = Some s'"
      "drained l'" "\<not> tcp_is_valid s' \<Longrightarrow> nl_has_disconnected l'"
      "delivered l' = delivered l @ ms" "grows l (concat (map replies ms)) l'"
    have "tcp_is_connected s' \<longrightarrow> outgoing s' = outgoing (the (nl_socket l)) @ concat (concat (map replies ms))"
      using r(3,7) by (auto simp: grows_def)
    moreover have "received_view mode (delivered l') s'" "\<not> tcp_is_valid s' \<longrightarrow> times is_disconnect (nl_log l') = 1"
      using r(2,3,5) by (auto simp: nl_inv_def socket_inv_def told_inv_def)
    moreover have "tcp_is_valid s' \<longrightarrow> slicer_msgs (m_slicer s') = [] \<and> recv_ended (m_fd s') (trace s') True"
      using r(3,4) by (auto simp: drained_def)
    ultimately show ?thesis using r(1,3,6) by blast
  qed
qed

theorem app_read_answers_witness:
  "\<exists>l' s' ms. nl_on_read_ready (feeding_os [[8, 0, 0, 0, 112, 105, 110, 103]]) loopback_inet
      (peer_app (feeding_os [[8, 0, 0, 0, 112, 105, 110, 103]])) True connected_listener = Some (Inr (), l') \<and>
    nl_socket l' = Some s' \<and> delivered l' = ms \<and>
    (tcp_is_connected s' \<longrightarrow> outgoing s' = concat (concat (map (peer_replies Datagram) ms)))"
  using app_read_answers [OF peer_start peer.message_app_axioms feeding_posix feeding_shutdown_ok,
      of "[[8, 0, 0, 0, 112, 105, 110, 103]]" loopback_inet]
  by (auto simp: connected_listener_def nl_new_def delivered_def outgoing_def)

end
