(* ===== verification/Listener_Threads.thy ===== *)
theory Listener_Threads
  imports Network_Listener Threads
begin

text \<open>
  The threads of a \<open>NetworkSocketListener\<close> (\<open>src/NetworkSocketListener.cpp\<close>), interleaved: event handlers, sends, closes and
  queries that run at the same time, with the two mutexes \<open>m_mutex\<close> and \<open>m_send_mutex\<close>.  A thread is the list of the instructions
  that it has still to execute: the lines of a method between two points at which another thread can be seen are one
  instruction, which puts what follows in front of the list.  A call of a method of the socket is one step; how such calls
  interleave inside the socket is the subject of the theory on the threads of \<open>TcpSocket\<close>.

  What the application does in a callback are further calls of the listener, the argument \<open>calls\<close>.
\<close>

section \<open>Instructions\<close>

datatype after = AfterWrite | AfterSend bool | AfterCall    \<comment> \<open>who has called \<open>is_valid\<close>\<close>

datatype instr =
    LockMain                  \<comment> \<open>\<open>m_mutex.lock()\<close>\<close>
  | UnlockMain
  | LockSend                  \<comment> \<open>\<open>m_send_mutex.lock()\<close>\<close>
  | UnlockSend
  | IsValid after             \<comment> \<open>\<open>is_valid\<close>, with the mutex held\<close>
  | WriteSend                 \<comment> \<open>\<open>on_write_ready\<close>: \<open>do_send\<close> and its exception\<close>
  | WriteMode bool            \<comment> \<open>the last lines of \<open>on_write_ready\<close>\<close>
  | SendTry "byte list" u64 bool bool    \<comment> \<open>a round of the loop of \<open>send\<close>\<close>
  | WaitEmpty                 \<comment> \<open>\<open>wait_send_queue_empty\<close>\<close>
  | SendMode bool             \<comment> \<open>the last lines of \<open>send\<close>\<close>
  | SetMode Mode
  | Notify Mode               \<comment> \<open>the call of the loop in \<open>set_mode\<close>\<close>
  | CloseInternal             \<comment> \<open>\<open>close_socket_internal\<close>, with the mutex held\<close>
  | TestDisconnected bool     \<comment> \<open>before the test of \<open>m_has_disconnected\<close>, and whether \<open>m_mutex\<close> is held\<close>
  | MarkDisconnected bool     \<comment> \<open>after the test\<close>
  | OnDisconnect bool
  | UnregisterSelf
  | ReadSwitch                \<comment> \<open>\<open>on_read_ready\<close>, with the mutex held\<close>
  | ReadNext                  \<comment> \<open>the loop over the messages\<close>
  | ReadEnd                   \<comment> \<open>after the loop\<close>
  | OnMessage message_in_t
  | OnNewConnection tcp_socket
  | ReRegister bool
  | Aborted error             \<comment> \<open>an exception has left the method\<close>

text \<open>The methods that threads call.\<close>

datatype listener_call =
    CallRead | CallWrite | CallSend "byte list" u64 bool bool | CallClose | CallIsValid | CallReRegister bool

definition close_socket_code :: "instr list" where
  "close_socket_code = [LockMain, CloseInternal]"

fun call_code :: "listener_call \<Rightarrow> instr list" where
  "call_code CallRead = [LockMain, ReadSwitch]"
| "call_code CallWrite = [LockSend, WriteSend]"
| "call_code (CallSend data len blocking async) = [LockSend, SendTry data len blocking async]"
| "call_code CallClose = close_socket_code"
| "call_code CallIsValid = [LockMain, IsValid AfterCall]"
| "call_code (CallReRegister first_time) = [LockSend, ReRegister first_time, UnlockSend]"

definition calls_code :: "listener_call list \<Rightarrow> instr list" where
  "calls_code cs = concat (map call_code cs)"

fun after_valid :: "after \<Rightarrow> bool \<Rightarrow> instr list" where
  "after_valid AfterWrite valid = (if valid then [SetMode ReadOnly] else [])"
| "after_valid (AfterSend has_more) valid =
     (if valid then [SetMode (if has_more then ReadWrite else ReadOnly)] else close_socket_code)"
| "after_valid AfterCall valid = []"

text \<open>
  One instruction other than those of the mutexes: the instructions to put in front, and the listener afterwards;
  \<open>None\<close> when the thread has to wait or has ended.
\<close>

fun listener_instr ::
    "os \<Rightarrow> inet \<Rightarrow> bool \<Rightarrow> (net_event \<Rightarrow> listener_call list) \<Rightarrow> instr \<Rightarrow> net_listener \<Rightarrow> (instr list \<times> net_listener) option" where
  "listener_instr os net initialized calls (IsValid a) l = Some (UnlockMain # after_valid a (nl_is_valid l), l)"
| "listener_instr os net initialized calls WriteSend l =
     (case nl_socket l of
        None \<Rightarrow> Some ([Aborted MemoryFault], l)
      | Some s \<Rightarrow>
        Option.bind (tcp_do_send os (tcp_close os) s) (\<lambda>(r, s). Some (
          case r of
            Inr has_more \<Rightarrow> [WriteMode has_more, UnlockSend]
          | Inl (SocketError msg) \<Rightarrow> UnlockSend # close_socket_code @ [WriteMode False]
          | Inl e \<Rightarrow> [Aborted e], l\<lparr>nl_socket := Some s\<rparr>)))"
| "listener_instr os net initialized calls (WriteMode has_more) l =
     Some (if has_more then [] else [LockMain, IsValid AfterWrite], l)"
| "listener_instr os net initialized calls (SendTry data len blocking async) l =
     (case nl_socket l of
        None \<Rightarrow> Some ([Aborted MemoryFault], l)
      | Some s \<Rightarrow>
        Option.bind (tcp_send os data (ucast len) async s) (\<lambda>(r, s). Some (
          case r of
            Inr has_more \<Rightarrow> [SendMode has_more, UnlockSend]
          | Inl (SocketError msg) \<Rightarrow> close_socket_code @ [SendMode False, UnlockSend]
          | Inl SendQueueFull \<Rightarrow>
              if blocking then [UnlockSend, WaitEmpty, LockSend, SendTry data len blocking async]
              else close_socket_code @ [SendMode False, UnlockSend]
          | Inl e \<Rightarrow> [Aborted e], l\<lparr>nl_socket := Some s\<rparr>)))"
| "listener_instr os net initialized calls WaitEmpty l =
     (case nl_socket l of
        None \<Rightarrow> Some ([Aborted MemoryFault], l)
      | Some s \<Rightarrow> if tcp_send_queue_waits s then None else Some ([], l))"
| "listener_instr os net initialized calls (SendMode has_more) l = Some ([LockMain, IsValid (AfterSend has_more)], l)"
| "listener_instr os net initialized calls (SetMode mode) l =
     Some (if mode = nl_mode l then ([], l) else ([Notify mode], l\<lparr>nl_mode := mode\<rparr>))"
| "listener_instr os net initialized calls (Notify mode) l =
     Some ([], nl_call (NotifyModeChange (nl_fileno l) mode False) l)"
| "listener_instr os net initialized calls CloseInternal l =
     Some (case nl_socket l of
        Some s \<Rightarrow>
          if tcp_is_valid s then
            (case tcp_close os False s of (r, s) \<Rightarrow>
               (case r of Inl e \<Rightarrow> [Aborted e] | Inr done \<Rightarrow> UnlockMain # (if done then [TestDisconnected False] else []),
                l\<lparr>nl_socket := Some s\<rparr>))
          else ([TestDisconnected True, UnlockMain], l)
      | None \<Rightarrow> ([TestDisconnected True, UnlockMain], l))"
| "listener_instr os net initialized calls (TestDisconnected held) l =
     Some (if nl_has_disconnected l then [] else [MarkDisconnected held], l)"
| "listener_instr os net initialized calls (MarkDisconnected held) l =
     Some ((if nl_socket_type l = Connection then [OnDisconnect held] else []) @ (if initialized then [UnregisterSelf] else []),
       l\<lparr>nl_has_disconnected := True\<rparr>)"
| "listener_instr os net initialized calls (OnDisconnect held) l =
     Some (calls_code (calls (Disconnect held)), l\<lparr>nl_log := nl_log l @ [Disconnect held]\<rparr>)"
| "listener_instr os net initialized calls UnregisterSelf l = Some ([], nl_call (Unregister (nl_fileno l)) l)"
| "listener_instr os net initialized calls ReadSwitch l =
     (case nl_socket_type l of
        Acceptor \<Rightarrow>
          (case nl_socket l of
             None \<Rightarrow> Some ([Aborted MemoryFault], l)
           | Some s \<Rightarrow>
             Option.bind (tcp_accept os net s) (\<lambda>(r, s). Some (
               case r of Inl e \<Rightarrow> [Aborted e] | Inr result \<Rightarrow> UnlockMain # map OnNewConnection result, l\<lparr>nl_socket := Some s\<rparr>)))
      | Connection \<Rightarrow> Some ([ReadNext], l)
      | SocketNone \<Rightarrow> Some ([Aborted (RuntimeError ''Unknown socket type!'')], l))"
| "listener_instr os net initialized calls ReadNext l =
     (case nl_socket l of
        None \<Rightarrow> Some ([ReadEnd], l)
      | Some s \<Rightarrow>
        Option.bind (tcp_receive os s) (\<lambda>(r, s). Some (
          case r of
            Inr (Some message) \<Rightarrow> [UnlockMain, OnMessage message, LockMain, ReadNext]
          | Inr None \<Rightarrow> [ReadEnd]
          | Inl (SocketError msg) \<Rightarrow> [ReadEnd]
          | Inl e \<Rightarrow> [Aborted e], l\<lparr>nl_socket := Some s\<rparr>)))"
| "listener_instr os net initialized calls ReadEnd l =
     Some (case nl_socket l of
        None \<Rightarrow> [UnlockMain]
      | Some s \<Rightarrow> if \<not> tcp_is_valid s then [CloseInternal] else [UnlockMain], l)"
| "listener_instr os net initialized calls (OnMessage message) l =
     Some (calls_code (calls (NetworkMessage message)), l\<lparr>nl_log := nl_log l @ [NetworkMessage message]\<rparr>)"
| "listener_instr os net initialized calls (OnNewConnection s) l =
     Some (calls_code (calls (NewConnection s)), l\<lparr>nl_log := nl_log l @ [NewConnection s]\<rparr>)"
| "listener_instr os net initialized calls (ReRegister first_time) l =
     Some (case nl_re_register first_time l of (Inl e, l) \<Rightarrow> ([Aborted e], l) | (Inr _, l) \<Rightarrow> ([], l))"
| "listener_instr os net initialized calls i l = None"

record nl_threads =
  nt_listener :: net_listener
  nt_mutex :: "nat option"        \<comment> \<open>the owner of \<open>m_mutex\<close>\<close>
  nt_send_mutex :: "nat option"
  nt_code :: "instr list list"

definition nt_init :: "net_listener \<Rightarrow> listener_call list list \<Rightarrow> nl_threads" where
  "nt_init l css = \<lparr>nt_listener = l, nt_mutex = None, nt_send_mutex = None, nt_code = map calls_code css\<rparr>"

definition nt_go :: "nat \<Rightarrow> instr list \<Rightarrow> nl_threads \<Rightarrow> nl_threads" where
  "nt_go i code st = st\<lparr>nt_code := (nt_code st)[i := code]\<rparr>"

text \<open>One step of thread \<open>i\<close>.\<close>

definition nt_step ::
    "os \<Rightarrow> inet \<Rightarrow> bool \<Rightarrow> (net_event \<Rightarrow> listener_call list) \<Rightarrow> nat \<Rightarrow> nl_threads \<Rightarrow> nl_threads option" where
  "nt_step os net initialized calls i st =
     (if i < length (nt_code st) then
        case nt_code st ! i of
          [] \<Rightarrow> None
        | LockMain # k \<Rightarrow> if nt_mutex st = None then Some (nt_go i k (st\<lparr>nt_mutex := Some i\<rparr>)) else None
        | UnlockMain # k \<Rightarrow> Some (nt_go i k (st\<lparr>nt_mutex := None\<rparr>))
        | LockSend # k \<Rightarrow> if nt_send_mutex st = None then Some (nt_go i k (st\<lparr>nt_send_mutex := Some i\<rparr>)) else None
        | UnlockSend # k \<Rightarrow> Some (nt_go i k (st\<lparr>nt_send_mutex := None\<rparr>))
        | x # k \<Rightarrow>
          (case listener_instr os net initialized calls x (nt_listener st) of
             None \<Rightarrow> None
           | Some (code, l) \<Rightarrow> Some (nt_go i (code @ k) (st\<lparr>nt_listener := l\<rparr>)))
      else None)"

section \<open>The locks\<close>

text \<open>
  A thread's code releases what it holds, and takes \<open>m_send_mutex\<close> only when it does not hold \<open>m_mutex\<close>: the arguments say
  whether the two mutexes are held.
\<close>

fun locks_ok :: "bool \<Rightarrow> bool \<Rightarrow> instr list \<Rightarrow> bool" where
  "locks_ok m s [] \<longleftrightarrow> \<not> m \<and> \<not> s"
| "locks_ok m s (x # k) \<longleftrightarrow>
     (case x of
        LockMain \<Rightarrow> \<not> m \<and> locks_ok True s k
      | UnlockMain \<Rightarrow> m \<and> locks_ok False s k
      | LockSend \<Rightarrow> \<not> m \<and> \<not> s \<and> locks_ok m True k
      | UnlockSend \<Rightarrow> \<not> m \<and> s \<and> locks_ok m False k
      | IsValid a \<Rightarrow> m \<and> locks_ok False s k
      | CloseInternal \<Rightarrow> m \<and> locks_ok False s k
      | ReadSwitch \<Rightarrow> m \<and> \<not> s \<and> locks_ok False s k
      | ReadNext \<Rightarrow> m \<and> \<not> s \<and> locks_ok False s k
      | ReadEnd \<Rightarrow> m \<and> locks_ok False s k
      | WriteSend \<Rightarrow> \<not> m \<and> s \<and> locks_ok False False k
      | SendTry data len blocking async \<Rightarrow> \<not> m \<and> s \<and> locks_ok False False k
      | WriteMode b \<Rightarrow> \<not> m \<and> locks_ok m s k
      | SendMode b \<Rightarrow> \<not> m \<and> locks_ok m s k
      | WaitEmpty \<Rightarrow> \<not> m \<and> \<not> s \<and> locks_ok m s k
      | OnMessage message \<Rightarrow> \<not> m \<and> \<not> s \<and> locks_ok m s k
      | OnNewConnection sk \<Rightarrow> \<not> m \<and> \<not> s \<and> locks_ok m s k
      | ReRegister first_time \<Rightarrow> \<not> m \<and> s \<and> locks_ok m s k
      | Aborted e \<Rightarrow> False
      | _ \<Rightarrow> locks_ok m s k)"

lemma locks_ok_calls: "locks_ok False False k \<Longrightarrow> locks_ok False False (calls_code cs @ k)"
proof (induction cs)
  case (Cons c cs)
  then show ?case by (cases c) (simp_all add: calls_code_def close_socket_code_def)
qed (simp add: calls_code_def)

section \<open>The mode\<close>

text \<open>
  The mode that a thread is about to set, in \<open>on_write_ready\<close> or \<open>send\<close>; whether it is about to close the socket; and the
  mode that it is about to tell the loop.
\<close>

fun intent :: "instr list \<Rightarrow> Mode option" where
  "intent [] = None"
| "intent (x # k) =
     (case x of
        WriteMode has_more \<Rightarrow> if has_more then None else Some ReadOnly
      | SendMode has_more \<Rightarrow> Some (if has_more then ReadWrite else ReadOnly)
      | IsValid a \<Rightarrow>
          (case a of
             AfterWrite \<Rightarrow> Some ReadOnly
           | AfterSend has_more \<Rightarrow> Some (if has_more then ReadWrite else ReadOnly)
           | AfterCall \<Rightarrow> None)
      | SetMode mode \<Rightarrow> Some mode
      | LockMain \<Rightarrow> intent k | UnlockMain \<Rightarrow> intent k
      | TestDisconnected held \<Rightarrow> intent k | MarkDisconnected held \<Rightarrow> intent k
      | OnDisconnect held \<Rightarrow> intent k | UnregisterSelf \<Rightarrow> intent k
      | _ \<Rightarrow> None)"

fun closing :: "instr list \<Rightarrow> bool" where
  "closing (LockMain # k) \<longleftrightarrow> closing k"
| "closing (CloseInternal # k) \<longleftrightarrow> True"
| "closing k \<longleftrightarrow> False"

fun notifying :: "instr list \<Rightarrow> Mode option" where
  "notifying (Notify mode # k) = Some mode"
| "notifying k = None"

text \<open>Nothing else is in between: after every other instruction the thread has no such plan.\<close>

fun transparent :: "instr \<Rightarrow> bool" where
  "transparent x \<longleftrightarrow> (case x of
      LockMain \<Rightarrow> True | UnlockMain \<Rightarrow> True | CloseInternal \<Rightarrow> True | UnregisterSelf \<Rightarrow> True
    | TestDisconnected held \<Rightarrow> True | MarkDisconnected held \<Rightarrow> True | OnDisconnect held \<Rightarrow> True | _ \<Rightarrow> False)"

fun calm :: "instr list \<Rightarrow> bool" where
  "calm [] \<longleftrightarrow> True"
| "calm (x # k) \<longleftrightarrow> (transparent x \<or> intent k = None) \<and> notifying k = None \<and> calm k"

text \<open>The arguments of a \<open>send\<close>.\<close>

definition send_args_ok :: "byte list \<Rightarrow> u64 \<Rightarrow> bool" where
  "send_args_ok data len \<longleftrightarrow> unat (ucast len :: u32) \<le> length data \<and> unat (ucast len :: u32) + 4 < 2 ^ 32"

fun instr_ok :: "instr \<Rightarrow> bool" where
  "instr_ok (SendTry data len blocking async) \<longleftrightarrow> send_args_ok data len"
| "instr_ok x \<longleftrightarrow> True"

fun call_ok :: "listener_call \<Rightarrow> bool" where
  "call_ok (CallSend data len blocking async) \<longleftrightarrow> send_args_ok data len"
| "call_ok c \<longleftrightarrow> True"

definition code_ok :: "bool \<Rightarrow> bool \<Rightarrow> instr list \<Rightarrow> bool" where
  "code_ok m sd code \<longleftrightarrow> locks_ok m sd code \<and> calm code \<and> list_all instr_ok code"

text \<open>The callbacks may call the listener, but not in \<open>on_disconnect\<close>.\<close>

definition app_calls_ok :: "(net_event \<Rightarrow> listener_call list) \<Rightarrow> bool" where
  "app_calls_ok calls \<longleftrightarrow> (\<forall>held. calls (Disconnect held) = []) \<and> (\<forall>e. list_all call_ok (calls e))"

lemma calm_calls:
  assumes "list_all call_ok cs" and "calm k" and "intent k = None" and "notifying k = None" and "list_all instr_ok k"
  shows "calm (calls_code cs @ k) \<and> intent (calls_code cs @ k) = None \<and> notifying (calls_code cs @ k) = None \<and>
    list_all instr_ok (calls_code cs @ k)"
  using assms
proof (induction cs)
  case (Cons c cs)
  then show ?case by (cases c) (simp_all add: calls_code_def close_socket_code_def)
qed (simp add: calls_code_def)

lemma code_ok_calls:
  assumes "list_all call_ok cs" and "code_ok False False k" and "intent k = None" and "notifying k = None"
  shows "code_ok False False (calls_code cs @ k)"
  using assms calm_calls [of cs k] locks_ok_calls [of k cs] by (simp add: code_ok_def)

text \<open>What the loop has been told last.\<close>

fun told_mode :: "Mode \<Rightarrow> loop_call list \<Rightarrow> Mode" where
  "told_mode m [] = m"
| "told_mode m (NotifyModeChange fd mode first_time # cs) = told_mode mode cs"
| "told_mode m (Unregister fd # cs) = told_mode m cs"

lemma told_mode_append [simp]: "told_mode m (cs @ cs') = told_mode (told_mode m cs) cs'"
  by (induction m cs rule: told_mode.induct) simp_all

definition told :: "net_listener \<Rightarrow> Mode" where
  "told l = told_mode ReadOnly (nl_calls l)"

lemma told_call [simp]:
  "told (nl_call (NotifyModeChange fd mode first_time) l) = mode" "told (nl_call (Unregister fd) l) = told l"
  "told (l\<lparr>nl_socket := so\<rparr>) = told l" "told (l\<lparr>nl_mode := m\<rparr>) = told l" "told (l\<lparr>nl_log := lg\<rparr>) = told l"
  "told (l\<lparr>nl_has_disconnected := b\<rparr>) = told l"
  by (simp_all add: told_def nl_call_def)

section \<open>One instruction\<close>

definition sock_ok :: "MessageMode \<Rightarrow> net_listener \<Rightarrow> tcp_socket \<Rightarrow> bool" where
  "sock_ok mode l s \<longleftrightarrow> nl_socket l = Some s \<and> tcp_inv mode s \<and> (\<exists>del. received_view mode del s) \<and> nl_socket_type l = Connection"

text \<open>What a thread may plan while the socket is connected; \<open>sd\<close> says that it holds \<open>m_send_mutex\<close>.\<close>

definition plan_ok :: "bool \<Rightarrow> instr list \<Rightarrow> net_listener \<Rightarrow> tcp_socket \<Rightarrow> bool" where
  "plan_ok sd code l s \<longleftrightarrow> tcp_is_connected s \<longrightarrow>
     (\<forall>m. intent code = Some m \<longrightarrow> sd \<and> (m = ReadOnly \<longrightarrow> backlog s = [])) \<and>
     (\<forall>m. notifying code = Some m \<longrightarrow> sd \<and> m = nl_mode l)"

text \<open>
  Unsent data is announced, and the loop knows the mode, unless the thread with the code \<open>code\<close> is about to see to it.
\<close>

definition announced :: "instr list \<Rightarrow> net_listener \<Rightarrow> tcp_socket \<Rightarrow> bool" where
  "announced code l s \<longleftrightarrow> tcp_is_connected s \<longrightarrow>
     (backlog s \<noteq> [] \<longrightarrow> nl_mode l = ReadWrite \<or> intent code = Some ReadWrite \<or> closing code) \<and>
     (told l = nl_mode l \<or> notifying code \<noteq> None)"

definition keeps :: "bool \<Rightarrow> net_listener \<Rightarrow> tcp_socket \<Rightarrow> net_listener \<Rightarrow> tcp_socket \<Rightarrow> bool" where
  "keeps sd l s l' s' \<longleftrightarrow> tcp_is_connected s' \<longrightarrow> tcp_is_connected s \<and>
     (\<not> sd \<longrightarrow> backlog s' = backlog s \<and> nl_mode l' = nl_mode l \<and> told l' = told l)"

definition instr_step_ok :: "MessageMode \<Rightarrow> bool \<Rightarrow> bool \<Rightarrow> instr list \<Rightarrow> net_listener \<Rightarrow> tcp_socket \<Rightarrow>
    instr list \<Rightarrow> net_listener \<Rightarrow> bool" where
  "instr_step_ok mode m sd code l s code' l' \<longleftrightarrow> (\<exists>s'. sock_ok mode l' s' \<and> code_ok m sd code' \<and> keeps sd l s l' s' \<and>
     plan_ok sd code' l' s' \<and> (sd \<longrightarrow> announced code l s \<longrightarrow> announced code' l' s'))"

lemma sock_ok_valid: "sock_ok mode l s \<Longrightarrow> tcp_is_connected s \<Longrightarrow> tcp_is_valid s"
  using connected_valid tcp_inv_fd_ok by (auto simp: sock_ok_def)

lemma sock_ok_update:
  assumes "sock_ok mode l s" and "tcp_inv mode s'" and "same_received s s'"
  shows "sock_ok mode (l\<lparr>nl_socket := Some s'\<rparr>) s'"
  using assms received_view_cong [of s s' mode] by (auto simp: sock_ok_def same_received_def)

text \<open>The four instructions that call the socket.\<close>

lemma instr_step_close:
  assumes "shutdown_ok os" and "sock_ok mode l s" and "code_ok m sd (CloseInternal # k)"
    and "listener_instr os net initialized calls CloseInternal l = Some (code, l')"
  shows "instr_step_ok mode m sd (CloseInternal # k) l s (code @ k) l'"
proof (cases "tcp_is_valid s")
  case True
  have inv: "fd_ok s" "tcp_inv mode s" "nl_socket l = Some s" using assms(2) tcp_inv_fd_ok by (auto simp: sock_ok_def)
  obtain b s' where c: "tcp_close os False s = (Inr b, s')" "fd_ok s'"
      "if b then unused s' \<and> \<not> tcp_is_valid s' else tcp_is_connected s \<and> m_state s' = Shutdown"
    using tcp_close_total [of s os False] inv(1) assms(1) by (auto simp: shutdown_ok_def split: if_splits)
  have nc: "\<not> tcp_is_connected s'" using c(3) by (auto simp: unused_def tcp_is_connected_def split: if_splits)
  have q: "quiet s s'" using tcp_close_quiet [of s os False] c(1) by simp
  have "sock_ok mode (l\<lparr>nl_socket := Some s'\<rparr>) s'"
    using sock_ok_update [OF assms(2) tcp_inv_quiet [OF inv(2) q c(2)] quiet_same_received [OF q]] .
  then show ?thesis
    using assms(3,4) True inv(3) c(1) nc
    by (auto simp: instr_step_ok_def keeps_def plan_ok_def announced_def code_ok_def split: if_splits intro!: exI [of _ s'])
next
  case False
  then have "\<not> tcp_is_connected s" using sock_ok_valid [OF assms(2)] by blast
  then show ?thesis
    using assms(2-4) False
    by (auto simp: instr_step_ok_def keeps_def plan_ok_def announced_def code_ok_def sock_ok_def intro!: exI [of _ s])
qed

lemma instr_step_write:
  assumes "write_bounded os" and "sock_ok mode l s" and "code_ok m sd (WriteSend # k)"
    and "listener_instr os net initialized calls WriteSend l = Some (code, l')"
  shows "instr_step_ok mode m sd (WriteSend # k) l s (code @ k) l'"
proof -
  have inv: "tcp_inv mode s" "nl_socket l = Some s" using assms(2) by (simp_all add: sock_ok_def)
  obtain r s' where d: "tcp_do_send os (tcp_close os) s = Some (r, s')" "conserves s s'" "tcp_inv mode s'"
      "send_end s' r" "same_content (m_slicer s) (m_slicer s')" "m_state s' \<in> {m_state s, Closed}"
    using tcp_do_send_total [OF assms(1) inv(1)] by blast
  have sr: "same_received s s'" "tcp_is_connected s' \<longrightarrow> tcp_is_connected s" "backlog s' \<noteq> [] \<longrightarrow> backlog s \<noteq> []"
    using d(2,5,6) data_count_append [of s' s] by (auto simp: conserves_def same_received_def tcp_is_connected_def)
  have ok: "sock_ok mode (l\<lparr>nl_socket := Some s'\<rparr>) s'" using sock_ok_update [OF assms(2) d(3) sr(1)] .
  have r: "r = Inr False \<and> (tcp_is_connected s' \<longrightarrow> backlog s' = []) \<or> r = Inr True \<or> (\<exists>msg. r = Inl (SocketError msg))"
    using d(4) sock_ok_valid [OF ok] by (auto simp: send_end_def backlog_def)
  have code: "code = (case r of Inr has_more \<Rightarrow> [WriteMode has_more, UnlockSend]
      | Inl _ \<Rightarrow> UnlockSend # close_socket_code @ [WriteMode False])" "l' = l\<lparr>nl_socket := Some s'\<rparr>"
    using assms(4) d(1) inv(2) r by auto
  show ?thesis
    using r code assms(3) ok sr(2,3)
    by (auto simp: instr_step_ok_def keeps_def plan_ok_def announced_def code_ok_def close_socket_code_def intro!: exI [of _ s'])
qed

lemma instr_step_send:
  assumes "write_bounded os" and "sock_ok mode l s" and "code_ok m sd (SendTry data len blocking async # k)"
    and "listener_instr os net initialized calls (SendTry data len blocking async) l = Some (code, l')"
  shows "instr_step_ok mode m sd (SendTry data len blocking async # k) l s (code @ k) l'"
proof -
  have inv: "tcp_inv mode s" "nl_socket l = Some s" using assms(2) by (simp_all add: sock_ok_def)
  have "unat (ucast len :: u32) \<le> length data \<and> unat (ucast len :: u32) + 4 < 2 ^ 32"
    using assms(3) by (simp add: code_ok_def send_args_ok_def)
  from raw.send_total [OF assms(1) this inv(1), of async, unfolded send_contract_def]
  obtain r s' where d: "tcp_send os data (ucast len) async s = Some (r, s')" "tcp_inv mode s'" "same_received s s'"
      "tcp_is_connected s' \<longrightarrow> tcp_is_connected s"
      "case r of Inr has_more \<Rightarrow> \<not> has_more \<longrightarrow> tcp_is_valid s' \<longrightarrow> backlog s' = []
       | Inl e \<Rightarrow> (\<exists>msg. e = SocketError msg) \<or> e = SendQueueFull \<and> s' = s"
    by (force split: sum.splits)
  have ok: "sock_ok mode (l\<lparr>nl_socket := Some s'\<rparr>) s'" using sock_ok_update [OF assms(2) d(2,3)] .
  consider (more) has_more where "r = Inr has_more" "\<not> has_more \<longrightarrow> tcp_is_connected s' \<longrightarrow> backlog s' = []"
    | (close) e where "r = Inl e" "(\<exists>msg. e = SocketError msg) \<or> e = SendQueueFull \<and> \<not> blocking"
    | (wait) "r = Inl SendQueueFull" "blocking" "s' = s"
    using d(5) sock_ok_valid [OF ok] by (cases r) auto
  then show ?thesis
  proof cases
    case more
    then have "code = [SendMode has_more, UnlockSend]" "l' = l\<lparr>nl_socket := Some s'\<rparr>" using assms(4) d(1) inv(2) by auto
    then show ?thesis
      using more(2) assms(3) ok d(4)
      by (auto simp: instr_step_ok_def keeps_def plan_ok_def announced_def code_ok_def intro!: exI [of _ s'])
  next
    case close
    then have "code = close_socket_code @ [SendMode False, UnlockSend]" "l' = l\<lparr>nl_socket := Some s'\<rparr>"
      using assms(4) d(1) inv(2) by auto
    then show ?thesis
      using assms(3) ok d(4)
      by (auto simp: instr_step_ok_def keeps_def plan_ok_def announced_def code_ok_def close_socket_code_def intro!: exI [of _ s'])
  next
    case wait
    then have "code = [UnlockSend, WaitEmpty, LockSend, SendTry data len blocking async]" "l' = l"
      using assms(4) d(1) inv(2) by auto
    then show ?thesis
      using assms(2,3)
      by (auto simp: instr_step_ok_def keeps_def plan_ok_def announced_def code_ok_def intro!: exI [of _ s])
  qed
qed

lemma instr_step_read:
  assumes "posix os" and "sock_ok mode l s" and "code_ok m sd (ReadNext # k)"
    and "listener_instr os net initialized calls ReadNext l = Some (code, l')"
  shows "instr_step_ok mode m sd (ReadNext # k) l s (code @ k) l'"
proof -
  obtain n where n: "recv_finite os n" using assms(1) by (auto simp: posix_def)
  obtain del where inv: "tcp_inv mode s" "nl_socket l = Some s" "received_view mode del s" using assms(2) by (auto simp: sock_ok_def)
  obtain r s' del' where d: "tcp_receive os s = Some (r, s')" "tcp_inv mode s'" "received_view mode del' s'" "recv_frame s s'"
      "case r of Inl e \<Rightarrow> (\<exists>msg. e = SocketError msg) | Inr x \<Rightarrow> True"
    using tcp_receive_step [OF assms(1) n inv(1,3)] by (metis (no_types, lifting) sum.case_eq_if)
  have ok: "sock_ok mode (l\<lparr>nl_socket := Some s'\<rparr>) s'" using assms(2) d(2,3) by (auto simp: sock_ok_def)
  have f: "backlog s' = backlog s" "tcp_is_connected s' \<longrightarrow> tcp_is_connected s"
    using d(4) same_sending_backlog [of s s'] by (auto simp: recv_frame_def tcp_is_connected_def)
  have code: "code = (case r of Inr (Some message) \<Rightarrow> [UnlockMain, OnMessage message, LockMain, ReadNext] | _ \<Rightarrow> [ReadEnd])"
      "l' = l\<lparr>nl_socket := Some s'\<rparr>"
    using assms(4) d(1,5) inv(2) by (auto split: sum.splits option.splits)
  show ?thesis
    using code assms(3) ok f
    by (cases r) (auto simp: instr_step_ok_def keeps_def plan_ok_def announced_def code_ok_def intro!: exI [of _ s'] split: option.splits)
qed

fun lock_instr :: "instr \<Rightarrow> bool" where
  "lock_instr x \<longleftrightarrow> x \<in> {LockMain, UnlockMain, LockSend, UnlockSend}"

text \<open>The others leave the socket alone.\<close>

lemma instr_step_okI:
  assumes "sock_ok mode l' s" and "code_ok m sd code'" and "\<not> sd \<Longrightarrow> tcp_is_connected s \<Longrightarrow> nl_mode l' = nl_mode l \<and> told l' = told l"
    and "plan_ok sd code' l' s" and "sd \<Longrightarrow> announced code l s \<Longrightarrow> announced code' l' s"
  shows "instr_step_ok mode m sd code l s code' l'"
  unfolding instr_step_ok_def keeps_def using assms by (intro exI [of _ s]) auto

lemma sock_ok_frame [simp]:
  "sock_ok mode (nl_call c l) s = sock_ok mode l s" "sock_ok mode (l\<lparr>nl_mode := md\<rparr>) s = sock_ok mode l s"
  "sock_ok mode (l\<lparr>nl_log := lg\<rparr>) s = sock_ok mode l s" "sock_ok mode (l\<lparr>nl_has_disconnected := b\<rparr>) s = sock_ok mode l s"
  "nl_mode (nl_call c l) = nl_mode l"
  by (simp_all add: sock_ok_def nl_call_def)

lemma instr_step_callback:
  assumes "app_calls_ok calls" and "sock_ok mode l s" and "code_ok False False k" and "intent k = None" and "notifying k = None"
  shows "instr_step_ok mode False False code l s (calls_code (calls e) @ k) (l\<lparr>nl_log := nl_log l @ [e]\<rparr>)"
proof -
  have c: "list_all call_ok (calls e)" using assms(1) by (simp add: app_calls_ok_def)
  show ?thesis
    using assms(2,3) code_ok_calls [OF c assms(3-5)] calm_calls [OF c _ assms(4,5)]
    by (intro instr_step_okI) (auto simp: plan_ok_def code_ok_def)
qed

lemma instr_step_valid:
  assumes "sock_ok mode l s" and "code_ok m sd (IsValid a # k)" and "plan_ok sd (IsValid a # k) l s"
    and "listener_instr os net initialized calls (IsValid a) l = Some (code, l')"
  shows "instr_step_ok mode m sd (IsValid a # k) l s (code @ k) l'"
proof -
  have v: "nl_is_valid l = tcp_is_valid s" using assms(1) by (simp add: nl_is_valid_def sock_ok_def)
  have l': "l' = l" "code = UnlockMain # after_valid a (tcp_is_valid s)" using assms(4) v by simp_all
  show ?thesis
  proof (rule instr_step_okI)
    show "code_ok m sd (code @ k)"
      using assms(2) by (cases a) (auto simp: l' code_ok_def close_socket_code_def)
    show "plan_ok sd (code @ k) l' s"
      using assms(2,3) sock_ok_valid [OF assms(1)] by (cases a) (auto simp: l' plan_ok_def code_ok_def)
    show "announced (code @ k) l' s" if "announced (IsValid a # k) l s"
      using that sock_ok_valid [OF assms(1)] by (cases a) (auto simp: l' announced_def)
  qed (use assms(1) l' in simp_all)
qed

lemma instr_step_mode:
  assumes "sock_ok mode l s" and "code_ok m sd (x # k)" and "plan_ok sd (x # k) l s"
    and "x = WriteMode b \<or> x = SendMode b \<or> x = SetMode md \<or> x = Notify md"
    and "listener_instr os net initialized calls x l = Some (code, l')"
  shows "instr_step_ok mode m sd (x # k) l s (code @ k) l'"
  using assms(4)
proof (elim disjE)
  assume "x = WriteMode b"
  then show ?thesis using assms by (intro instr_step_okI; cases b) (auto simp: plan_ok_def announced_def code_ok_def)
next
  assume "x = SendMode b"
  then show ?thesis using assms by (intro instr_step_okI) (auto simp: plan_ok_def announced_def code_ok_def)
next
  assume x: "x = SetMode md"
  then have l': "l' = (if md = nl_mode l then l else l\<lparr>nl_mode := md\<rparr>)" "code = (if md = nl_mode l then [] else [Notify md])"
    using assms(5) by (simp_all split: if_splits)
  show ?thesis using assms(1-3) x by (intro instr_step_okI; cases md) (auto simp: l' plan_ok_def announced_def code_ok_def)
next
  assume "x = Notify md"
  then show ?thesis using assms by (intro instr_step_okI) (auto simp: plan_ok_def announced_def code_ok_def)
qed

lemma instr_step_re_register:
  assumes "sock_ok mode l s" and "code_ok m sd (ReRegister b # k)" and "plan_ok sd (ReRegister b # k) l s"
    and "listener_instr os net initialized calls (ReRegister b) l = Some (code, l')"
  shows "instr_step_ok mode m sd (ReRegister b # k) l s (code @ k) l'"
proof -
  have "nl_socket l = Some s" using assms(1) by (simp add: sock_ok_def)
  then have l': "l' = (if tcp_is_valid s then nl_call (NotifyModeChange (nl_fileno l) (nl_mode l) b) l else l)" "code = []"
    using assms(4) by (auto simp: nl_re_register_def split: if_splits)
  show ?thesis using assms(1-3) by (intro instr_step_okI) (auto simp: l' plan_ok_def announced_def code_ok_def)
qed

lemma instr_step_disconnect:
  assumes "app_calls_ok calls" and "sock_ok mode l s" and "code_ok m sd (x # k)" and "plan_ok sd (x # k) l s"
    and "x \<in> {TestDisconnected b, MarkDisconnected b, OnDisconnect b, UnregisterSelf, ReadEnd, ReadSwitch, WaitEmpty}"
    and "listener_instr os net initialized calls x l = Some (code, l')"
  shows "instr_step_ok mode m sd (x # k) l s (code @ k) l'"
proof -
  have v: "nl_socket l = Some s" "nl_socket_type l = Connection" using assms(2) by (simp_all add: sock_ok_def)
  note cv = sock_ok_valid [OF assms(2)]
  note defs = plan_ok_def announced_def code_ok_def app_calls_ok_def calls_code_def
  from assms(5) consider "x = TestDisconnected b" | "x = MarkDisconnected b" | "x = OnDisconnect b" | "x = UnregisterSelf"
    | "x = ReadEnd" | "x = ReadSwitch" | "x = WaitEmpty" by blast
  then show ?thesis
  proof cases
    case 1
    then show ?thesis using assms by (intro instr_step_okI; cases "nl_has_disconnected l") (auto simp: defs)
  next
    case 2
    then show ?thesis using assms v by (intro instr_step_okI; cases initialized) (auto simp: defs)
  next
    case 3
    then show ?thesis using assms by (intro instr_step_okI) (auto simp: defs)
  next
    case 4
    then show ?thesis using assms by (intro instr_step_okI) (auto simp: defs)
  next
    case 5
    then show ?thesis using assms v cv by (intro instr_step_okI; cases "tcp_is_valid s") (auto simp: defs)
  next
    case 6
    then show ?thesis using assms v by (intro instr_step_okI) (auto simp: defs)
  next
    case 7
    then show ?thesis using assms v by (intro instr_step_okI) (auto simp: defs split: if_splits)
  qed
qed

lemma listener_instr_ok:
  assumes "posix os" and "shutdown_ok os" and "app_calls_ok calls" and "sock_ok mode l s" and "code_ok m sd (x # k)"
    and "plan_ok sd (x # k) l s" and "listener_instr os net initialized calls x l = Some (code, l')"
  shows "instr_step_ok mode m sd (x # k) l s (code @ k) l'"
proof (cases x)
  case (OnMessage msg)
  then have "\<not> m" "\<not> sd" "code_ok False False k" "intent k = None" "notifying k = None" using assms(5) by (auto simp: code_ok_def)
  then show ?thesis using instr_step_callback [OF assms(3,4), of k "x # k" "NetworkMessage msg"] assms(7) OnMessage by simp
next
  case (OnNewConnection sk)
  then have "\<not> m" "\<not> sd" "code_ok False False k" "intent k = None" "notifying k = None" using assms(5) by (auto simp: code_ok_def)
  then show ?thesis using instr_step_callback [OF assms(3,4), of k "x # k" "NewConnection sk"] assms(7) OnNewConnection by simp
next
  case CloseInternal
  then show ?thesis using instr_step_close assms by blast
next
  case WriteSend
  then show ?thesis using instr_step_write assms by (auto simp: posix_def)
next
  case (SendTry data len blocking async)
  then show ?thesis using instr_step_send assms by (auto simp: posix_def)
next
  case ReadNext
  then show ?thesis using instr_step_read assms by blast
next
  case (IsValid a)
  then show ?thesis using instr_step_valid assms by blast
next
  case (ReRegister b)
  then show ?thesis using instr_step_re_register assms by blast
qed (use assms(5,7) instr_step_mode [OF assms(4-6) _ assms(7)] instr_step_disconnect [OF assms(3-6) _ assms(7)] in simp_all)

section \<open>The invariant\<close>

definition owns :: "nat option \<Rightarrow> nat \<Rightarrow> bool" where
  "owns owner i \<longleftrightarrow> owner = Some i"

lemma owns_simps [simp]: "owns (Some j) i \<longleftrightarrow> j = i" "\<not> owns None i"
  by (auto simp: owns_def)

text \<open>
  A thread that owns a mutex will release it; while the socket is connected, only the owner of \<open>m_send_mutex\<close> changes
  the mode, and when nobody owns it the mode is right and the loop knows it.
\<close>

definition nt_inv :: "MessageMode \<Rightarrow> nl_threads \<Rightarrow> bool" where
  "nt_inv mode st \<longleftrightarrow>
     (\<forall>i. nt_mutex st = Some i \<or> nt_send_mutex st = Some i \<longrightarrow> i < length (nt_code st)) \<and>
     (\<forall>i < length (nt_code st). code_ok (owns (nt_mutex st) i) (owns (nt_send_mutex st) i) (nt_code st ! i)) \<and>
     (\<exists>s. sock_ok mode (nt_listener st) s \<and>
       (\<forall>i < length (nt_code st). plan_ok (owns (nt_send_mutex st) i) (nt_code st ! i) (nt_listener st) s) \<and>
       announced (case nt_send_mutex st of None \<Rightarrow> [] | Some i \<Rightarrow> nt_code st ! i) (nt_listener st) s)"

lemma nt_go_simps [simp]:
  "nt_listener (nt_go i code st) = nt_listener st" "nt_mutex (nt_go i code st) = nt_mutex st"
  "nt_send_mutex (nt_go i code st) = nt_send_mutex st" "nt_code (nt_go i code st) = (nt_code st)[i := code]"
  by (simp_all add: nt_go_def)

lemma nt_step_cases:
  assumes "nt_step os net initialized calls i st = Some st'"
  obtains x k where "i < length (nt_code st)" "nt_code st ! i = x # k"
    "x = LockMain \<and> nt_mutex st = None \<and> st' = nt_go i k (st\<lparr>nt_mutex := Some i\<rparr>) \<or>
     x = UnlockMain \<and> st' = nt_go i k (st\<lparr>nt_mutex := None\<rparr>) \<or>
     x = LockSend \<and> nt_send_mutex st = None \<and> st' = nt_go i k (st\<lparr>nt_send_mutex := Some i\<rparr>) \<or>
     x = UnlockSend \<and> st' = nt_go i k (st\<lparr>nt_send_mutex := None\<rparr>) \<or>
     (\<exists>code l. listener_instr os net initialized calls x (nt_listener st) = Some (code, l) \<and>
       st' = nt_go i (code @ k) (st\<lparr>nt_listener := l\<rparr>))"
  using assms by (auto simp: nt_step_def split: if_splits list.splits instr.splits option.splits prod.splits intro: that)

lemma plan_ok_other:
  assumes "plan_ok sdj code l s" and "keeps sdi l s l' s'" and "\<not> (sdi \<and> sdj)"
  shows "plan_ok sdj code l' s'"
  using assms by (auto simp: plan_ok_def keeps_def)

text \<open>It is enough to look at the thread that moves, when it does not change what the others rely on.\<close>

lemma nt_invI:
  assumes inv: "nt_inv mode st" and i: "i < length (nt_code st)" and st': "nt_code st' = (nt_code st)[i := code]"
    and others: "\<And>j. j \<noteq> i \<Longrightarrow> owns (nt_mutex st') j = owns (nt_mutex st) j \<and> owns (nt_send_mutex st') j = owns (nt_send_mutex st) j"
    and code: "code_ok (owns (nt_mutex st') i) (owns (nt_send_mutex st') i) code"
    and s: "sock_ok mode (nt_listener st) s" "sock_ok mode (nt_listener st') s'"
      "keeps (owns (nt_send_mutex st) i) (nt_listener st) s (nt_listener st') s'"
    and plan: "plan_ok (owns (nt_send_mutex st') i) code (nt_listener st') s'"
    and ann: "announced (case nt_send_mutex st' of None \<Rightarrow> [] | Some j \<Rightarrow> nt_code st' ! j) (nt_listener st') s'"
  shows "nt_inv mode st'"
proof -
  have s': "sock_ok mode (nt_listener st) t \<Longrightarrow> t = s" for t using s(1) by (simp add: sock_ok_def)
  have old: "\<And>j. owns (nt_mutex st) j \<or> owns (nt_send_mutex st) j \<Longrightarrow> j < length (nt_code st)"
      "\<And>j. j < length (nt_code st) \<Longrightarrow> code_ok (owns (nt_mutex st) j) (owns (nt_send_mutex st) j) (nt_code st ! j)"
      "\<And>j. j < length (nt_code st) \<Longrightarrow> plan_ok (owns (nt_send_mutex st) j) (nt_code st ! j) (nt_listener st) s"
    using inv s' by (auto simp: nt_inv_def owns_def)
  have 1: "j < length (nt_code st')" if "owns (nt_mutex st') j \<or> owns (nt_send_mutex st') j" for j
    using that others [of j] old(1) [of j] i st' by (cases "j = i") auto
  have 2: "code_ok (owns (nt_mutex st') j) (owns (nt_send_mutex st') j) (nt_code st' ! j)" if "j < length (nt_code st')" for j
    using that others [of j] old(2) [of j] code i st' by (cases "j = i") auto
  have 3: "plan_ok (owns (nt_send_mutex st') j) (nt_code st' ! j) (nt_listener st') s'" if "j < length (nt_code st')" for j
  proof (cases "j = i")
    case False
    have "\<not> (owns (nt_send_mutex st) i \<and> owns (nt_send_mutex st) j)" using False by (auto simp: owns_def)
    then show ?thesis using that plan_ok_other [OF old(3) s(3)] others [OF False] False st' by simp
  qed (use that plan i st' in simp)
  show ?thesis unfolding nt_inv_def using 1 2 3 s(2) ann by (auto simp: owns_def)
qed

lemma keeps_refl [simp]: "keeps sd l s l s"
  by (simp add: keeps_def)

lemma nt_inv_main:
  assumes inv: "nt_inv mode st" and i: "i < length (nt_code st)" and x: "nt_code st ! i = x # k"
    and st': "x = LockMain \<and> nt_mutex st = None \<and> st' = nt_go i k (st\<lparr>nt_mutex := Some i\<rparr>) \<or>
     x = UnlockMain \<and> st' = nt_go i k (st\<lparr>nt_mutex := None\<rparr>)"
  shows "nt_inv mode st'"
proof -
  obtain s where s: "sock_ok mode (nt_listener st) s" "plan_ok (owns (nt_send_mutex st) i) (x # k) (nt_listener st) s"
      "announced (case nt_send_mutex st of None \<Rightarrow> [] | Some i \<Rightarrow> nt_code st ! i) (nt_listener st) s"
    using inv i x by (force simp: nt_inv_def)
  have c: "code_ok (owns (nt_mutex st) i) (owns (nt_send_mutex st) i) (x # k)" using inv i x by (auto simp: nt_inv_def)
  have same: "nt_listener st' = nt_listener st" "nt_send_mutex st' = nt_send_mutex st" "nt_code st' = (nt_code st)[i := k]"
    using st' by auto
  show ?thesis
  proof (rule nt_invI [OF inv i same(3) _ _ s(1), of s])
    show "owns (nt_mutex st') j = owns (nt_mutex st) j \<and> owns (nt_send_mutex st') j = owns (nt_send_mutex st) j" if "j \<noteq> i" for j
      using st' c that by (auto simp: code_ok_def owns_def)
    show "code_ok (owns (nt_mutex st') i) (owns (nt_send_mutex st') i) k"
      using st' c by (auto simp: code_ok_def)
    show "plan_ok (owns (nt_send_mutex st') i) k (nt_listener st') s"
      using st' c s(2) same by (auto simp: plan_ok_def code_ok_def)
    show "announced (case nt_send_mutex st' of None \<Rightarrow> [] | Some j \<Rightarrow> nt_code st' ! j) (nt_listener st') s"
      using st' s(3) x i same by (auto simp: announced_def nth_list_update split: option.splits)
  qed (use s same in simp_all)
qed

lemma nt_inv_send:
  assumes inv: "nt_inv mode st" and i: "i < length (nt_code st)" and x: "nt_code st ! i = x # k"
    and st': "x = LockSend \<and> nt_send_mutex st = None \<and> st' = nt_go i k (st\<lparr>nt_send_mutex := Some i\<rparr>) \<or>
     x = UnlockSend \<and> st' = nt_go i k (st\<lparr>nt_send_mutex := None\<rparr>)"
  shows "nt_inv mode st'"
proof -
  obtain s where s: "sock_ok mode (nt_listener st) s"
      "announced (case nt_send_mutex st of None \<Rightarrow> [] | Some i \<Rightarrow> nt_code st ! i) (nt_listener st) s"
    using inv by (auto simp: nt_inv_def)
  have c: "code_ok (owns (nt_mutex st) i) (owns (nt_send_mutex st) i) (x # k)" using inv i x by (auto simp: nt_inv_def)
  have same: "nt_listener st' = nt_listener st" "nt_mutex st' = nt_mutex st" "nt_code st' = (nt_code st)[i := k]"
    using st' by auto
  show ?thesis
  proof (rule nt_invI [OF inv i same(3) _ _ s(1), of s])
    show "owns (nt_mutex st') j = owns (nt_mutex st) j \<and> owns (nt_send_mutex st') j = owns (nt_send_mutex st) j" if "j \<noteq> i" for j
      using st' c that by (auto simp: code_ok_def owns_def)
    show "code_ok (owns (nt_mutex st') i) (owns (nt_send_mutex st') i) k"
      using st' c by (auto simp: code_ok_def)
    show "plan_ok (owns (nt_send_mutex st') i) k (nt_listener st') s"
      using st' c by (auto simp: plan_ok_def code_ok_def)
    show "announced (case nt_send_mutex st' of None \<Rightarrow> [] | Some j \<Rightarrow> nt_code st' ! j) (nt_listener st') s"
      using st' s(2) x i c same by (auto simp: announced_def owns_def code_ok_def)
  qed (use s same in simp_all)
qed

lemma nt_inv_step:
  assumes "posix os" and "shutdown_ok os" and "app_calls_ok calls" and inv: "nt_inv mode st"
    and "nt_step os net initialized calls i st = Some st'"
  shows "nt_inv mode st'"
  using assms(5)
proof (rule nt_step_cases)
  fix x k
  assume i: "i < length (nt_code st)" and x: "nt_code st ! i = x # k" and
    c: "x = LockMain \<and> nt_mutex st = None \<and> st' = nt_go i k (st\<lparr>nt_mutex := Some i\<rparr>) \<or>
     x = UnlockMain \<and> st' = nt_go i k (st\<lparr>nt_mutex := None\<rparr>) \<or>
     x = LockSend \<and> nt_send_mutex st = None \<and> st' = nt_go i k (st\<lparr>nt_send_mutex := Some i\<rparr>) \<or>
     x = UnlockSend \<and> st' = nt_go i k (st\<lparr>nt_send_mutex := None\<rparr>) \<or>
     (\<exists>code l. listener_instr os net initialized calls x (nt_listener st) = Some (code, l) \<and>
       st' = nt_go i (code @ k) (st\<lparr>nt_listener := l\<rparr>))"
  let ?sd = "owns (nt_send_mutex st) i"
  obtain s where s: "sock_ok mode (nt_listener st) s" "plan_ok ?sd (x # k) (nt_listener st) s"
      "announced (case nt_send_mutex st of None \<Rightarrow> [] | Some i \<Rightarrow> nt_code st ! i) (nt_listener st) s"
    using inv i x by (force simp: nt_inv_def)
  have ok: "code_ok (owns (nt_mutex st) i) ?sd (x # k)" using inv i x by (auto simp: nt_inv_def)
  show "nt_inv mode st'"
  proof (cases "\<exists>code l. listener_instr os net initialized calls x (nt_listener st) = Some (code, l) \<and>
       st' = nt_go i (code @ k) (st\<lparr>nt_listener := l\<rparr>)")
    case False
    then show ?thesis using c nt_inv_main [OF inv i x, of st'] nt_inv_send [OF inv i x, of st'] by blast
  next
    case True
    then obtain code l where l: "listener_instr os net initialized calls x (nt_listener st) = Some (code, l)"
        "st' = nt_go i (code @ k) (st\<lparr>nt_listener := l\<rparr>)" by blast
    obtain s' where s': "sock_ok mode l s'" "code_ok (owns (nt_mutex st) i) ?sd (code @ k)" "keeps ?sd (nt_listener st) s l s'"
        "plan_ok ?sd (code @ k) l s'" "?sd \<longrightarrow> announced (x # k) (nt_listener st) s \<longrightarrow> announced (code @ k) l s'"
      using listener_instr_ok [OF assms(1-3) s(1) ok s(2) l(1)] unfolding instr_step_ok_def by blast
    have "announced (case nt_send_mutex st of None \<Rightarrow> [] | Some j \<Rightarrow> (nt_code st)[i := code @ k] ! j) l s'"
    proof (cases ?sd)
      case True
      then show ?thesis using s'(5) s(3) x i by (simp add: owns_def)
    next
      case False
      then show ?thesis
        using s'(3) s(3) by (cases "nt_send_mutex st") (auto simp: announced_def keeps_def)
    qed
    then show ?thesis
      using s' by (intro nt_invI [OF inv i _ _ _ s(1), of _ "code @ k" s']) (simp_all add: l(2) cong: option.case_cong)
  qed
qed

interpretation nts: thread_system "nt_step os net initialized calls"
  "\<lambda>st. posix os \<and> shutdown_ok os \<and> app_calls_ok calls \<and> nt_inv mode st" for os net initialized calls mode
  by unfold_locales (use nt_inv_step in blast)

lemma nt_inv_init:
  assumes "nl_inv mode l" and "told l = nl_mode l" and "list_all (list_all call_ok) css"
  shows "nt_inv mode (nt_init l css)"
proof -
  obtain s where s: "unsettled mode l s" "tcp_is_connected s \<and> backlog s \<noteq> [] \<longrightarrow> nl_mode l = ReadWrite"
    using assms(1) by (auto simp: nl_inv_unsettled)
  have ok: "sock_ok mode l s" using s(1) by (auto simp: sock_ok_def unsettled_def told_inv_def)
  have c: "code_ok False False (calls_code cs)" "intent (calls_code cs) = None" "notifying (calls_code cs) = None"
    if "list_all call_ok cs" for cs
    using code_ok_calls [OF that, of "[]"] calm_calls [OF that, of "[]"] by (simp_all add: code_ok_def)
  have ci: "list_all call_ok (css ! i)" if "i < length css" for i
    using that assms(3) by (simp add: list_all_length)
  show ?thesis
    unfolding nt_inv_def nt_init_def
    using ok s(2) assms(2) c [OF ci] by (auto simp: plan_ok_def announced_def intro!: exI [of _ s])
qed

section \<open>No deadlock\<close>

lemma listener_instr_total:
  assumes "posix os" and "sock_ok mode l s" and "code_ok m sd (x # k)" and "\<not> lock_instr x"
    and "listener_instr os net initialized calls x l = None"
  shows "x = WaitEmpty \<and> tcp_send_queue_waits s"
proof -
  obtain n del where n: "recv_finite os n" "received_view mode del s" "write_bounded os" and inv: "tcp_inv mode s"
    and l: "nl_socket l = Some s" "nl_socket_type l = Connection"
    using assms(1,2) by (auto simp: posix_def sock_ok_def)
  have d: "tcp_do_send os (tcp_close os) s \<noteq> None" using tcp_do_send_total [OF n(3) inv] by blast
  have r: "tcp_receive os s \<noteq> None" using tcp_receive_step [OF assms(1) n(1) inv n(2)] by blast
  have t: "tcp_send os data (ucast len) async s \<noteq> None" if "x = SendTry data len blocking async" for data len blocking async
    using raw.send_total [OF n(3) _ inv, of "ucast len" data async] assms(3) that
    by (auto simp: send_contract_def code_ok_def send_args_ok_def)
  show ?thesis
    using assms(3-5) d r t l by (cases x) (auto simp: code_ok_def split: if_splits)
qed

lemma nt_moves:
  assumes "posix os" and inv: "nt_inv mode st" and i: "i < length (nt_code st)" "nt_code st ! i = x # k"
    and "nt_step os net initialized calls i st = None" and "sock_ok mode (nt_listener st) s"
  shows "x = LockMain \<and> nt_mutex st \<noteq> None \<or> x = LockSend \<and> nt_send_mutex st \<noteq> None \<or> x = WaitEmpty \<and> tcp_send_queue_waits s"
proof (cases "lock_instr x")
  case True
  then show ?thesis using assms(5) i by (auto simp: nt_step_def split: if_splits)
next
  case False
  have "code_ok (owns (nt_mutex st) i) (owns (nt_send_mutex st) i) (x # k)" using inv i by (auto simp: nt_inv_def)
  moreover have "listener_instr os net initialized calls x (nt_listener st) = None"
    using assms(5) i False by (cases x) (auto simp: nt_step_def simp del: listener_instr.simps split: option.splits)
  ultimately show ?thesis using listener_instr_total [OF assms(1,6)] False by blast
qed

text \<open>When no thread can move, nobody holds a mutex: the owner of \<open>m_mutex\<close> waits for nothing, and the owner of \<open>m_send_mutex\<close> only for \<open>m_mutex\<close>.\<close>

lemma nt_stuck:
  assumes "posix os" and inv: "nt_inv mode st" and q: "quiescent (nt_step os net initialized calls) st"
    and s: "sock_ok mode (nt_listener st) s"
  shows "nt_mutex st = None" and "nt_send_mutex st = None"
    and "code \<in> set (nt_code st) \<Longrightarrow> code = [] \<or> (\<exists>k. code = WaitEmpty # k) \<and> tcp_send_queue_waits s"
proof -
  have none: "nt_step os net initialized calls i st = None" for i using q by (simp add: quiescent_def)
  note stuck = nt_moves [OF assms(1) inv _ _ none s]
  have ok: "code_ok (owns (nt_mutex st) i) (owns (nt_send_mutex st) i) (nt_code st ! i)" if "i < length (nt_code st)" for i
    using inv that by (auto simp: nt_inv_def)
  have own: "i < length (nt_code st)" if "nt_mutex st = Some i \<or> nt_send_mutex st = Some i" for i
    using inv that by (auto simp: nt_inv_def)
  show m: "nt_mutex st = None"
  proof (rule ccontr)
    assume "nt_mutex st \<noteq> None"
    then obtain i where i: "nt_mutex st = Some i" by blast
    then have li: "i < length (nt_code st)" using own by blast
    obtain x k where x: "nt_code st ! i = x # k" using ok [OF li] i by (cases "nt_code st ! i") (auto simp: code_ok_def)
    from stuck [OF li x] ok [OF li] i show False by (auto simp: x code_ok_def)
  qed
  show sd: "nt_send_mutex st = None"
  proof (rule ccontr)
    assume "nt_send_mutex st \<noteq> None"
    then obtain i where i: "nt_send_mutex st = Some i" by blast
    then have li: "i < length (nt_code st)" using own by blast
    obtain x k where x: "nt_code st ! i = x # k" using ok [OF li] i by (cases "nt_code st ! i") (auto simp: code_ok_def)
    from stuck [OF li x] ok [OF li] i m show False by (auto simp: x code_ok_def)
  qed
  show "code = [] \<or> (\<exists>k. code = WaitEmpty # k) \<and> tcp_send_queue_waits s" if "code \<in> set (nt_code st)"
  proof -
    obtain i where i: "i < length (nt_code st)" "nt_code st ! i = code" using \<open>code \<in> set (nt_code st)\<close> by (auto simp: in_set_conv_nth)
    show ?thesis using stuck [OF i(1)] i(2) m sd by (cases code) auto
  qed
qed

lemma waits_backlog:
  assumes "tcp_inv mode s" and "tcp_send_queue_waits s"
  shows "backlog s \<noteq> []"
proof (cases "m_send_queue s")
  case Nil
  then show ?thesis using assms by (simp add: tcp_inv_def send_inv_def tcp_send_queue_waits_def)
next
  case (Cons m q)
  then have "queued_ok m" using assms(1) by (simp add: tcp_inv_def send_inv_def)
  then have "remaining m \<noteq> []" by (auto simp: queued_ok_def remaining_def word_less_nat_alt)
  then show ?thesis using Cons by (simp add: backlog_def)
qed

section \<open>Properties\<close>

text \<open>
  C19. Any number of threads call the handlers, \<open>send\<close>, \<open>close_socket\<close>, \<open>is_valid\<close> and \<open>re_register\<close> of one connection, one after
  another, interleaved in any way, and the application calls it from \<open>on_network_message\<close>.  No exception leaves a method, and whenever
  nobody holds \<open>m_send_mutex\<close>, unsent data of a connected socket is announced: the listener is in the mode for writing, and
  the loop has been told.
\<close>

theorem nl_threads_announce:
  assumes "posix os" and "shutdown_ok os" and "app_calls_ok calls" and "nl_inv mode l" and "told l = nl_mode l"
    and "list_all (list_all call_ok) css"
    and "schedule (nt_step os net initialized calls) is (nt_init l css) = Some st"
  shows "\<exists>s. nl_socket (nt_listener st) = Some s \<and>
    (nt_send_mutex st = None \<and> tcp_is_connected s \<longrightarrow> told (nt_listener st) = nl_mode (nt_listener st) \<and>
      (backlog s \<noteq> [] \<longrightarrow> nl_mode (nt_listener st) = ReadWrite)) \<and>
    (\<forall>code \<in> set (nt_code st). \<forall>e k. code \<noteq> Aborted e # k)"
proof -
  have inv: "nt_inv mode st" using nts.schedule_inv [OF _ assms(7)] assms(1-3) nt_inv_init [OF assms(4-6)] by blast
  then obtain s where s: "sock_ok mode (nt_listener st) s"
      "announced (case nt_send_mutex st of None \<Rightarrow> [] | Some i \<Rightarrow> nt_code st ! i) (nt_listener st) s"
    by (auto simp: nt_inv_def)
  have "code \<noteq> Aborted e # k" if "code \<in> set (nt_code st)" for code e k
    using inv that by (fastforce simp: nt_inv_def in_set_conv_nth code_ok_def)
  then show ?thesis using s by (auto simp: sock_ok_def announced_def)
qed

lemma connected_listener_told: "told connected_listener = nl_mode connected_listener"
  by (simp add: told_def connected_listener_def nl_new_def)

lemmas nt_eval = nt_step_def nt_init_def nt_go_def calls_code_def close_socket_code_def

theorem nl_threads_announce_witness:
  "\<exists>st s. schedule (nt_step (feeding_os []) loopback_inet True (\<lambda>_. [])) [0, 1, 1, 1]
      (nt_init connected_listener [[CallSend [7, 8] 2 False False], [CallClose, CallIsValid], [CallWrite]]) = Some st \<and>
    nt_send_mutex st = Some 0 \<and> nl_socket (nt_listener st) = Some s"
proof -
  let ?st = "nt_init connected_listener [[CallSend [7, 8] 2 False False], [CallClose, CallIsValid], [CallWrite]]"
  have "\<exists>st. schedule (nt_step (feeding_os []) loopback_inet True (\<lambda>_. [])) [0, 1, 1, 1] ?st = Some st \<and> nt_send_mutex st = Some 0"
    by (simp add: nt_eval connected_listener_def tcp_is_valid_def connected_socket_def tcp_close_def feeding_os_def Let_def)
  then obtain st where st: "schedule (nt_step (feeding_os []) loopback_inet True (\<lambda>_. [])) [0, 1, 1, 1] ?st = Some st"
      "nt_send_mutex st = Some 0" by blast
  show ?thesis
    using nl_threads_announce [OF feeding_posix feeding_shutdown_ok _
        nl_run_inv [OF connected_listener_run feeding_posix feeding_shutdown_ok] connected_listener_told _ st(1)] st
    by (auto simp: app_calls_ok_def send_args_ok_def)
qed



text \<open>
  C34. \<open>close_socket_internal\<close> tests and sets \<open>m_has_disconnected\<close> after it has released the mutex: two threads that close a connection
  which is already shutting down can both pass the test, so that \<open>on_disconnect\<close> is called twice and the
  listener is unregistered twice.
\<close>

theorem nl_disconnect_twice:
  assumes "nl_socket l = Some s" and "tcp_is_valid s" and "m_state s \<noteq> Connected"
    and "\<not> nl_has_disconnected l" and "nl_socket_type l = Connection"
  shows "\<exists>is st. schedule (nt_step os net True (\<lambda>_. [])) is (nt_init l [[CallClose], [CallClose]]) = Some st \<and>
    nt_code st = [[], []] \<and> nl_log (nt_listener st) = nl_log l @ [Disconnect True, Disconnect False] \<and>
    nl_calls (nt_listener st) = nl_calls l @ [Unregister (nl_fileno l), Unregister (nl_fileno l)]"
proof -
  obtain s' where c: "tcp_close os False s = (Inr True, s')" "\<not> tcp_is_valid s'"
    using assms(2,3) by (auto simp: tcp_close_def tcp_is_valid_def)
  show ?thesis
    using assms c
    by (intro exI [of _ "[0, 0, 0, 0, 1, 1, 1, 1, 1, 1, 1, 0, 0, 0]"]) (simp add: nt_eval nl_call_def)
qed

theorem nl_disconnect_twice_witness:
  "\<exists>is st. schedule (nt_step (feeding_os []) loopback_inet True (\<lambda>_. [])) is
      (nt_init (connected_listener\<lparr>nl_socket := Some ((connected_socket Datagram)\<lparr>m_state := Shutdown\<rparr>)\<rparr>) [[CallClose], [CallClose]]) = Some st \<and>
    times is_disconnect (nl_log (nt_listener st)) = 2"
  using nl_disconnect_twice [of "connected_listener\<lparr>nl_socket := Some ((connected_socket Datagram)\<lparr>m_state := Shutdown\<rparr>)\<rparr>"
      "(connected_socket Datagram)\<lparr>m_state := Shutdown\<rparr>" "feeding_os []" loopback_inet]
  by (force simp: connected_listener_def nl_new_def tcp_is_valid_def connected_socket_def times_def)

text \<open>
  An application that asks \<open>is_valid\<close> in \<open>on_disconnect\<close> deadlocks when the peer has closed the connection: the callback runs with
  \<open>m_mutex\<close> held, and the thread waits for itself.
\<close>

theorem nl_disconnect_deadlocks:
  assumes "nl_socket l = Some s" and "\<not> tcp_is_valid s" and "\<not> nl_has_disconnected l" and "nl_socket_type l = Connection"
    and "calls (Disconnect True) = CallIsValid # cs"
  shows "\<exists>is st. schedule (nt_step os net initialized calls) is (nt_init l [[CallClose]]) = Some st \<and>
    quiescent (nt_step os net initialized calls) st \<and> nt_mutex st = Some 0 \<and> nt_code st \<noteq> [[]]"
  using assms by (intro exI [of _ "[0, 0, 0, 0, 0]"]) (simp add: nt_eval quiescent_def)

theorem nl_disconnect_deadlocks_witness:
  "\<exists>is st. schedule (nt_step (feeding_os []) loopback_inet True (\<lambda>_. [CallIsValid])) is
      (nt_init (connected_listener\<lparr>nl_socket := Some ((connected_socket Datagram)\<lparr>m_fd := -1\<rparr>)\<rparr>) [[CallClose]]) = Some st \<and>
    quiescent (nt_step (feeding_os []) loopback_inet True (\<lambda>_. [CallIsValid])) st \<and> nt_code st \<noteq> [[]]"
  using nl_disconnect_deadlocks [of "connected_listener\<lparr>nl_socket := Some ((connected_socket Datagram)\<lparr>m_fd := -1\<rparr>)\<rparr>"
      "(connected_socket Datagram)\<lparr>m_fd := -1\<rparr>" "\<lambda>_. [CallIsValid]" "[]" "feeding_os []" loopback_inet True]
  by (force simp: connected_listener_def nl_new_def tcp_is_valid_def)

text \<open>
  An application that sends in \<open>on_disconnect\<close>: \<open>send\<close> closes a connection that has broken with \<open>m_send_mutex\<close> held.
\<close>

lemma nl_send_deadlocks:
  assumes "nl_socket l = Some s" and "\<not> tcp_is_valid s" and "\<not> nl_has_disconnected l" and "nl_socket_type l = Connection"
    and "tcp_send os data (ucast len) async s = Some (Inl (SocketError msg), s)"
    and "calls (Disconnect True) = CallSend data' len' blocking' async' # cs"
  shows "\<exists>is st. schedule (nt_step os net initialized calls) is (nt_init l [[CallSend data len blocking async]]) = Some st \<and>
    quiescent (nt_step os net initialized calls) st \<and> nt_send_mutex st = Some 0 \<and> nt_code st \<noteq> [[]]"
  using assms by (intro exI [of _ "[0, 0, 0, 0, 0, 0, 0]"]) (simp add: nt_eval quiescent_def)

end
