(* ===== verification/Listener_Solo.thy ===== *)
theory Listener_Solo
  imports Listener_Threads
begin

text \<open>
  The threads of a listener and its sequential definitions: a thread that runs alone, instruction by instruction, does what the
  definitions of the theory on \<open>NetworkSocketListener\<close> say.
\<close>

section \<open>One thread alone\<close>

text \<open>The only thread, and which of the mutexes it holds; and what it reaches when it runs.\<close>

definition alone_with :: "bool \<Rightarrow> bool \<Rightarrow> instr list \<Rightarrow> net_listener \<Rightarrow> nl_threads" where
  "alone_with m sd code l = \<lparr>nt_listener = l, nt_mutex = (if m then Some 0 else None),
     nt_send_mutex = (if sd then Some 0 else None), nt_code = [code]\<rparr>"

definition reaches :: "os \<Rightarrow> inet \<Rightarrow> bool \<Rightarrow> nl_threads \<Rightarrow> nl_threads \<Rightarrow> bool" where
  "reaches os net initialized st st' \<longleftrightarrow> (\<exists>is. schedule (nt_step os net initialized (\<lambda>_. [])) is st = Some st')"

lemma reaches_refl [simp]: "reaches os net initialized st st"
  unfolding reaches_def by (intro exI [of _ "[]"]) simp

lemma reaches_trans: "reaches os net initialized a b \<Longrightarrow> reaches os net initialized b c \<Longrightarrow> reaches os net initialized a c"
  unfolding reaches_def by (metis Option.bind.bind_lunit schedule_append)

lemma reaches_lock:
  "reaches os net initialized (alone_with True sd k l) st \<Longrightarrow> reaches os net initialized (alone_with False sd (LockMain # k) l) st"
  "reaches os net initialized (alone_with False sd k l) st \<Longrightarrow> reaches os net initialized (alone_with True sd (UnlockMain # k) l) st"
  "reaches os net initialized (alone_with m True k l) st \<Longrightarrow> reaches os net initialized (alone_with m False (LockSend # k) l) st"
  "reaches os net initialized (alone_with m False k l) st \<Longrightarrow> reaches os net initialized (alone_with m True (UnlockSend # k) l) st"
proof -
  have *: "reaches os net initialized a c" if "nt_step os net initialized (\<lambda>_. []) 0 a = Some b" "reaches os net initialized b c" for a b c
  proof -
    have "reaches os net initialized a b" unfolding reaches_def using that(1) by (intro exI [of _ "[0]"]) simp
    then show ?thesis using that(2) by (rule reaches_trans)
  qed
  show "reaches os net initialized (alone_with True sd k l) st \<Longrightarrow> reaches os net initialized (alone_with False sd (LockMain # k) l) st"
    "reaches os net initialized (alone_with False sd k l) st \<Longrightarrow> reaches os net initialized (alone_with True sd (UnlockMain # k) l) st"
    "reaches os net initialized (alone_with m True k l) st \<Longrightarrow> reaches os net initialized (alone_with m False (LockSend # k) l) st"
    "reaches os net initialized (alone_with m False k l) st \<Longrightarrow> reaches os net initialized (alone_with m True (UnlockSend # k) l) st"
    by (erule * [rotated], simp add: nt_step_def nt_go_def alone_with_def)+
qed

lemma reaches_instr:
  assumes "listener_instr os net initialized (\<lambda>_. []) x l = Some (code, l')" and "reaches os net initialized (alone_with m sd (code @ k) l') st"
  shows "reaches os net initialized (alone_with m sd (x # k) l) st"
proof -
  have "nt_step os net initialized (\<lambda>_. []) 0 (alone_with m sd (x # k) l) = Some (alone_with m sd (code @ k) l')"
    using assms(1) by (cases x) (simp_all add: nt_step_def nt_go_def alone_with_def del: listener_instr.simps(1-18))
  then have "reaches os net initialized (alone_with m sd (x # k) l) (alone_with m sd (code @ k) l')"
    unfolding reaches_def by (intro exI [of _ "[0]"]) simp
  then show ?thesis using assms(2) by (rule reaches_trans)
qed

lemma reaches_run:
  "(case listener_instr os net initialized (\<lambda>_. []) x l of None \<Rightarrow> False
    | Some (code, l') \<Rightarrow> reaches os net initialized (alone_with m sd (code @ k) l') st) \<Longrightarrow>
   reaches os net initialized (alone_with m sd (x # k) l) st"
  by (auto split: option.splits intro: reaches_instr)

text \<open>Each method, run by a thread that nobody disturbs, does what its sequential definition says.\<close>

lemma reaches_disconnected:
  assumes "reaches os net initialized (alone_with m sd k (if nl_has_disconnected l then l else nl_disconnected passive_app initialized held l)) st"
  shows "reaches os net initialized (alone_with m sd (TestDisconnected held # k) l) st"
proof (cases "nl_has_disconnected l")
  case True
  then show ?thesis using assms by (intro reaches_run) simp
next
  case False
  let ?l = "l\<lparr>nl_has_disconnected := True\<rparr>"
  let ?l' = "if nl_socket_type l = Connection then ?l\<lparr>nl_log := nl_log l @ [Disconnect held]\<rparr> else ?l"
  have "reaches os net initialized (alone_with m sd ((if initialized then [UnregisterSelf] else []) @ k) ?l') st"
    using assms False by (auto simp: nl_disconnected_def Let_def intro!: reaches_run)
  then have "reaches os net initialized (alone_with m sd ((if nl_socket_type l = Connection then [OnDisconnect held] else []) @
      (if initialized then [UnregisterSelf] else []) @ k) ?l) st"
    by (cases "nl_socket_type l = Connection") (simp_all add: reaches_run calls_code_def)
  then have "reaches os net initialized (alone_with m sd (MarkDisconnected held # k) l) st" by (intro reaches_run) simp
  then show ?thesis using False by (intro reaches_run) simp
qed

lemma reaches_close:
  assumes "nl_close_socket_internal os passive_app initialized l = (Inr (), l')" and "reaches os net initialized (alone_with False sd k l') st"
  shows "reaches os net initialized (alone_with True sd (CloseInternal # k) l) st"
proof (cases "nl_is_valid l")
  case True
  then obtain s where s: "nl_socket l = Some s" "tcp_is_valid s" by (auto simp: nl_is_valid_def split: option.splits)
  obtain r s' where c: "tcp_close os False s = (r, s')" by force
  then obtain b where b: "r = Inr b" using assms(1) s by (cases r) (auto simp: nl_close_socket_internal_def)
  show ?thesis
    by (rule reaches_run)
      (use assms s c b in \<open>auto simp: nl_close_socket_internal_def intro!: reaches_lock(2) reaches_disconnected split: if_splits\<close>)
next
  case False
  then have "listener_instr os net initialized (\<lambda>_. []) CloseInternal l = Some ([TestDisconnected True, UnlockMain], l)"
      "l' = (if nl_has_disconnected l then l else nl_disconnected passive_app initialized True l)"
    using assms(1) by (auto simp: nl_close_socket_internal_def nl_is_valid_def split: option.splits)
  then show ?thesis
    using assms(2) by (intro reaches_run) (auto intro!: reaches_disconnected reaches_lock(2))
qed

lemma reaches_set_mode:
  "reaches os net initialized (alone_with m sd k (nl_set_mode md l)) st \<Longrightarrow> reaches os net initialized (alone_with m sd (SetMode md # k) l) st"
  by (rule reaches_run, cases "md = nl_mode l") (auto simp: nl_set_mode_def intro!: reaches_run)

lemma reaches_valid:
  "reaches os net initialized (alone_with False sd (after_valid a (nl_is_valid l) @ k) l) st \<Longrightarrow>
   reaches os net initialized (alone_with False sd (LockMain # IsValid a # k) l) st"
  by (intro reaches_lock(1) reaches_run) (auto intro!: reaches_lock(2))

lemma reaches_write:
  assumes "nl_on_write_ready os (nl_close_socket os passive_app initialized) l = Some (Inr (), l')"
  shows "reaches os net initialized (alone_with False False (call_code CallWrite) l) (alone_with False False [] l')"
proof -
  obtain s r s' where s: "nl_socket l = Some s" "tcp_do_send os (tcp_close os) s = Some (r, s')"
    using assms by (auto simp: nl_on_write_ready_def split: option.splits bind_splits)
  let ?l = "l\<lparr>nl_socket := Some s'\<rparr>"
  have mode: "reaches os net initialized (alone_with False sd (WriteMode b # k) u) st"
    if "reaches os net initialized (alone_with False sd k (if \<not> b \<and> nl_is_valid u then nl_set_mode ReadOnly u else u)) st" for sd b k u st
    using that by (intro reaches_run) (auto intro!: reaches_valid reaches_set_mode split: if_splits)
  have "reaches os net initialized (alone_with False True [WriteSend] l) (alone_with False False [] l')"
  proof (cases r)
    case (Inr b)
    then have "l' = (if \<not> b \<and> nl_is_valid ?l then nl_set_mode ReadOnly ?l else ?l)"
      using assms s by (simp add: nl_on_write_ready_def Let_def)
    then have "reaches os net initialized (alone_with False True [WriteMode b, UnlockSend] ?l) (alone_with False False [] l')"
      by (intro mode reaches_lock(4)) simp
    then show ?thesis using s Inr by (intro reaches_run) simp
  next
    case (Inl e)
    then obtain msg u where e: "e = SocketError msg" "nl_close_socket os passive_app initialized ?l = (Inr (), u)"
        "l' = (if nl_is_valid u then nl_set_mode ReadOnly u else u)"
      using assms s by (auto simp: nl_on_write_ready_def Let_def split: error.splits prod.splits sum.splits)
    have c: "nl_close_socket_internal os passive_app initialized ?l = (Inr (), u)" using e(2) by (simp add: nl_close_socket_def)
    have "reaches os net initialized (alone_with False False [WriteMode False] u) (alone_with False False [] l')"
      using e(3) by (intro mode) simp
    then have "reaches os net initialized (alone_with False True [UnlockSend, LockMain, CloseInternal, WriteMode False] ?l) (alone_with False False [] l')"
      by (intro reaches_lock(1,4) reaches_close [OF c])
    then show ?thesis using s Inl e(1) by (intro reaches_run) (simp add: close_socket_code_def)
  qed
  then show ?thesis by (auto intro: reaches_lock(3))
qed

lemma reaches_send_mode:
  assumes "if nl_is_valid l then (Inr (), l') = (Inr (), nl_set_mode (if b then ReadWrite else ReadOnly) l)
    else nl_close_socket os passive_app initialized l = (Inr (), l')"
  shows "reaches os net initialized (alone_with False True [SendMode b, UnlockSend] l) (alone_with False False [] l')"
proof -
  have "reaches os net initialized (alone_with False True (after_valid (AfterSend b) (nl_is_valid l) @ [UnlockSend]) l) (alone_with False False [] l')"
  proof (cases "nl_is_valid l")
    case True
    then show ?thesis using assms by (auto intro!: reaches_set_mode reaches_lock(4))
  next
    case False
    then have c: "nl_close_socket_internal os passive_app initialized l = (Inr (), l')" using assms by (simp add: nl_close_socket_def)
    show ?thesis using False by (simp add: close_socket_code_def) (intro reaches_lock(1) reaches_close [OF c] reaches_lock(4) reaches_refl)
  qed
  then show ?thesis by (intro reaches_run) (simp add: reaches_valid)
qed

text \<open>A thread that is alone and has to wait for the queue waits forever.\<close>

definition wait_alone :: "tcp_socket \<Rightarrow> tcp_socket option" where
  "wait_alone s = (if tcp_send_queue_waits s then None else Some s)"

lemma reaches_send_loop:
  assumes "nl_send_loop (\<lambda>n. tcp_send os data n async) wait_alone (nl_close_socket os passive_app initialized) len blocking l = Some (Inr b, u)"
    and "reaches os net initialized (alone_with False True [SendMode b, UnlockSend] u) st"
  shows "reaches os net initialized (alone_with False True [SendTry data len blocking async] l) st"
proof -
  let ?P = "\<lambda>sock_send wait (cl :: net_listener nl_closer) len blocking l (y :: (net_listener, bool) outcome). sock_send = (\<lambda>n. tcp_send os data n async) \<longrightarrow> wait = wait_alone \<longrightarrow>
    cl = nl_close_socket os passive_app initialized \<longrightarrow> y = (Inr b, u) \<longrightarrow>
    reaches os net initialized (alone_with False True [SendTry data len blocking async] l) st"
  have "?P (\<lambda>n. tcp_send os data n async) wait_alone (nl_close_socket os passive_app initialized) len blocking l (Inr b, u)"
  proof (rule nl_send_loop.raw_induct [of ?P, OF _ assms(1)], intro impI)
    fix loop sock_send wait and cl :: "net_listener nl_closer" and len blocking l y
    assume IH: "\<And>sock_send wait cl len blocking l y. loop sock_send wait cl len blocking l = Some y \<Longrightarrow> ?P sock_send wait cl len blocking l y"
      and body: "(case nl_socket l of None \<Rightarrow> Some (Inl MemoryFault, l)
        | Some s \<Rightarrow> Option.bind (sock_send (ucast len) s) (\<lambda>(r, s). let l = l\<lparr>nl_socket := Some s\<rparr> in
          case r of Inl e \<Rightarrow> (case e of
               SocketError msg \<Rightarrow> Some (case cl l of (Inl e, l) \<Rightarrow> (Inl e, l) | (Inr _, l) \<Rightarrow> (Inr False, l))
             | SendQueueFull \<Rightarrow> if blocking then Option.bind (wait s) (\<lambda>s. loop sock_send wait cl len blocking (l\<lparr>nl_socket := Some s\<rparr>))
                 else Some (case cl l of (Inl e, l) \<Rightarrow> (Inl e, l) | (Inr _, l) \<Rightarrow> (Inr False, l))
             | _ \<Rightarrow> Some (Inl e, l))
          | Inr has_more \<Rightarrow> Some (Inr has_more, l))) = Some y"
      and eqs: "sock_send = (\<lambda>n. tcp_send os data n async)" "wait = wait_alone" "cl = nl_close_socket os passive_app initialized" "y = (Inr b, u)"
    obtain s r s' where s: "nl_socket l = Some s" "tcp_send os data (ucast len) async s = Some (r, s')"
      using body eqs by (auto split: option.splits bind_splits)
    let ?l = "l\<lparr>nl_socket := Some s'\<rparr>"
    have closed: "reaches os net initialized (alone_with False True (close_socket_code @ [SendMode False, UnlockSend]) ?l) st"
      if "nl_close_socket os passive_app initialized ?l = (Inr (), u)" "\<not> b"
      using that assms(2) by (auto simp: close_socket_code_def nl_close_socket_def intro!: reaches_lock(1) reaches_close)
    consider (more) "r = Inr b" "u = ?l" | (close) e where "r = Inl e" "(\<exists>msg. e = SocketError msg) \<or> e = SendQueueFull \<and> \<not> blocking"
        "nl_close_socket os passive_app initialized ?l = (Inr (), u)" "\<not> b"
      | (wait) "r = Inl SendQueueFull" "blocking" "\<not> tcp_send_queue_waits s'" "loop sock_send wait cl len blocking ?l = Some y"
      using body s eqs by (auto simp: wait_alone_def Let_def split: sum.splits error.splits if_splits prod.splits)
    then show "reaches os net initialized (alone_with False True [SendTry data len blocking async] l) st"
    proof cases
      case more
      then show ?thesis using s assms(2) by (intro reaches_run) simp
    next
      case close
      then show ?thesis using s closed by (intro reaches_run) auto
    next
      case wait
      have "reaches os net initialized (alone_with False True [SendTry data len blocking async] ?l) st"
        using IH [OF wait(4)] eqs by simp
      then have "reaches os net initialized (alone_with False False [WaitEmpty, LockSend, SendTry data len blocking async] ?l) st"
        using wait(3) by (intro reaches_run) (simp add: reaches_lock(3))
      then show ?thesis using s wait(1,2) by (intro reaches_run) (simp add: reaches_lock(4))
    qed
  qed
  then show ?thesis by simp
qed

lemma reaches_send:
  assumes "nl_send os wait_alone passive_app initialized data len blocking async l = Some (Inr (), l')"
  shows "reaches os net initialized (alone_with False False (call_code (CallSend data len blocking async)) l) (alone_with False False [] l')"
proof -
  obtain b u where u: "nl_send_loop (\<lambda>n. tcp_send os data n async) wait_alone (nl_close_socket os passive_app initialized) len blocking l = Some (Inr b, u)"
      "if nl_is_valid u then (Inr (), l') = (Inr (), nl_set_mode (if b then ReadWrite else ReadOnly) u)
       else nl_close_socket os passive_app initialized u = (Inr (), l')"
    using assms by (auto simp: nl_send_def nl_send_with_def split: bind_splits sum.splits if_splits)
  show ?thesis using reaches_send_loop [OF u(1) reaches_send_mode [OF u(2)]] by (auto intro: reaches_lock(3))
qed

lemma reaches_read_loop:
  assumes "nl_read_loop os passive_app l = Some (Inr (), u)" and "reaches os net initialized (alone_with True False [ReadEnd] u) st"
  shows "reaches os net initialized (alone_with True False [ReadNext] l) st"
proof -
  let ?P = "\<lambda>os' (app :: app) l (y :: (net_listener, unit) outcome). os' = os \<longrightarrow> app = passive_app \<longrightarrow> y = (Inr (), u) \<longrightarrow>
    reaches os net initialized (alone_with True False [ReadNext] l) st"
  have "?P os passive_app l (Inr (), u)"
  proof (rule nl_read_loop.raw_induct [of ?P, OF _ assms(1)], intro impI)
    fix loop os' and app :: app and l y
    assume IH: "\<And>os' app l y. loop os' app l = Some y \<Longrightarrow> ?P os' app l y"
      and body: "(case nl_socket l of None \<Rightarrow> Some (Inr (), l)
        | Some s \<Rightarrow> Option.bind (tcp_receive os' s) (\<lambda>(r, s). let l = l\<lparr>nl_socket := Some s\<rparr> in
          case r of Inl e \<Rightarrow> Some (case e of SocketError msg \<Rightarrow> (Inr (), l) | _ \<Rightarrow> (Inl e, l))
          | Inr None \<Rightarrow> Some (Inr (), l)
          | Inr (Some message) \<Rightarrow> loop os' app (nl_callback app (NetworkMessage message) l))) = Some y"
      and eqs: "os' = os" "app = passive_app" "y = (Inr (), u)"
    show "reaches os net initialized (alone_with True False [ReadNext] l) st"
    proof (cases "nl_socket l")
      case None
      then show ?thesis using body eqs assms(2) by (intro reaches_run) simp
    next
      case (Some s)
      then obtain r s' where r: "tcp_receive os s = Some (r, s')" using body eqs by (auto split: bind_splits)
      let ?l = "l\<lparr>nl_socket := Some s'\<rparr>"
      consider (stop) "r = Inr None \<or> (\<exists>msg. r = Inl (SocketError msg))" "u = ?l"
        | (msg) m where "r = Inr (Some m)" "loop os passive_app (nl_callback passive_app (NetworkMessage m) ?l) = Some y"
        using body eqs Some r by (auto simp: Let_def split: sum.splits error.splits option.splits)
      then show ?thesis
      proof cases
        case stop
        then show ?thesis using Some r assms(2) by (intro reaches_run) auto
      next
        case (msg m)
        have "reaches os net initialized (alone_with True False [ReadNext] (nl_callback passive_app (NetworkMessage m) ?l)) st"
          using IH [OF msg(2)] eqs by simp
        then have "reaches os net initialized (alone_with False False [OnMessage m, LockMain, ReadNext] ?l) st"
          by (intro reaches_run) (simp add: calls_code_def reaches_lock(1))
        then show ?thesis using Some r msg(1) by (intro reaches_run) (simp add: reaches_lock(2))
      qed
    qed
  qed
  then show ?thesis by simp
qed

lemma reaches_connections:
  "reaches os net initialized (alone_with False False (map OnNewConnection ss) l)
     (alone_with False False [] (fold (\<lambda>s. nl_callback passive_app (NewConnection s)) ss l))"
  by (induction ss arbitrary: l) (auto intro!: reaches_run simp: calls_code_def)

lemma reaches_read:
  assumes "nl_on_read_ready os net passive_app initialized l = Some (Inr (), l')"
  shows "reaches os net initialized (alone_with False False (call_code CallRead) l) (alone_with False False [] l')"
proof -
  have "reaches os net initialized (alone_with True False [ReadSwitch] l) (alone_with False False [] l')"
  proof (cases "nl_socket_type l")
    case Connection
    then obtain u where u: "nl_read_loop os passive_app l = Some (Inr (), u)"
        "(case nl_socket u of None \<Rightarrow> (Inr (), u) | Some s \<Rightarrow>
          if \<not> tcp_is_valid s then nl_close_socket_internal os passive_app initialized u else (Inr (), u)) = (Inr (), l')"
      using assms by (auto simp: nl_on_read_ready_def split: bind_splits sum.splits)
    have "reaches os net initialized (alone_with True False [ReadEnd] u) (alone_with False False [] l')"
      using u(2) by (intro reaches_run) (auto split: option.splits if_splits intro: reaches_lock(2) reaches_close)
    from reaches_read_loop [OF u(1) this] show ?thesis using Connection by (intro reaches_run) simp
  next
    case Acceptor
    then obtain s r s' where s: "nl_socket l = Some s" "tcp_accept os net s = Some (Inr r, s')"
        "l' = fold (\<lambda>s. nl_callback passive_app (NewConnection s)) r (l\<lparr>nl_socket := Some s'\<rparr>)"
      using assms by (auto simp: nl_on_read_ready_def Let_def split: option.splits bind_splits sum.splits)
    then show ?thesis using Acceptor reaches_connections by (intro reaches_run) (simp add: reaches_lock(2))
  qed (use assms in \<open>simp add: nl_on_read_ready_def\<close>)
  then show ?thesis by (auto intro: reaches_lock(1))
qed

text \<open>The sequential definition of a call.\<close>

fun call_alone :: "os \<Rightarrow> inet \<Rightarrow> bool \<Rightarrow> listener_call \<Rightarrow> net_listener \<Rightarrow> (net_listener, unit) outcome option" where
  "call_alone os net initialized CallRead l = nl_on_read_ready os net passive_app initialized l"
| "call_alone os net initialized CallWrite l = nl_on_write_ready os (nl_close_socket os passive_app initialized) l"
| "call_alone os net initialized (CallSend data len blocking async) l =
     nl_send os wait_alone passive_app initialized data len blocking async l"
| "call_alone os net initialized CallClose l = Some (nl_close_socket os passive_app initialized l)"
| "call_alone os net initialized CallIsValid l = Some (Inr (), l)"
| "call_alone os net initialized (CallReRegister first_time) l = Some (nl_re_register first_time l)"

section \<open>Properties\<close>

text \<open>
  C21. A thread that calls a method of the listener while no other thread is there reaches exactly the state that the
  sequential definition of the method gives, and holds no mutex afterwards.
\<close>

theorem nl_solo_equivalent:
  assumes "call_alone os net initialized c l = Some (Inr (), l')"
  shows "\<exists>is. schedule (nt_step os net initialized (\<lambda>_. [])) is (nt_init l [[c]]) = Some (nt_init l' [[]])"
proof -
  have "reaches os net initialized (alone_with False False (call_code c) l) (alone_with False False [] l')"
  proof (cases c)
    case CallClose
    then have "nl_close_socket_internal os passive_app initialized l = (Inr (), l')" using assms by (simp add: nl_close_socket_def)
    from reaches_close [OF this reaches_refl] show ?thesis using CallClose by (auto simp: close_socket_code_def intro: reaches_lock(1))
  next
    case CallIsValid
    then show ?thesis using assms by (auto intro: reaches_valid)
  next
    case (CallReRegister b)
    then have "reaches os net initialized (alone_with False True [ReRegister b, UnlockSend] l) (alone_with False False [] l')"
      using assms by (intro reaches_run) (simp add: reaches_lock(4))
    then show ?thesis using CallReRegister by (auto intro: reaches_lock(3))
  qed (use assms reaches_read reaches_write reaches_send in auto)
  then show ?thesis by (simp add: reaches_def alone_with_def nt_init_def calls_code_def)
qed

theorem nl_solo_equivalent_witness:
  "\<exists>is l'. schedule (nt_step (feeding_os []) loopback_inet True (\<lambda>_. [])) is
      (nt_init connected_listener [[CallSend [7, 8] 2 False False]]) = Some (nt_init l' [[]])"
proof -
  obtain l' where "nl_send (feeding_os []) wait_alone passive_app True [7, 8] 2 False False connected_listener = Some (Inr (), l')"
    using nl_send_sends [OF connected_listener_run feeding_posix feeding_shutdown_ok,
        where len = 2 and data = "[7, 8]" and blocking = False and wait = wait_alone and async = False]
    by auto
  then show ?thesis
    using nl_solo_equivalent [of "feeding_os []" loopback_inet True "CallSend [7, 8] 2 False False" connected_listener l'] by auto
qed

end
