(* ===== verification/Tls_Threads.thy ===== *)
theory Tls_Threads
  imports Tls_Receive Threads "HOL-Library.Multiset"
begin

text \<open>
  The threads of a \<open>TlsSocket\<close> (\<open>src/network/TlsSocket.cpp\<close>, \<open>src/network/TlsContext.cpp\<close>), interleaved, with the mutex and the condition
  variable of \<open>TlsContext\<close>: threads that send, threads that wait for the handshake, and the callbacks of the channel that take
  the mutex.  A call of the channel is one step.  \<open>received_data\<close> of the channel is called without the mutex, and a
  channel must not be used by two threads at once; it is not among the calls here, and \<open>close\<close> only in the exception handler of \<open>send\<close>.
\<close>

section \<open>Threads\<close>

datatype tls_location =
    SendEnter "byte list" u32 bool    \<comment> \<open>\<open>TlsSocket::send\<close>\<close>
  | SendLock "byte list" u32 bool     \<comment> \<open>\<open>TlsContext::send\<close>, before the lock\<close>
  | SendHeader "byte list" u32 bool   \<comment> \<open>with the mutex held\<close>
  | SendPayload "byte list" u32 bool
  | SendUnlock "byte list" u32 bool
  | SendFailed                        \<comment> \<open>in the handler of \<open>TlsSocket::send\<close>\<close>
  | SendRest "byte list" u32 bool     \<comment> \<open>after the context has sent\<close>
  | WaitLock                          \<comment> \<open>\<open>wait_connected\<close>, before the lock\<close>
  | WaitTest                          \<comment> \<open>with the mutex held\<close>
  | WaitSleep                         \<comment> \<open>in the wait of the condition variable\<close>
  | SessionLock                       \<comment> \<open>\<open>tls_session_established\<close>\<close>
  | SessionSet
  | RecordLock "byte list"            \<comment> \<open>\<open>tls_record_received\<close>\<close>
  | RecordTake "byte list"
  | Sent "byte list" "error + bool"   \<comment> \<open>\<open>send\<close> has passed on the message and returned\<close>
  | Returned "error + bool"

record 'c tls_threads =
  xt_socket :: "'c tls_socket"
  xt_mutex :: "nat option"
  xt_locations :: "tls_location list"

definition xt_init :: "'c tls_socket \<Rightarrow> tls_location list \<Rightarrow> 'c tls_threads" where
  "xt_init s ls = \<lparr>xt_socket = s, xt_mutex = None, xt_locations = ls\<rparr>"

text \<open>\<open>notify_all\<close>: a woken thread takes the mutex again and tests its condition.\<close>

definition xt_wake :: "tls_location list \<Rightarrow> tls_location list" where
  "xt_wake ls = map (\<lambda>l. if l = WaitSleep then WaitLock else l) ls"

text \<open>
  One step of a location: the next location, the socket, whether it releases the mutex and whether it notifies.
\<close>

fun failed_send :: "error \<Rightarrow> tls_location" where
  "failed_send MemoryFault = Returned (Inl MemoryFault)"
| "failed_send (Fatal msg) = Returned (Inl (Fatal msg))"
| "failed_send e = SendFailed"

fun tls_location_step ::
    "'c botan \<Rightarrow> os \<Rightarrow> tls_location \<Rightarrow> 'c tls_socket \<Rightarrow> (tls_location \<times> 'c tls_socket \<times> bool \<times> bool) option" where
  "tls_location_step ch os (SendEnter data len async) s =
     Some (if tls_state s \<noteq> TlsConnected then Returned (Inr False) else SendLock data len async, s, False, False)"
| "tls_location_step ch os (SendHeader data len async) s =
     Option.bind (tls_channel_send ch os (le_bytes (len + 4)) s) (\<lambda>(r, s).
       Some (case r of
         Inl e \<Rightarrow> (failed_send e, s, True, False)
       | Inr _ \<Rightarrow> (SendPayload data len async, s, False, False)))"
| "tls_location_step ch os (SendPayload data len async) s =
     (case mem_read data 0 (unat len) of
        None \<Rightarrow> Some (Returned (Inl MemoryFault), s, True, False)
      | Some bs \<Rightarrow>
        Option.bind (tls_channel_send ch os bs s) (\<lambda>(r, s).
          Some (case r of
            Inl e \<Rightarrow> (failed_send e, s, True, False)
          | Inr _ \<Rightarrow> (SendUnlock data len async, s, False, False))))"
| "tls_location_step ch os (SendUnlock data len async) s = Some (SendRest data len async, s, True, False)"
| "tls_location_step ch os SendFailed s =
     Option.bind (tls_close ch os False s) (\<lambda>(r, s). Some (Returned (map_sum id (\<lambda>_. False) r), s, False, False))"
| "tls_location_step ch os (SendRest data len async) s =
     (if async then Some (Sent (take (unat len) data) (Inr True), s, False, False)
      else Option.bind (tls_do_send os s) (\<lambda>(r, s). Some (Sent (take (unat len) data) r, s, False, False)))"
| "tls_location_step ch os WaitTest s =
     Some (if tls_is_connected s then Returned (Inr True) else WaitSleep, s, True, False)"
| "tls_location_step ch os SessionSet s = Some (Returned (Inr False), tls_session_established s, True, True)"
| "tls_location_step ch os (RecordTake data) s =
     (case tls_record_received data s of (r, s) \<Rightarrow> Some (Returned (map_sum id (\<lambda>_. True) r), s, True, False))"
| "tls_location_step ch os l s = None"

text \<open>Where a thread is when it has the mutex.\<close>

fun after_lock :: "tls_location \<Rightarrow> tls_location option" where
  "after_lock (SendLock data len async) = Some (SendHeader data len async)"
| "after_lock WaitLock = Some WaitTest"
| "after_lock SessionLock = Some SessionSet"
| "after_lock (RecordLock data) = Some (RecordTake data)"
| "after_lock l = None"

definition xt_step :: "'c botan \<Rightarrow> os \<Rightarrow> nat \<Rightarrow> 'c tls_threads \<Rightarrow> 'c tls_threads option" where
  "xt_step ch os i st =
     (if i < length (xt_locations st) then
        case after_lock (xt_locations st ! i) of
          Some l \<Rightarrow>
            if xt_mutex st = None then Some (st\<lparr>xt_mutex := Some i, xt_locations := (xt_locations st)[i := l]\<rparr>) else None
        | None \<Rightarrow>
            (case tls_location_step ch os (xt_locations st ! i) (xt_socket st) of
               None \<Rightarrow> None
             | Some (l, s, release, notify) \<Rightarrow>
               let ls = (xt_locations st)[i := l]
               in Some (st\<lparr>xt_socket := s, xt_mutex := if release then None else xt_mutex st,
                    xt_locations := if notify then xt_wake ls else ls\<rparr>))
      else None)"

section \<open>The mutex\<close>

fun has_mutex :: "tls_location \<Rightarrow> bool" where
  "has_mutex (SendHeader data len async) \<longleftrightarrow> True"
| "has_mutex (SendPayload data len async) \<longleftrightarrow> True"
| "has_mutex (SendUnlock data len async) \<longleftrightarrow> True"
| "has_mutex WaitTest \<longleftrightarrow> True"
| "has_mutex SessionSet \<longleftrightarrow> True"
| "has_mutex (RecordTake data) \<longleftrightarrow> True"
| "has_mutex l \<longleftrightarrow> False"

definition xt_owned :: "'c tls_threads \<Rightarrow> bool" where
  "xt_owned st \<longleftrightarrow> (\<forall>i < length (xt_locations st). has_mutex (xt_locations st ! i) \<longleftrightarrow> xt_mutex st = Some i) \<and>
     (\<forall>i. xt_mutex st = Some i \<longrightarrow> i < length (xt_locations st))"

lemma after_lock_mutex: "after_lock l = Some l' \<Longrightarrow> \<not> has_mutex l \<and> has_mutex l'"
  by (cases l) auto

lemma location_step_mutex:
  assumes "tls_location_step ch os l s = Some (l', s', release, notify)" and "after_lock l = None"
  shows "has_mutex l' = (has_mutex l \<and> \<not> release)" "release \<Longrightarrow> has_mutex l" "notify \<longleftrightarrow> l = SessionSet"
proof -
  have f: "\<not> has_mutex (failed_send e)" for e by (cases e) simp_all
  show "has_mutex l' = (has_mutex l \<and> \<not> release)" "release \<Longrightarrow> has_mutex l" "notify \<longleftrightarrow> l = SessionSet"
    using assms f by (cases l; auto split: option.splits bind_splits sum.splits if_splits prod.splits)+
qed

lemma has_mutex_wake [simp]: "i < length ls \<Longrightarrow> has_mutex (xt_wake ls ! i) = has_mutex (ls ! i)"
  by (simp add: xt_wake_def)

lemma length_xt_wake [simp]: "length (xt_wake ls) = length ls"
  by (simp add: xt_wake_def)

lemma xt_step_cases:
  assumes "xt_step ch os i st = Some st'"
  obtains (lock) l where "i < length (xt_locations st)" "after_lock (xt_locations st ! i) = Some l" "xt_mutex st = None"
      "st' = st\<lparr>xt_mutex := Some i, xt_locations := (xt_locations st)[i := l]\<rparr>"
    | (run) l s release notify where "i < length (xt_locations st)" "after_lock (xt_locations st ! i) = None"
      "tls_location_step ch os (xt_locations st ! i) (xt_socket st) = Some (l, s, release, notify)"
      "xt_socket st' = s" "xt_mutex st' = (if release then None else xt_mutex st)"
      "xt_locations st' = (if notify then xt_wake ((xt_locations st)[i := l]) else (xt_locations st)[i := l])"
  using assms by (auto simp: xt_step_def Let_def split: if_splits option.splits prod.splits intro: lock run)

lemma xt_owned_step:
  assumes "xt_owned st" and "xt_step ch os i st = Some st'"
  shows "xt_owned st'"
  using assms(2)
proof (cases rule: xt_step_cases)
  case (lock l)
  then show ?thesis using assms(1) after_lock_mutex [of "xt_locations st ! i" l] by (auto simp: xt_owned_def nth_list_update)
next
  case (run l s release notify)
  note m = location_step_mutex [OF run(3,2)]
  have own: "has_mutex (xt_locations st ! j) \<longleftrightarrow> xt_mutex st = Some j" if "j < length (xt_locations st)" for j
    using assms(1) that by (simp add: xt_owned_def)
  have "has_mutex (xt_locations st' ! j) \<longleftrightarrow> xt_mutex st' = Some j" if "j < length (xt_locations st)" for j
    using that run(1,5,6) m(1,2) own [of j] own [of i] by (auto simp: nth_list_update)
  then show ?thesis using assms(1) run(5,6) by (auto simp: xt_owned_def split: if_splits)
qed

section \<open>No lost wakeup, no deadlock\<close>

fun tls_entry :: "tls_location \<Rightarrow> bool" where
  "tls_entry (SendEnter data len async) \<longleftrightarrow> unat len \<le> length data \<and> valid_payload (take (unat len) data)"
| "tls_entry l \<longleftrightarrow> l \<in> {WaitLock, SessionLock} \<or> (\<exists>data. l = RecordLock data)"

fun send_ok :: "tls_location \<Rightarrow> bool" where
  "send_ok (SendEnter data len async) \<longleftrightarrow> unat len \<le> length data \<and> valid_payload (take (unat len) data)"
| "send_ok (SendLock data len async) \<longleftrightarrow> unat len \<le> length data \<and> valid_payload (take (unat len) data)"
| "send_ok (SendHeader data len async) \<longleftrightarrow> unat len \<le> length data \<and> valid_payload (take (unat len) data)"
| "send_ok (SendPayload data len async) \<longleftrightarrow> unat len \<le> length data \<and> valid_payload (take (unat len) data)"
| "send_ok l \<longleftrightarrow> True"

lemma failed_send_ok [simp]: "send_ok (failed_send e)" "failed_send e \<noteq> WaitSleep"
  by (cases e; simp)+

lemma tls_channel_send_idle:
  assumes "write_bounded os" and "write_live os k" and "channel_ok ch" and "tls_channel_send ch os bs s = Some (r, s')"
  shows "idle_queue s \<longrightarrow> idle_queue s'" and "tls_is_connected s' \<longrightarrow> tls_is_connected s"
  using tls_channel_send_total [OF assms(1-3), of bs s] assms(4)
  by (auto simp: gone_def idle_queue_def tls_is_connected_def)

lemma tls_location_step_frame:
  assumes os: "write_bounded os" "write_live os k" "channel_ok ch"
    and "tls_location_step ch os l s = Some (l', s', release, notify)" and "idle_queue s" and "send_ok l"
  shows "idle_queue s'" and "send_ok l'" and "tls_is_connected s' \<Longrightarrow> l \<noteq> SessionSet \<Longrightarrow> tls_is_connected s"
    and "l' = WaitSleep \<Longrightarrow> l = WaitTest \<and> \<not> tls_is_connected s'"
proof -
  note send = tls_channel_send_idle [OF os]
  have close: "idle_queue u \<and> \<not> tls_is_connected u" if "tls_close ch os False s = Some (r, u)" for r u
    using tls_close_total [OF os, of False s] that assms(5) by (auto simp: gone_def tls_is_connected_def)
  have rest: "u = s" if "tls_do_send os s = Some (r, u)" for r u using that tls_do_send_idle [OF assms(5), of os] by simp
  have "idle_queue s' \<and> send_ok l' \<and> (tls_is_connected s' \<longrightarrow> l \<noteq> SessionSet \<longrightarrow> tls_is_connected s) \<and>
      (l' = WaitSleep \<longrightarrow> l = WaitTest \<and> \<not> tls_is_connected s')"
  proof (cases l)
    case (SendHeader data len async)
    then obtain r where r: "tls_channel_send ch os (le_bytes (len + 4)) s = Some (r, s')" "l' = (case r of Inl e \<Rightarrow> failed_send e | Inr _ \<Rightarrow> SendPayload data len async)"
      using assms(4) by (auto split: bind_splits sum.splits)
    then show ?thesis using send [OF r(1)] assms(5,6) SendHeader by (auto split: sum.splits)
  next
    case (SendPayload data len async)
    then have "mem_read data 0 (unat len) = Some (take (unat len) data)" using assms(6) by (simp add: mem_read_def)
    then obtain r where r: "tls_channel_send ch os (take (unat len) data) s = Some (r, s')" "l' = (case r of Inl e \<Rightarrow> failed_send e | Inr _ \<Rightarrow> SendUnlock data len async)"
      using assms(4) SendPayload by (auto split: bind_splits sum.splits)
    then show ?thesis using send [OF r(1)] assms(5,6) SendPayload by (auto split: sum.splits)
  next
    case SendFailed
    then show ?thesis using assms(4,5) close by (auto split: bind_splits)
  next
    case (SendRest data len async)
    then show ?thesis using assms(4,5) rest by (auto split: bind_splits if_splits)
  next
    case (RecordTake data)
    then show ?thesis using assms(4,5) by (auto simp: tls_record_received_def idle_queue_def tls_is_connected_def split: prod.splits)
  qed (use assms(4-6) in \<open>auto simp: tls_session_established_def idle_queue_def split: if_splits\<close>)
  then show "idle_queue s'" "send_ok l'" "tls_is_connected s' \<Longrightarrow> l \<noteq> SessionSet \<Longrightarrow> tls_is_connected s"
    "l' = WaitSleep \<Longrightarrow> l = WaitTest \<and> \<not> tls_is_connected s'" by blast+
qed

text \<open>A thread sleeps only while the socket is not connected.\<close>

definition xt_inv :: "'c tls_threads \<Rightarrow> bool" where
  "xt_inv st \<longleftrightarrow> xt_owned st \<and> idle_queue (xt_socket st) \<and> list_all send_ok (xt_locations st) \<and>
     (WaitSleep \<in> set (xt_locations st) \<longrightarrow> \<not> tls_is_connected (xt_socket st))"

definition xt_kernel :: "'c botan \<Rightarrow> os \<Rightarrow> nat \<Rightarrow> bool" where
  "xt_kernel ch os k \<longleftrightarrow> write_bounded os \<and> write_live os k \<and> channel_ok ch"

lemma list_all_update: "list_all P xs \<Longrightarrow> P x \<Longrightarrow> list_all P (xs[i := x])"
  by (cases "i < length xs") (auto simp: list_all_length nth_list_update)

lemma wake_facts: "list_all send_ok ls \<Longrightarrow> list_all send_ok (xt_wake ls)" "WaitSleep \<notin> set (xt_wake ls)"
  by (auto simp: xt_wake_def list_all_iff)

lemma after_lock_send_ok: "after_lock l = Some l' \<Longrightarrow> send_ok l \<Longrightarrow> send_ok l' \<and> l' \<noteq> WaitSleep"
  by (cases l) auto

lemma xt_inv_step:
  assumes k: "xt_kernel ch os k" and inv: "xt_inv st" and "xt_step ch os i st = Some st'"
  shows "xt_inv st'"
proof -
  have own: "xt_owned st'" using xt_owned_step [OF _ assms(3)] inv by (simp add: xt_inv_def)
  have li: "send_ok (xt_locations st ! i)" if "i < length (xt_locations st)"
    using inv that by (simp add: xt_inv_def list_all_length)
  have old: "idle_queue (xt_socket st)" "list_all send_ok (xt_locations st)"
      "WaitSleep \<in> set (xt_locations st) \<Longrightarrow> \<not> tls_is_connected (xt_socket st)"
    using inv by (simp_all add: xt_inv_def)
  from assms(3) show ?thesis
  proof (cases rule: xt_step_cases)
    case (lock l)
    note l = after_lock_send_ok [OF lock(2) li [OF lock(1)]]
    have "WaitSleep \<in> set (xt_locations st)" if "WaitSleep \<in> set ((xt_locations st)[i := l])"
      using in_update(3) [OF lock(1) that] l by blast
    then show ?thesis using own old list_all_update [OF old(2), of l i] l by (simp add: xt_inv_def lock(4))
  next
    case (run l s release notify)
    have os: "write_bounded os" "write_live os k" "channel_ok ch" using k by (simp_all add: xt_kernel_def)
    note f = tls_location_step_frame [OF os run(3) old(1) li [OF run(1)]]
    note ok = list_all_update [OF old(2) f(2), of i]
    show ?thesis
    proof (cases notify)
      case True
      then show ?thesis using own f(1) run(4,6) wake_facts [of "(xt_locations st)[i := l]"] ok by (simp add: xt_inv_def)
    next
      case False
      then have ns: "xt_locations st ! i \<noteq> SessionSet" using location_step_mutex(3) [OF run(3,2)] by simp
      have "\<not> tls_is_connected s" if "WaitSleep \<in> set ((xt_locations st)[i := l])"
        using in_update(3) [OF run(1) that] f(3,4) ns old(3) by blast
      then show ?thesis using own f(1) run(4,6) ok False by (simp add: xt_inv_def)
    qed
  qed
qed

interpretation xts: thread_system "xt_step ch os" "\<lambda>st. xt_kernel ch os k \<and> xt_inv st" for ch os k
  by unfold_locales (use xt_inv_step in blast)

lemma xt_inv_init:
  assumes "idle_queue s" and "list_all tls_entry ls"
  shows "xt_inv (xt_init s ls)"
proof -
  have e: "send_ok l \<and> \<not> has_mutex l \<and> l \<noteq> WaitSleep" if "tls_entry l" for l using that by (cases l) auto
  show ?thesis using assms e by (auto simp: xt_inv_def xt_init_def xt_owned_def list_all_iff)
qed

fun tls_returned :: "tls_location \<Rightarrow> bool" where
  "tls_returned (Sent m r) \<longleftrightarrow> True"
| "tls_returned (Returned r) \<longleftrightarrow> True"
| "tls_returned l \<longleftrightarrow> False"

lemma tls_location_step_total:
  assumes os: "write_bounded os" "write_live os k" "channel_ok ch" and "idle_queue s" and "send_ok l"
    and "tls_location_step ch os l s = None" and "after_lock l = None"
  shows "tls_returned l \<or> l = WaitSleep"
proof -
  have send: "tls_channel_send ch os bs s \<noteq> None" for bs using tls_channel_send_total [OF os, of bs s] by auto
  have close: "tls_close ch os False s \<noteq> None" by (rule tls_close_total [OF os, of False s]) simp
  have rest: "tls_do_send os s \<noteq> None" using tls_do_send_idle [OF assms(4), of os] by simp
  show ?thesis
    using assms(5-7) by (cases l) (auto simp: mem_read_def send close rest split: if_splits prod.splits bind_splits)
qed

section \<open>Whole messages\<close>

text \<open>The message that a thread has passed on, and the header that it has passed on without the payload.\<close>

fun passed :: "tls_location \<Rightarrow> byte list list" where
  "passed (SendUnlock data len async) = [take (unat len) data]"
| "passed (SendRest data len async) = [take (unat len) data]"
| "passed (Sent m r) = [m]"
| "passed l = []"

fun half_passed :: "tls_location \<Rightarrow> byte list list" where
  "half_passed (SendPayload data len async) = [le_bytes (len + 4)]"
| "half_passed l = []"

definition xt_passed :: "'c tls_threads \<Rightarrow> byte list multiset" where
  "xt_passed st = mset (concat (map passed (xt_locations st)))"

definition xt_half :: "'c tls_threads \<Rightarrow> byte list list" where
  "xt_half st = (case xt_mutex st of None \<Rightarrow> [] | Some i \<Rightarrow> half_passed (xt_locations st ! i))"

text \<open>While the socket is connected, the channel has been given whole messages, and at most one header more.\<close>

definition xt_wire :: "'c botan \<Rightarrow> 'c \<Rightarrow> history \<Rightarrow> 'c tls_threads \<Rightarrow> bool" where
  "xt_wire ch tx h0 st \<longleftrightarrow> (\<forall>l \<in> set (xt_locations st). l \<noteq> SessionLock \<and> l \<noteq> SessionSet \<and> list_all valid_payload (passed l)) \<and>
     (tls_is_connected (xt_socket st) \<longrightarrow>
       (\<exists>ms h c. trace (xt_socket st) = h0 @ h \<and> tls_channel (xt_socket st) = Some c \<and> mset ms = xt_passed st \<and>
         channel_sends ch tx (concat (map message_portions ms) @ xt_half st) = Some (c, bytes_sent h)))"

lemma passed_update:
  assumes "i < length ls"
  shows "mset (concat (map passed (ls[i := l]))) + mset (passed (ls ! i)) = mset (concat (map passed ls)) + mset (passed l)"
  using assms
proof (induction ls arbitrary: i)
  case (Cons a ls)
  then show ?case by (cases i) (auto simp: ac_simps)
qed simp

lemma channel_step:
  assumes os: "write_bounded os" "write_live os k" "channel_ok ch" and "tls_channel s = Some c" and "channel_sends ch c [bs] \<noteq> None"
    and "tls_channel_send ch os bs s = Some (r, s')" and "tls_is_connected s'"
  shows "r = Inr ()" and "\<exists>c' h. channel_sends ch c [bs] = Some (c', bytes_sent h) \<and> trace s' = trace s @ h \<and> tls_channel s' = Some c'"
proof -
  have "snd (bc_send ch c bs) \<noteq> None" using assms(5) by (auto split: prod.splits option.splits)
  then have "\<exists>c' ds h. bc_send ch c bs = (c', Some ds) \<and> r = Inr () \<and> s' = s\<lparr>tls_channel := Some c', trace := trace s @ h\<rparr> \<and> bytes_sent h = concat ds"
    using tls_channel_send_total [OF os, of bs s] assms(4,6,7) by (auto simp: gone_def tls_is_connected_def)
  then show "r = Inr ()" "\<exists>c' h. channel_sends ch c [bs] = Some (c', bytes_sent h) \<and> trace s' = trace s @ h \<and> tls_channel s' = Some c'"
    by auto
qed

text \<open>What a step of a thread adds to the wire, when the socket is connected afterwards: a header, a payload, or nothing.\<close>

lemma location_step_wire:
  assumes os: "write_bounded os" "write_live os k" "channel_ok ch"
    and step: "tls_location_step ch os l s = Some (l', s', release, notify)" and "l \<noteq> SessionSet"
    and "idle_queue s" and "send_ok l" and "tls_is_connected s'" and "tls_channel s = Some c"
    and "\<forall>bs. valid_payload bs \<longrightarrow> channel_sends ch c [bs] \<noteq> None"
  obtains (header) data len async c' h where "l = SendHeader data len async" "l' = SendPayload data len async" "\<not> release"
      "channel_sends ch c [le_bytes (len + 4)] = Some (c', bytes_sent h)" "trace s' = trace s @ h" "tls_channel s' = Some c'"
    | (payload) data len async c' h where "l = SendPayload data len async" "l' = SendUnlock data len async" "\<not> release"
      "channel_sends ch c [take (unat len) data] = Some (c', bytes_sent h)" "trace s' = trace s @ h" "tls_channel s' = Some c'"
    | (quiet) "passed l' = passed l" "half_passed l = []" "half_passed l' = []" "trace s' = trace s" "tls_channel s' = tls_channel s"
proof (cases l)
    case (SendHeader data len async)
    have v: "valid_payload (le_bytes (len + 4))" by (simp add: valid_payload_def le_bytes_def)
    obtain r where r: "tls_channel_send ch os (le_bytes (len + 4)) s = Some (r, s')"
        "(l', release) = (case r of Inl e \<Rightarrow> (failed_send e, True) | Inr _ \<Rightarrow> (SendPayload data len async, False))"
      using step SendHeader by (auto split: bind_splits sum.splits)
    from channel_step [OF os assms(9) assms(10) [rule_format, OF v] r(1) assms(8)] show thesis using r(2) SendHeader header by auto
  next
    case (SendPayload data len async)
    have v: "valid_payload (take (unat len) data)" "mem_read data 0 (unat len) = Some (take (unat len) data)"
      using assms(7) SendPayload by (simp_all add: mem_read_def)
    obtain r where r: "tls_channel_send ch os (take (unat len) data) s = Some (r, s')"
        "(l', release) = (case r of Inl e \<Rightarrow> (failed_send e, True) | Inr _ \<Rightarrow> (SendUnlock data len async, False))"
      using step SendPayload v(2) by (auto split: bind_splits sum.splits)
    from channel_step [OF os assms(9) assms(10) [rule_format, OF v(1)] r(1) assms(8)] show thesis using r(2) SendPayload payload by auto
  next
    case SendFailed
    have False by (rule tls_close_total [OF os, of False s]) (use step assms(8) SendFailed in \<open>auto simp: gone_def tls_is_connected_def\<close>)
    then show thesis ..
  next
    case (SendRest data len async)
    then have "s' = s" "passed l' = passed l" "half_passed l' = []" using step tls_do_send_idle [OF assms(6), of os] by (auto split: if_splits)
    then show thesis by (intro quiet) (simp_all add: SendRest)
  next
    case (RecordTake data)
    then have "trace s' = trace s" "tls_channel s' = tls_channel s" "passed l' = []" "half_passed l' = []"
      using step by (auto simp: tls_record_received_def split: prod.splits)
    then show thesis by (intro quiet) (simp_all add: RecordTake)
qed (use step assms(5) quiet in \<open>auto split: if_splits\<close>)

lemma half_no_mutex: "\<not> has_mutex l \<Longrightarrow> half_passed l = []"
  by (cases l) simp_all

lemma after_lock_passed: "after_lock l = Some l' \<Longrightarrow> passed l = [] \<and> passed l' = [] \<and> half_passed l' = [] \<and> (l' = SessionSet \<longleftrightarrow> l = SessionLock)"
  by (cases l) auto

lemma sends_more:
  assumes "faithful_channel ch in_step" and "in_step tx rx" and "list_all valid_payload (ps @ [bs])"
    and "channel_sends ch tx ps = Some (c, w)"
  shows "channel_sends ch c [bs] \<noteq> None"
proof -
  obtain y where "channel_sends ch tx (ps @ [bs]) = Some y" using assms(1-3) unfolding faithful_channel_def by blast
  then show ?thesis using assms(4) by (auto simp: channel_sends_append split: bind_splits)
qed

lemma location_step_session:
  assumes "tls_location_step ch os l s = Some (l', s', release, notify)"
  shows "l' \<noteq> SessionLock" and "l' \<noteq> SessionSet"
proof -
  have f: "failed_send e \<noteq> SessionLock \<and> failed_send e \<noteq> SessionSet" for e by (cases e) simp_all
  show "l' \<noteq> SessionLock" "l' \<noteq> SessionSet"
    using assms f by (cases l; auto split: option.splits bind_splits sum.splits if_splits prod.splits)+
qed

lemma location_step_valid:
  assumes "tls_location_step ch os l s = Some (l', s', release, notify)" and "send_ok l" and "list_all valid_payload (passed l)"
  shows "list_all valid_payload (passed l')"
proof -
  have "passed (failed_send e) = []" for e by (cases e) simp_all
  then show ?thesis using assms by (cases l; auto split: option.splits bind_splits sum.splits if_splits prod.splits)
qed

lemma xt_half_valid: "list_all valid_payload (xt_half st)"
proof -
  have "list_all valid_payload (half_passed l)" for l by (cases l) (simp_all add: valid_payload_def le_bytes_def)
  then show ?thesis by (auto simp: xt_half_def split: option.splits)
qed

lemma xt_half_run:
  assumes "xt_owned st" and "i < length (xt_locations st)" and "has_mutex l = (has_mutex (xt_locations st ! i) \<and> \<not> release)"
    and "release \<longrightarrow> has_mutex (xt_locations st ! i)"
    and "xt_mutex st' = (if release then None else xt_mutex st)" and "xt_locations st' = (xt_locations st)[i := l]"
  shows "xt_mutex st = Some i \<Longrightarrow> xt_half st = half_passed (xt_locations st ! i) \<and> xt_half st' = half_passed l"
    and "xt_mutex st \<noteq> Some i \<Longrightarrow> xt_half st' = xt_half st"
proof -
  have own: "has_mutex (xt_locations st ! i) \<longleftrightarrow> xt_mutex st = Some i" using assms(1,2) by (simp add: xt_owned_def)
  show "xt_half st = half_passed (xt_locations st ! i) \<and> xt_half st' = half_passed l" if "xt_mutex st = Some i"
    using that assms own half_no_mutex [of l] by (cases release) (auto simp: xt_half_def)
  show "xt_half st' = xt_half st" if "xt_mutex st \<noteq> Some i"
    using that assms(4-6) own by (auto simp: xt_half_def split: option.splits)
qed

lemma le_bytes_portion: "unat len \<le> length data \<Longrightarrow> message_portions (take (unat len) data) = [le_bytes (len + 4), take (unat len) data]"
  by (simp add: message_portions_def min_absorb2)

lemma xt_wire_run:
  assumes k: "xt_kernel ch os k" and ch: "faithful_channel ch in_step" "in_step tx rx"
    and inv: "xt_inv st" and wire: "xt_wire ch tx h0 st" and i: "i < length (xt_locations st)"
    and step: "tls_location_step ch os (xt_locations st ! i) (xt_socket st) = Some (l, xt_socket st', release, notify)"
      "after_lock (xt_locations st ! i) = None"
    and st': "xt_mutex st' = (if release then None else xt_mutex st)" "xt_locations st' = (xt_locations st)[i := l]"
    and conn: "tls_is_connected (xt_socket st')"
  shows "\<exists>ms h c. trace (xt_socket st') = h0 @ h \<and> tls_channel (xt_socket st') = Some c \<and> mset ms = xt_passed st' \<and>
    channel_sends ch tx (concat (map message_portions ms) @ xt_half st') = Some (c, bytes_sent h)"
proof -
  let ?l = "xt_locations st ! i"
  have os: "write_bounded os" "write_live os k" "channel_ok ch" using k by (simp_all add: xt_kernel_def)
  have ok: "idle_queue (xt_socket st)" "send_ok ?l" "xt_owned st" using inv i by (simp_all add: xt_inv_def list_all_length)
  have loc: "\<forall>l \<in> set (xt_locations st). l \<noteq> SessionSet \<and> list_all valid_payload (passed l)" using wire by (simp add: xt_wire_def)
  then have ns: "?l \<noteq> SessionSet" using i nth_mem by blast
  have "tls_is_connected (xt_socket st)" using tls_location_step_frame(3) [OF os step(1) ok(1,2) conn ns] .
  then obtain ms h c where w: "trace (xt_socket st) = h0 @ h" "tls_channel (xt_socket st) = Some c" "mset ms = xt_passed st"
      "channel_sends ch tx (concat (map message_portions ms) @ xt_half st) = Some (c, bytes_sent h)"
    using wire by (auto simp: xt_wire_def)
  have "set ms = set (concat (map passed (xt_locations st)))" using arg_cong [OF w(3), of set_mset] by (simp add: xt_passed_def)
  then have "list_all valid_payload ms" using loc by (auto simp: list_all_iff)
  then have "list_all valid_payload (concat (map message_portions ms) @ xt_half st)" using portions_valid xt_half_valid by simp
  then have sends: "\<forall>bs. valid_payload bs \<longrightarrow> channel_sends ch c [bs] \<noteq> None"
    using sends_more [OF ch _ w(4)] by simp
  have m: "has_mutex ?l \<longleftrightarrow> xt_mutex st = Some i" using ok(3) i by (simp add: xt_owned_def)
  note half = xt_half_run [OF ok(3) i location_step_mutex(1) [OF step] impI [OF location_step_mutex(2) [OF step]] st']
  have upd: "xt_passed st' + mset (passed ?l) = xt_passed st + mset (passed l)"
    using passed_update [OF i, of l] by (simp add: xt_passed_def st'(2))
  show ?thesis
  proof (cases rule: location_step_wire [OF os step(1) ns ok(1,2) conn w(2) sends, case_names header payload quiet])
    case (header data len async c' h')
    then have "xt_half st = []" "xt_half st' = [le_bytes (len + 4)]" "xt_passed st' = xt_passed st" using half(1) m upd by simp_all
    then show ?thesis
      using w header(4-6) by (intro exI [of _ ms] exI [of _ "h @ h'"] exI [of _ c']) (simp add: channel_sends_append del: channel_sends.simps)
  next
    case (payload data len async c' h')
    then have "xt_half st = [le_bytes (len + 4)]" "xt_half st' = []" "xt_passed st' = xt_passed st + {#take (unat len) data#}"
      using half(1) m upd by simp_all
    moreover have "message_portions (take (unat len) data) = [le_bytes (len + 4), take (unat len) data]"
      using le_bytes_portion ok(2) payload(1) by simp
    then have "concat (map message_portions (ms @ [take (unat len) data])) = (concat (map message_portions ms) @ [le_bytes (len + 4)]) @ [take (unat len) data]"
      by simp
    ultimately show ?thesis
      using w payload(4-6)
      by (intro exI [of _ "ms @ [take (unat len) data]"] exI [of _ "h @ h'"] exI [of _ c'])
        (simp add: channel_sends_append del: channel_sends.simps append_assoc concat_append map_append)
  next
    case quiet
    then have "xt_half st' = xt_half st" "xt_passed st' = xt_passed st" using half upd by (cases "xt_mutex st = Some i"; simp)+
    then show ?thesis using w quiet(4,5) by (intro exI [of _ ms] exI [of _ h] exI [of _ c]) simp
  qed
qed

lemma xt_wire_step:
  assumes k: "xt_kernel ch os k" and ch: "faithful_channel ch in_step" "in_step tx rx"
    and inv: "xt_inv st" and wire: "xt_wire ch tx h0 st" and step: "xt_step ch os i st = Some st'"
  shows "xt_wire ch tx h0 st'"
  using step
proof (cases rule: xt_step_cases)
  case (lock l)
  note p = after_lock_passed [OF lock(2)]
  have "xt_passed st' = xt_passed st" using passed_update [OF lock(1), of l] p by (simp add: xt_passed_def lock(4))
  moreover have "xt_half st' = []" "xt_half st = []" using p lock(1,3) by (simp_all add: xt_half_def lock(4))
  moreover have "l' \<noteq> SessionLock \<and> l' \<noteq> SessionSet \<and> list_all valid_payload (passed l')" if "l' \<in> set (xt_locations st')" for l'
  proof -
    have "xt_locations st ! i \<noteq> SessionLock" using wire nth_mem [OF lock(1)] by (auto simp: xt_wire_def)
    then have "l \<noteq> SessionLock \<and> l \<noteq> SessionSet" using p lock(2) by (cases "xt_locations st ! i") auto
    then show ?thesis using in_update(3) [OF lock(1), of l' l] that p wire by (auto simp: xt_wire_def lock(4))
  qed
  ultimately show ?thesis using wire by (simp add: xt_wire_def lock(4))
next
  case (run l s release notify)
  let ?l = "xt_locations st ! i"
  have loc: "?l \<noteq> SessionSet" "list_all valid_payload (passed ?l)" "send_ok ?l"
    using wire inv nth_mem [OF run(1)] run(1) by (auto simp: xt_wire_def xt_inv_def list_all_length)
  then have "\<not> notify" using location_step_mutex(3) [OF run(3,2)] by simp
  then have st': "xt_locations st' = (xt_locations st)[i := l]" using run(6) by simp
  have "l' \<noteq> SessionLock \<and> l' \<noteq> SessionSet \<and> list_all valid_payload (passed l')" if "l' \<in> set (xt_locations st')" for l'
    using in_update(3) [OF run(1), of l' l] that st' wire location_step_valid [OF run(3) loc(3,2)] location_step_session [OF run(3)] by (auto simp: xt_wire_def)
  moreover have step': "tls_location_step ch os ?l (xt_socket st) = Some (l, xt_socket st', release, notify)" using run(3,4) by simp
  ultimately show ?thesis
    unfolding xt_wire_def using xt_wire_run [OF k ch inv wire run(1) step' run(2,5) st'] by blast
qed

interpretation xtw: thread_system "xt_step ch os"
  "\<lambda>st. xt_kernel ch os k \<and> faithful_channel ch in_step \<and> in_step tx rx \<and> xt_inv st \<and> xt_wire ch tx h0 st"
  for ch os k in_step tx rx h0
  by unfold_locales (metis xt_inv_step xt_wire_step)

section \<open>Termination\<close>

text \<open>The steps that a location may still make; \<open>notify_all\<close> gives each of \<open>n\<close> threads two more.\<close>

fun location_weight :: "nat \<Rightarrow> tls_location \<Rightarrow> nat" where
  "location_weight n (SendEnter data len async) = 7"
| "location_weight n (SendLock data len async) = 6"
| "location_weight n (SendHeader data len async) = 5"
| "location_weight n (SendPayload data len async) = 4"
| "location_weight n (SendUnlock data len async) = 3"
| "location_weight n SendFailed = 1"
| "location_weight n (SendRest data len async) = 2"
| "location_weight n WaitLock = 3"
| "location_weight n WaitTest = 2"
| "location_weight n WaitSleep = 1"
| "location_weight n SessionLock = 2 * n + 2"
| "location_weight n SessionSet = 2 * n + 1"
| "location_weight n (RecordLock data) = 2"
| "location_weight n (RecordTake data) = 1"
| "location_weight n l = 0"

definition xt_weight :: "'c tls_threads \<Rightarrow> nat" where
  "xt_weight st = sum_list (map (location_weight (length (xt_locations st))) (xt_locations st))"

lemma location_step_weight:
  assumes "tls_location_step ch os l s = Some (l', s', release, notify)"
  shows "location_weight n l' < location_weight n l" and "l = SessionSet \<Longrightarrow> location_weight n l' = 0"
proof -
  have f: "location_weight n (failed_send e) \<le> 1" for e by (cases e) simp_all
  have g: "location_weight n (failed_send e) < 5" "location_weight n (failed_send e) < 4" for e using f [of e] by simp_all
  show "location_weight n l' < location_weight n l" "l = SessionSet \<Longrightarrow> location_weight n l' = 0"
    using assms g by (cases l; auto split: option.splits bind_splits sum.splits if_splits prod.splits)+
qed

lemma wake_weight: "sum_list (map (location_weight n) (xt_wake ls)) \<le> sum_list (map (location_weight n) ls) + 2 * length ls"
proof (induction ls)
  case (Cons l ls)
  then show ?case by (cases l) (simp_all add: xt_wake_def)
qed (simp add: xt_wake_def)

lemma xt_step_weight:
  assumes "xt_step ch os i st = Some st'"
  shows "xt_weight st' < xt_weight st"
  using assms
proof (cases rule: xt_step_cases)
  case (lock l)
  have "location_weight n l < location_weight n (xt_locations st ! i)" for n using lock(2) by (cases "xt_locations st ! i") auto
  then show ?thesis
    using sum_list_map_update [OF lock(1), of "location_weight (length (xt_locations st))" l]
    by (simp add: xt_weight_def lock(4)) (metis add_less_cancel_left add.commute)
next
  case (run l s release notify)
  let ?n = "length (xt_locations st)"
  note w = location_step_weight [OF run(3), of ?n] sum_list_map_update [OF run(1), of "location_weight ?n" l]
  show ?thesis
  proof (cases notify)
    case True
    then have "xt_locations st ! i = SessionSet" using location_step_mutex(3) [OF run(3,2)] by simp
    then show ?thesis using True w wake_weight [of ?n "(xt_locations st)[i := l]"] by (simp add: xt_weight_def run(6))
  next
    case False
    then show ?thesis using w by (simp add: xt_weight_def run(6))
  qed
qed

interpretation xtt: terminating_system "xt_step ch os" "\<lambda>st. xt_kernel ch os k \<and> xt_inv st" xt_weight for ch os k
  by unfold_locales (rule xt_step_weight)

lemma xt_quiescent:
  assumes k: "xt_kernel ch os k" and inv: "xt_inv st" and q: "quiescent (xt_step ch os) st"
  shows "xt_mutex st = None" and "l \<in> set (xt_locations st) \<Longrightarrow> tls_returned l \<or> l = WaitSleep \<and> \<not> tls_is_connected (xt_socket st)"
proof -
  have os: "write_bounded os" "write_live os k" "channel_ok ch" using k by (simp_all add: xt_kernel_def)
  have run: "tls_returned (xt_locations st ! i) \<or> xt_locations st ! i = WaitSleep"
    if i: "i < length (xt_locations st)" and "after_lock (xt_locations st ! i) = None" for i
  proof -
    have "tls_location_step ch os (xt_locations st ! i) (xt_socket st) = None"
      using q that
      by (cases "tls_location_step ch os (xt_locations st ! i) (xt_socket st)")
        (auto simp: quiescent_def xt_step_def Let_def split: option.splits prod.splits dest!: spec [of _ i])
    then show ?thesis using inv that by (intro tls_location_step_total [OF os]) (simp_all add: xt_inv_def list_all_length)
  qed
  show m: "xt_mutex st = None"
  proof (rule ccontr)
    assume "xt_mutex st \<noteq> None"
    then obtain i where i: "xt_mutex st = Some i" by blast
    then have h: "has_mutex (xt_locations st ! i)" "i < length (xt_locations st)" using inv by (auto simp: xt_inv_def xt_owned_def)
    moreover have "after_lock (xt_locations st ! i) = None" using h(1) after_lock_mutex by (cases "after_lock (xt_locations st ! i)") blast+
    ultimately show False using run [of i] by (cases "xt_locations st ! i") auto
  qed
  show "tls_returned l \<or> l = WaitSleep \<and> \<not> tls_is_connected (xt_socket st)" if "l \<in> set (xt_locations st)"
  proof -
    from that obtain i where i: "i < length (xt_locations st)" "xt_locations st ! i = l" by (auto simp: in_set_conv_nth)
    have "after_lock l = None" using q i m by (auto simp: quiescent_def xt_step_def split: option.splits dest!: spec [of _ i])
    then show ?thesis using run [of i] i inv that by (auto simp: xt_inv_def)
  qed
qed

section \<open>Waiting for a connection that does not come\<close>

definition xt_waiting :: "nat \<Rightarrow> 'c tls_threads \<Rightarrow> bool" where
  "xt_waiting i st \<longleftrightarrow> i < length (xt_locations st) \<and> xt_locations st ! i \<in> {WaitLock, WaitTest, WaitSleep} \<and>
     SessionLock \<notin> set (xt_locations st) \<and> SessionSet \<notin> set (xt_locations st) \<and> \<not> tls_is_connected (xt_socket st)"

lemma xt_waiting_step:
  assumes k: "xt_kernel ch os k" and inv: "xt_inv st" and w: "xt_waiting i st" and "xt_step ch os j st = Some st'"
  shows "xt_waiting i st'"
  using assms(4)
proof (cases rule: xt_step_cases)
  case (lock l)
  have s: "xt_locations st ! j \<noteq> SessionLock" using w nth_mem [OF lock(1)] by (auto simp: xt_waiting_def)
  have "l \<noteq> SessionSet \<and> l \<noteq> SessionLock" using s lock(2) by (cases "xt_locations st ! j") auto
  moreover have "i = j \<Longrightarrow> l = WaitTest" using w lock(2) by (auto simp: xt_waiting_def)
  ultimately show ?thesis
    using w lock(1) in_update(3) [OF lock(1), of SessionLock l] in_update(3) [OF lock(1), of SessionSet l]
    by (auto simp: xt_waiting_def lock(4) nth_list_update)
next
  case (run l s release notify)
  have os: "write_bounded os" "write_live os k" "channel_ok ch" using k by (simp_all add: xt_kernel_def)
  have ns: "xt_locations st ! j \<noteq> SessionSet" using w nth_mem [OF run(1)] by (auto simp: xt_waiting_def)
  then have nn: "\<not> notify" using location_step_mutex(3) [OF run(3,2)] by simp
  have "idle_queue (xt_socket st)" "send_ok (xt_locations st ! j)" using inv run(1) by (simp_all add: xt_inv_def list_all_length)
  from tls_location_step_frame(3) [OF os run(3) this _ ns] have "\<not> tls_is_connected s" using w by (auto simp: xt_waiting_def)
  moreover have "(xt_locations st)[j := l] ! i \<in> {WaitLock, WaitTest, WaitSleep}"
    using w run(1-3) by (cases "i = j") (auto simp: xt_waiting_def)
  ultimately show ?thesis
    using w nn location_step_session [OF run(3)] in_update(3) [OF run(1), of SessionLock l] in_update(3) [OF run(1), of SessionSet l]
    by (auto simp: xt_waiting_def run(4,6))
qed

interpretation xtv: thread_system "xt_step ch os" "\<lambda>st. xt_kernel ch os k \<and> xt_inv st \<and> xt_waiting i st" for ch os k i
  by unfold_locales (metis xt_inv_step xt_waiting_step)

section \<open>One thread alone\<close>

text \<open>The only thread, and whether it holds the mutex; and that it returns with a result.\<close>

fun location_result :: "tls_location \<Rightarrow> (error + bool) option" where
  "location_result (Sent m r) = Some r"
| "location_result (Returned r) = Some r"
| "location_result l = None"

definition tls_alone :: "bool \<Rightarrow> tls_location \<Rightarrow> 'c tls_socket \<Rightarrow> 'c tls_threads" where
  "tls_alone m l s = \<lparr>xt_socket = s, xt_mutex = (if m then Some 0 else None), xt_locations = [l]\<rparr>"

definition alone_returns :: "'c botan \<Rightarrow> os \<Rightarrow> bool \<Rightarrow> tls_location \<Rightarrow> 'c tls_socket \<Rightarrow> error + bool \<Rightarrow> 'c tls_socket \<Rightarrow> bool" where
  "alone_returns ch os m l s r s' \<longleftrightarrow>
     (\<exists>is l'. schedule (xt_step ch os) is (tls_alone m l s) = Some (tls_alone False l' s') \<and> location_result l' = Some r)"

lemma alone_returned: "location_result l = Some r \<Longrightarrow> alone_returns ch os False l s r s"
  unfolding alone_returns_def by (intro exI [of _ "[]"] exI [of _ l]) simp

lemma alone_steps:
  assumes "xt_step ch os 0 (tls_alone m l s) = Some (tls_alone m' l' s')" and "alone_returns ch os m' l' s' r u"
  shows "alone_returns ch os m l s r u"
proof -
  obtain "is" l'' where "schedule (xt_step ch os) is (tls_alone m' l' s') = Some (tls_alone False l'' u)" "location_result l'' = Some r"
    using assms(2) by (auto simp: alone_returns_def)
  then show ?thesis unfolding alone_returns_def using assms(1) by (intro exI [of _ "0 # is"] exI [of _ l'']) simp
qed

lemma alone_locks: "after_lock l = Some l' \<Longrightarrow> alone_returns ch os True l' s r u \<Longrightarrow> alone_returns ch os False l s r u"
  by (rule alone_steps [of ch os False l s True l' s]) (simp_all add: xt_step_def tls_alone_def)

lemma alone_run:
  assumes "after_lock l = None" and "tls_location_step ch os l s = Some (l', s', release, False)"
    and "alone_returns ch os (m \<and> \<not> release) l' s' r u"
  shows "alone_returns ch os m l s r u"
  by (rule alone_steps [OF _ assms(3)]) (simp add: xt_step_def tls_alone_def assms(1,2))

lemma alone_failed:
  assumes "(case e of MemoryFault \<Rightarrow> Some (Inl MemoryFault, s) | Fatal msg \<Rightarrow> Some (Inl (Fatal msg), s)
    | _ \<Rightarrow> Option.bind (tls_close ch os False s) (\<lambda>(r, s). Some (map_sum id (\<lambda>_. False) r, s))) = Some (r, s')"
  shows "alone_returns ch os False (failed_send e) s r s'"
proof (cases "failed_send e = SendFailed")
  case True
  then have "Option.bind (tls_close ch os False s) (\<lambda>(r, s). Some (map_sum id (\<lambda>_. False) r, s)) = Some (r, s')"
    using assms by (cases e) simp_all
  then show ?thesis unfolding True
    by (intro alone_run [of SendFailed ch os s "Returned r" s' False]) (auto intro: alone_returned split: bind_splits)
next
  case False
  then show ?thesis using assms by (cases e) (auto intro: alone_returned)
qed

lemma alone_rest:
  assumes "(if async then Some (Inr True, s) else tls_do_send os s) = Some (r, s')"
  shows "alone_returns ch os True (SendUnlock data len async) s r s'"
proof -
  have "alone_returns ch os False (SendRest data len async) s r s'"
    by (rule alone_run [of _ ch os s "Sent (take (unat len) data) r" s' False])
      (use assms in \<open>auto intro: alone_returned split: if_splits\<close>)
  then show ?thesis by (intro alone_run [of "SendUnlock data len async" ch os s _ s True]) simp_all
qed

lemma alone_payload:
  assumes "mem_read data 0 (unat len) = Some bs" and "tls_channel_send ch os bs u = Some (q, v)"
    and "(case q of Inl MemoryFault \<Rightarrow> Some (Inl MemoryFault, v) | Inl (Fatal msg) \<Rightarrow> Some (Inl (Fatal msg), v)
      | Inl _ \<Rightarrow> Option.bind (tls_close ch os False v) (\<lambda>(r, s). Some (map_sum id (\<lambda>_. False) r, s))
      | Inr _ \<Rightarrow> if async then Some (Inr True, v) else tls_do_send os v) = Some (r, s')"
  shows "alone_returns ch os True (SendPayload data len async) u r s'"
proof (cases q)
  case (Inl e)
  then have "alone_returns ch os False (failed_send e) v r s'" using assms(3) by (intro alone_failed) (cases e; simp)
  then show ?thesis using assms(1,2) Inl by (intro alone_run [of "SendPayload data len async" ch os u _ v True]) simp_all
next
  case (Inr x)
  then have "alone_returns ch os True (SendUnlock data len async) v r s'" using assms(3) by (intro alone_rest) simp
  then show ?thesis using assms(1,2) Inr by (intro alone_run [of "SendPayload data len async" ch os u _ v False]) simp_all
qed

lemma tls_send_alone:
  assumes "tls_send ch os data len async s = Some (r, s')"
  shows "alone_returns ch os False (SendEnter data len async) s r s'"
proof (cases "tls_state s = TlsConnected")
  case False
  then show ?thesis using assms
    by (intro alone_run [of _ ch os s "Returned r" s' False]) (auto simp: tls_send_def intro: alone_returned)
next
  case True
  obtain q u where q: "tls_channel_send ch os (le_bytes (len + 4)) s = Some (q, u)"
    using assms True by (auto simp: tls_send_def tls_context_send_def split: bind_splits)
  have "alone_returns ch os True (SendHeader data len async) s r s'"
  proof (cases q)
    case (Inl e)
    then have "alone_returns ch os False (failed_send e) u r s'"
      using assms True q by (intro alone_failed) (cases e; simp add: tls_send_def tls_context_send_def)
    then show ?thesis using q Inl by (intro alone_run [of "SendHeader data len async" ch os s _ u True]) simp_all
  next
    case (Inr x)
    have "alone_returns ch os True (SendPayload data len async) u r s'"
    proof (cases "mem_read data 0 (unat len)")
      case None
      then show ?thesis using assms True q Inr
        by (intro alone_run [of "SendPayload data len async" ch os u "Returned r" s' True])
          (auto simp: tls_send_def tls_context_send_def intro: alone_returned)
    next
      case (Some bs)
      then show ?thesis using assms True q Inr
        by (auto simp: tls_send_def tls_context_send_def split: bind_splits intro: alone_payload)
    qed
    then show ?thesis using q Inr by (intro alone_run [of "SendHeader data len async" ch os s _ u False]) simp_all
  qed
  then have "alone_returns ch os False (SendLock data len async) s r s'" by (intro alone_locks) simp_all
  then show ?thesis using True by (intro alone_run [of "SendEnter data len async" ch os s _ s False]) simp_all
qed

section \<open>Properties\<close>

lemma xt_wire_init:
  assumes "tls_ready tx s" and "list_all tls_entry ls" and "SessionLock \<notin> set ls"
  shows "xt_wire ch tx (trace s) (xt_init s ls)"
proof -
  have e: "l \<noteq> SessionSet \<and> passed l = []" if "tls_entry l" for l using that by (cases l) auto
  then have "concat (map passed ls) = []" using assms(2) by (auto simp: list_all_iff)
  then show ?thesis using assms e
    by (auto simp: xt_wire_def xt_init_def xt_passed_def xt_half_def tls_ready_def list_all_iff bytes_sent_def
        intro!: exI [of _ "[]"])
qed

text \<open>
  C18. Threads that send over one \<open>TlsSocket\<close>, with any interleaving, while the channel is established: as long as the socket stays
  connected, what has been written is, whenever no thread is inside \<open>TlsContext::send\<close>, the ciphertext of whole messages, each of
  the messages passed on by the threads once, in some order; the other end receives a prefix of this sequence, and all of it once it has
  received everything.  No header is ever followed by the payload of another thread.
\<close>

theorem tls_threads_end_to_end:
  assumes "faithful_channel ch in_step" and "in_step tx rx" and "channel_ok ch"
    and "write_bounded os1" and "write_live os1 k" and "recv_bounded os2" and "recv_finite os2 n"
    and "tls_ready tx s0" and "list_all tls_entry ls" and "SessionLock \<notin> set ls"
    and "schedule (xt_step ch os1) is (xt_init s0 ls) = Some st"
    and "tls_is_connected (xt_socket st)" and "xt_mutex st = None" and "trace (xt_socket st) = trace s0 @ hs"
    and "tls_ready rx r0" and "tls_reads ch os2 r0 del r" and "trace r = trace r0 @ hr"
    and "\<forall>h. recv_true os2 (trace r0) h \<longrightarrow> prefix (bytes_received h) (bytes_sent hs)"
  shows "\<exists>ms. mset ms = xt_passed st \<and> prefix (del @ slicer_msgs (m_slicer r)) ms \<and>
    (bytes_received hr = bytes_sent hs \<longrightarrow> del @ slicer_msgs (m_slicer r) = ms)"
proof -
  have k: "xt_kernel ch os1 k" using assms(3-5) by (simp add: xt_kernel_def)
  have "xt_inv (xt_init s0 ls)" using assms(8) by (intro xt_inv_init [OF _ assms(9)]) (simp add: tls_ready_def)
  then have wire: "xt_wire ch tx (trace s0) st"
    using xtw.schedule_inv [of ch os1 k in_step tx rx "xt_init s0 ls" "trace s0" "is" st] k assms(1,2,11) xt_wire_init [OF assms(8-10)]
    by blast
  then obtain ms h c where w: "trace (xt_socket st) = trace s0 @ h" "mset ms = xt_passed st"
      "channel_sends ch tx (concat (map message_portions ms) @ xt_half st) = Some (c, bytes_sent h)"
    using assms(12) by (auto simp: xt_wire_def)
  then have sent: "channel_sends ch tx (concat (map message_portions ms)) = Some (c, bytes_sent hs)"
    using assms(13,14) by (simp add: xt_half_def)
  have "set ms = set (concat (map passed (xt_locations st)))" using arg_cong [OF w(2), of set_mset] by (simp add: xt_passed_def)
  then have "list_all valid_payload ms" using wire by (auto simp: xt_wire_def list_all_iff)
  from tls_wire_received(1,2) [OF assms(1,2,6,7) this sent assms(15-18)] show ?thesis using w(2) by blast
qed

text \<open>
  C22. The threads that send, that wait for the handshake and that deliver its end or a record never deadlock and never miss the
  notification: whatever has happened, they can run on until none can move, after a bounded number of steps; then the mutex is free, and every call has
  returned, or it waits in \<open>wait_connected\<close> for a socket that is not connected.
\<close>

theorem tls_threads_finish:
  assumes "write_bounded os" and "write_live os k" and "channel_ok ch" and "idle_queue s" and "list_all tls_entry ls"
    and "schedule (xt_step ch os) is (xt_init s ls) = Some st"
  shows "length is \<le> length ls * (2 * length ls + 7) \<and>
    (\<exists>js st'. schedule (xt_step ch os) (is @ js) (xt_init s ls) = Some st' \<and> quiescent (xt_step ch os) st') \<and>
    (quiescent (xt_step ch os) st \<longrightarrow> xt_mutex st = None \<and>
      (\<forall>l \<in> set (xt_locations st). tls_returned l \<or> l = WaitSleep \<and> \<not> tls_is_connected (xt_socket st)))"
proof -
  have inv: "xt_kernel ch os k \<and> xt_inv (xt_init s ls)"
    using assms(1-3) xt_inv_init [OF assms(4,5)] by (simp add: xt_kernel_def)
  note st = xts.schedule_inv [OF inv assms(6)]
  obtain js st' where "schedule (xt_step ch os) js st = Some st'" "quiescent (xt_step ch os) st'"
    using xtt.schedule_completes [OF st] by blast
  then have "\<exists>js st'. schedule (xt_step ch os) (is @ js) (xt_init s ls) = Some st' \<and> quiescent (xt_step ch os) st'"
    using assms(6) by (auto simp: schedule_append)
  moreover have "location_weight n l \<le> 2 * n + 7" if "tls_entry l" for n l using that by (cases l) auto
  then have "xt_weight (xt_init s ls) \<le> length ls * (2 * length ls + 7)"
    using assms(5) sum_list_mono [of ls "location_weight (length ls)" "\<lambda>_. 2 * length ls + 7"]
    by (simp add: xt_weight_def xt_init_def list_all_iff sum_list_triv)
  then have "length is \<le> length ls * (2 * length ls + 7)" using xtt.schedule_bounded [OF inv assms(6)] by simp
  moreover have "xt_mutex st = None \<and> (\<forall>l \<in> set (xt_locations st). tls_returned l \<or> l = WaitSleep \<and> \<not> tls_is_connected (xt_socket st))"
    if "quiescent (xt_step ch os) st"
    using xt_quiescent [OF conjunct1 [OF st] conjunct2 [OF st] that] by blast
  ultimately show ?thesis by blast
qed

text \<open>
  C35. A thread in \<open>wait_connected\<close> of a socket that is not connected, because the handshake has failed or the socket is closed, and
  that no handshake will establish, never returns: the condition names only the connected state, and nothing notifies it.
\<close>

theorem tls_wait_forever:
  assumes "write_bounded os" and "write_live os k" and "channel_ok ch" and "idle_queue s" and "list_all tls_entry ls"
    and "\<not> tls_is_connected s" and "SessionLock \<notin> set ls" and "i < length ls" and "ls ! i = WaitLock"
    and "schedule (xt_step ch os) is (xt_init s ls) = Some st"
  shows "\<not> tls_returned (xt_locations st ! i) \<and> (quiescent (xt_step ch os) st \<longrightarrow> xt_locations st ! i = WaitSleep)"
proof -
  have inv: "xt_kernel ch os k \<and> xt_inv (xt_init s ls)"
    using assms(1-3) xt_inv_init [OF assms(4,5)] by (simp add: xt_kernel_def)
  have "SessionSet \<notin> set ls" using assms(5) by (auto simp: list_all_iff)
  then have "xt_waiting i (xt_init s ls)" using assms(6-9) by (simp add: xt_waiting_def xt_init_def)
  then have st: "xt_kernel ch os k" "xt_inv st" "xt_waiting i st" using xtv.schedule_inv [of ch os k "xt_init s ls" i "is" st] inv assms(10) by blast+
  then have w: "xt_locations st ! i \<in> {WaitLock, WaitTest, WaitSleep}" "xt_locations st ! i \<in> set (xt_locations st)" by (simp_all add: xt_waiting_def)
  then have "\<not> tls_returned (xt_locations st ! i)" by auto
  then show ?thesis using xt_quiescent(2) [OF st(1,2) _ w(2)] by blast
qed

subsection \<open>Witnesses\<close>

lemma framing_send:
  assumes "tls_channel s = Some c" and "valid_payload bs"
  shows "tls_channel_send framing_channel (feeding_os chunks) bs s = Some (Inr (), sys (SysWrite (m_fd s) (frame bs) (WriteN (length (frame bs)))) s)"
proof -
  have "frame bs \<noteq> []" "length (frame bs) < 2 ^ 32" using assms(2) by (simp_all add: frame_def valid_payload_def)
  note emits = feeding_emits [OF this, of framing_channel chunks]
  have same: "s\<lparr>tls_channel := Some c\<rparr> = s" using assms(1) by (cases s) simp
  have "bc_send framing_channel c bs = (c, Some [frame bs])" using assms(2) by (simp add: framing_channel_def)
  then show ?thesis using assms(1) emits [of s] by (simp add: tls_channel_send_def same)
qed

lemma two_senders:
  obtains st where "schedule (xt_step framing_channel (feeding_os [])) [0, 1, 0, 0, 0, 0, 0, 1, 1, 1, 1, 1]
      (xt_init linked_socket [SendEnter [7, 8] 2 True, SendEnter [9] 1 True]) = Some st"
    "xt_locations st = [Sent [7, 8] (Inr True), Sent [9] (Inr True)]" "xt_mutex st = None" "tls_is_connected (xt_socket st)"
    "bytes_sent (trace (xt_socket st)) = [8, 0, 0, 0, 6, 0, 0, 0, 6, 0, 0, 0, 7, 8, 8, 0, 0, 0, 5, 0, 0, 0, 5, 0, 0, 0, 9]"
proof -
  have le: "le_bytes 5 = [5, 0, 0, 0]" "le_bytes 6 = [6, 0, 0, 0]" "le_bytes 8 = [8, 0, 0, 0]" by (simp_all add: le_bytes_def)
  have s: "tls_state linked_socket = TlsConnected" "tls_channel linked_socket = Some []" using linked_socket(1) by (simp_all add: tls_ready_def)
  show thesis
    by (rule that) (auto simp: xt_init_def xt_step_def Let_def s framing_send valid_payload_def mem_read_def le frame_def
        tls_is_connected_def bytes_sent_def linked_socket(2))
qed

theorem tls_threads_end_to_end_witness:
  "\<exists>st del r. schedule (xt_step framing_channel (feeding_os [])) [0, 1, 0, 0, 0, 0, 0, 1, 1, 1, 1, 1]
      (xt_init linked_socket [SendEnter [7, 8] 2 True, SendEnter [9] 1 True]) = Some st \<and>
    tls_reads framing_channel (feeding_os [[8, 0, 0, 0, 6, 0, 0], [0, 6, 0, 0, 0, 7, 8, 8, 0], [0, 0, 5, 0, 0, 0, 5, 0, 0, 0, 9]]) linked_socket del r \<and>
    mset (del @ slicer_msgs (m_slicer r)) = {#[7, 8], [9]#}"
proof -
  let ?cs = "[[8, 0, 0, 0, 6, 0, 0], [0, 6, 0, 0, 0, 7, 8, 8, 0], [0, 0, 5, 0, 0, 0, 5, 0, 0, 0, 9]] :: byte list list"
  let ?ch = framing_channel and ?os1 = "feeding_os []" and ?os2 = "feeding_os ?cs" and ?ls = "[SendEnter [7, 8] 2 True, SendEnter [9] 1 True]"
  obtain st where st: "schedule (xt_step ?ch ?os1) [0, 1, 0, 0, 0, 0, 0, 1, 1, 1, 1, 1] (xt_init linked_socket ?ls) = Some st"
      "xt_locations st = [Sent [7, 8] (Inr True), Sent [9] (Inr True)]" "tls_is_connected (xt_socket st)" "xt_mutex st = None"
      "bytes_sent (trace (xt_socket st)) = concat ?cs"
    by (rule two_senders) simp
  have chunks: "list_all (\<lambda>c. c \<noteq> [] \<and> length c \<le> MAX_SIZE) ?cs" by (simp add: MAX_SIZE_def)
  have ls: "list_all tls_entry ?ls" "SessionLock \<notin> set ?ls" "trace (xt_socket st) = [] @ trace (xt_socket st)" by (simp_all add: valid_payload_def)
  have net: "\<forall>h. recv_true ?os2 [] h \<longrightarrow> prefix (bytes_received h) (bytes_sent (trace (xt_socket st)))"
    unfolding st(5) using feeding_received [OF chunks, of "[]"]
    by (metis append_take_drop_id concat_append drop0 filter.simps(1) list.size(3) prefixI)
  have wire: "channel_sends ?ch [] (concat (map message_portions [[7, 8], [9]])) = Some ([], concat ?cs)" and ms: "list_all valid_payload [[7, 8], [9]]"
    using framing_channel_sends [of "concat (map message_portions [[7, 8], [9]])"]
    by (simp_all add: valid_payload_def message_portions_def frame_def le_bytes_def)
  note recv = tls_wire_received(3,4) [OF framing_channel_faithful refl feeding_os(1,2) ms wire linked_socket(1),
      unfolded linked_socket(2), OF _ _ net [unfolded st(5)]]
  obtain res r h where r: "tls_receive ?ch ?os2 linked_socket = Some (res, r)" "trace r = [] @ h" "recv_ended 3 h (tcp_is_valid r)"
    using recv(2) [OF tls_reads.start, of "[]"] linked_socket(2-4) by auto
  obtain del where del: "tls_reads ?ch ?os2 linked_socket del r"
    using tls_reads.message [OF tls_reads.start, of ?ch ?os2] tls_reads.error [OF tls_reads.start, of ?ch ?os2] r(1) by (cases res) blast+
  have "recv_true ?os2 [] h" by (rule recv(1) [OF del r(2)])
  then have "bytes_received h = concat ?cs" using feeding_drained [OF chunks _ r(3), of "[]"] by simp
  then show ?thesis
    using tls_threads_end_to_end [OF framing_channel_faithful refl framing_channel_ok feeding_os(3) feeding_write_live feeding_os(1,2)
      linked_socket(1) ls(1,2) st(1,3,4) _ linked_socket(1) del _ net [folded linked_socket(2)], unfolded linked_socket(2), OF ls(3) r(2)]
      st(1,2,5) del by (auto simp: xt_passed_def)
qed

theorem tls_threads_finish_witness:
  "\<exists>st. schedule (xt_step framing_channel (feeding_os [])) [0, 0, 1, 1, 0, 0]
      (xt_init (linked_socket\<lparr>tls_state := TlsSetup\<rparr>) [WaitLock, SessionLock]) = Some st \<and> xt_mutex st = None \<and> list_all tls_returned (xt_locations st)"
proof -
  let ?s = "linked_socket\<lparr>tls_state := TlsSetup\<rparr>"
  have c: "tls_state linked_socket = TlsConnected" "idle_queue ?s" using linked_socket(1) by (simp_all add: tls_ready_def idle_queue_def)
  obtain st where st: "schedule (xt_step framing_channel (feeding_os [])) [0, 0, 1, 1, 0, 0] (xt_init ?s [WaitLock, SessionLock]) = Some st"
      "quiescent (xt_step framing_channel (feeding_os [])) st" "tls_is_connected (xt_socket st)"
    by (auto simp: xt_init_def xt_step_def Let_def tls_is_connected_def xt_wake_def tls_session_established_def quiescent_def less_Suc_eq numeral_2_eq_2)
  have e: "list_all tls_entry [WaitLock, SessionLock]" by simp
  from tls_threads_finish [OF feeding_os(3) feeding_write_live framing_channel_ok c(2) e st(1)] st show ?thesis
    by (auto simp: list_all_iff)
qed

theorem tls_wait_forever_witness:
  "\<exists>st. schedule (xt_step framing_channel (feeding_os [])) [0, 0] (xt_init (linked_socket\<lparr>tls_state := TlsClosed\<rparr>) [WaitLock]) = Some st \<and>
    quiescent (xt_step framing_channel (feeding_os [])) st \<and> xt_locations st ! 0 = WaitSleep"
proof -
  let ?s = "linked_socket\<lparr>tls_state := TlsClosed\<rparr>"
  have s: "idle_queue ?s" "\<not> tls_is_connected ?s" using linked_socket(1) by (simp_all add: tls_ready_def idle_queue_def tls_is_connected_def)
  obtain st where st: "schedule (xt_step framing_channel (feeding_os [])) [0, 0] (xt_init ?s [WaitLock]) = Some st"
      "quiescent (xt_step framing_channel (feeding_os [])) st"
    by (auto simp: xt_init_def xt_step_def tls_is_connected_def quiescent_def)
  have e: "list_all tls_entry [WaitLock]" "SessionLock \<notin> set [WaitLock]" "0 < length [WaitLock]" "[WaitLock] ! 0 = WaitLock" by simp_all
  from tls_wait_forever [OF feeding_os(3) feeding_write_live framing_channel_ok s(1) e(1) s(2) e(2-4) st(1)] st show ?thesis by blast
qed

end
