(* ===== verification/Spec2Isabelle.thy ===== *)
theory Spec2Isabelle
  imports Listeners Delayed_Listener Tls_Receive Tcp_Solo Loop_Workers Message_App Listener_Solo Tls_Threads
begin

text \<open>
  A verification development for \<^bold>\<open>yael\<close>, an event loop and socket library in C++ (\<open>src/include/yael\<close> and
  \<open>src/src\<close>).

  \<^bold>\<open>The program.\<close>  Worker threads of an \<open>EventLoop\<close> wait in \<open>epoll_wait\<close> and hand events to \<open>EventListener\<close>s: timers
  (\<open>TimeEventListener\<close>) and sockets (\<open>NetworkSocketListener\<close>, \<open>DelayedNetworkSocketListener\<close>).  A socket listener owns a
  \<open>Socket\<close>, either a \<open>TcpSocket\<close> or a \<open>TlsSocket\<close>; it reads when the loop says so and passes
  messages to the application, and it sends, registering for writing while data is left.  A
  socket cuts the incoming bytes into messages with a \<open>MessageSlicer\<close>: in datagram mode every message has a
  four-byte little-endian length in front, in stream mode every portion received is a message.

  \<^bold>\<open>The theories\<close>, in the order in which they import each other, and what they model:

  \<^item> \<open>Yael_Prelude\<close>: machine words, exceptions as values, memory accesses with bounds, little-endian encoding.
  \<^item> \<open>Framing\<close>: the wire format as abstract functions on byte lists, \<open>frame\<close> and \<open>parse\<close>; parsing does not
    depend on the fragmentation, and inverts framing.  The specification of the slicer and the sockets.
  \<^item> \<open>Buffer\<close> (\<open>network/buffer.h\<close>): the receive buffer with 32-bit position and size.
  \<^item> \<open>Message_Slicer\<close> (\<open>network/MessageSlicer.h\<close>): the abstract class as the locale \<open>slicer_contract\<close>.
    \<open>Datagram_Slicer\<close>, \<open>Stream_Slicer\<close> (\<open>src/network/DatagramMessageSlicer.h\<close>, \<open>StreamMessageSlicer.h\<close>) and \<open>Slicer\<close>, the
    dispatch between them, interpret it.  One call of \<open>process_buffer\<close> refines a step of \<open>parse\<close>, stays within
    its arrays and makes progress.
  \<^item> \<open>Address\<close> (\<open>network/Address.h\<close>, \<open>Address.cpp\<close>): addresses, socket addresses, name resolution.
  \<^item> \<open>System\<close>: the kernel as a record of functions from the history of system calls to their answers, and what
    POSIX promises about them.
  \<^item> \<open>Tcp_Socket\<close>, \<open>Tcp_Receive\<close>, \<open>Tcp_Send\<close>, \<open>Tcp_Lifecycle\<close> (\<open>network/TcpSocket.h\<close>, \<open>TcpSocket.cpp\<close>): the record
    \<open>tcp_socket\<close> has the members of the class; operations \<open>tcp_f\<close> are the methods \<open>f\<close>.  Receiving delivers the parse
    of the bytes received; sending conserves bytes (what is written and what is queued is
    what was accepted); \<open>tcp_run\<close> is any sequence of operations, and both laws hold along it.
    The locales \<open>pull_view\<close> (what the loop of \<open>pull_messages\<close> needs of a slicer) and \<open>fast_closer\<close> (what
    \<open>do_send\<close> needs of the virtual \<open>close\<close>) are interpreted on the operations of the class.
  \<^item> \<open>Threads\<close>: interleaved threads.  A system gives the next step of a thread, a schedule is a list of threads; the
    locales \<open>thread_system\<close> (an invariant of the steps holds along every schedule) and \<open>terminating_system\<close> (schedules are bounded
    and can be completed) are interpreted on the systems of the theories
    \<open>Tcp_Threads\<close>, \<open>Loop_Workers\<close>, \<open>Listener_Threads\<close> and \<open>Tls_Threads\<close>.
  \<^item> \<open>Tcp_Threads\<close>: the sending half of \<open>TcpSocket\<close> used by many threads, with the critical sections of
    \<open>m_send_queue_mutex\<close> and the system calls as steps, \<open>m_send_mutex\<close> as an owner and \<open>m_send_queue_cond\<close> as sleeping threads.  Every
    interleaving conserves the bytes, ends without deadlock and loses no wakeup, except in the \<open>ENOTCONN\<close>
    branch of \<open>close\<close>.  \<open>Tcp_Solo\<close>: a thread that runs alone does what the sequential definitions do.
  \<^item> \<open>Tls_Credentials\<close> (\<open>src/network/TlsPolicy.h\<close>, \<open>ClientCredentials.h\<close>, \<open>ServerCredentials.h\<close>, the constructors in \<open>TlsContext.cpp\<close>): what a
    channel is created with.
  \<^item> \<open>Tls_Socket\<close> (\<open>network/TlsSocket.h\<close>, \<open>TlsSocket.cpp\<close>, \<open>TlsContext.h\<close>, \<open>TlsContext.cpp\<close>): an extension of the record of
    \<open>TcpSocket\<close>, with the Botan channel as a parameter (the record \<open>botan\<close>).  A send writes everything that the channel emits.
  \<^item> \<open>Tls_Receive\<close>: two TLS sockets over an established channel.  The contract of the channel is \<open>faithful_channel\<close>: whatever the chunks in which
    the ciphertext arrives, the records belong to the portions sent, in order, none of them with data of two portions.  Every
    \<open>receive\<close> returns, and the messages received are those sent; a channel that frames its portions satisfies the contract.
  \<^item> \<open>Tls_Threads\<close>: threads that send over one TLS socket, wait for the handshake or run the callbacks that take the mutex of
    \<open>TlsContext\<close>, interleaved; \<open>m_cond_var\<close> are sleeping threads.  The other end receives whole messages, the threads end without deadlock and
    lose no wakeup, but a thread that waits for a handshake that fails waits forever.  A thread that runs alone does what the
    sequential \<open>send\<close> does.
  \<^item> \<open>Event_Listener\<close> (\<open>EventListener.h\<close>): modes and the calls that listeners make to the loop.
  \<^item> \<open>Time_Listener\<close> (\<open>TimeEventListener.h\<close>, \<open>TimeEventListener.cpp\<close>): the queue of due times and the timer behind it.  Every due
    event fires once, and the timer is always armed for the earliest one.
  \<^item> \<open>Event_Loop\<close> (\<open>EventLoop.h\<close>, \<open>EventLoop.cpp\<close>): the table of listeners, the calls to \<open>epoll\<close>, the semaphore, \<open>update\<close>,
    \<open>thread_loop\<close> and \<open>stop\<close>.  The locale \<open>closable\<close> is what \<open>stop\<close> needs of \<open>close_socket\<close>.
  \<^item> \<open>Loop_Workers\<close>: the worker threads of the loop and the threads that call \<open>stop\<close>, interleaved with events and with
    the calls of listeners.  The semaphore is never read empty, the table stays well formed, and after \<open>stop\<close>
    every worker ends.
  \<^item> \<open>Network_Listener\<close> (\<open>NetworkSocketListener.h\<close>, \<open>NetworkSocketListener.cpp\<close>): the handlers, the sends and the disconnect protocol.
    The locale \<open>socket_send\<close> is the contract of the socket's three \<open>send\<close> methods, each of which
    interprets it; \<open>nl_run\<close> is any sequence of handler calls and sends on a connection.
  \<^item> \<open>Listener_Threads\<close>: handlers, sends, closes and queries of a listener by many threads, with \<open>m_mutex\<close> and \<open>m_send_mutex\<close> as owners; a
    thread is a list of instructions, and callbacks may call the listener again.  The loop knows the listener's mode whenever no
    thread sends, and there is no deadlock as long as \<open>on_disconnect\<close> does not call the listener; the counterexamples are a
    disconnect that is announced twice and callbacks that deadlock.  \<open>Listener_Solo\<close>: a thread that runs alone does what
    the definitions of \<open>Network_Listener\<close> do.
  \<^item> \<open>Message_App\<close>: applications that answer messages in \<open>on_network_message\<close>.  The locale \<open>message_app\<close> is what the library asks
    of a callback, \<open>app_run\<close> any sequence of handler calls, sends and closes with such an application; the locale is interpreted
    on an application that only takes messages and on \<open>Peer\<close> of \<open>test/messages.cpp\<close>.  What is delivered is
    the parse of what was received, and what goes out are the sends and the answers in their order.
  \<^item> \<open>Listeners\<close>: the loop together with timers and socket listeners; interprets \<open>closable\<close> on them.  \<open>stop\<close> terminates,
    and an event on a connection renews its one-shot registration.
  \<^item> \<open>Delayed_Listener\<close> (\<open>DelayedNetworkSocketListener.h\<close>, \<open>DelayedNetworkSocketListener.cpp\<close>): an extension of the record of
    \<open>NetworkSocketListener\<close> with the \<open>DelayedMessageSender\<close>.  Without a delay it is the base class; with one,
    messages are sent in the order of the calls.
  \<^item> This theory: two sockets, and two listeners with their applications, and the network between them.

  \<^bold>\<open>How the code is modelled.\<close>  A method that can throw returns a pair of a result (\<open>Inl\<close> the exception) and the state it
  leaves, because an exception does not undo assignments.  An access outside an object, or through a null pointer, is the
  result \<open>MemoryFault\<close>, and \<open>LOG(FATAL)\<close> is \<open>Fatal\<close>.  Widths are those of the source: sizes of
  buffers and messages are 32-bit words, the size of the send queue, due times and \<open>size_t\<close> 64-bit words, and
  sums wrap around.  Virtual calls that a base class makes are arguments (\<open>close\<close>, the buffer of
  \<open>receive_data\<close>, the handlers of a listener).  The kernel, the clock, \<open>inet_ntop\<close>, \<open>inet_pton\<close>, \<open>getaddrinfo\<close>, Botan and
  the application's callbacks are parameters.

  \<^bold>\<open>Loops.\<close>  A loop whose end depends on the environment is a \<open>partial_function (option)\<close>, whose value \<open>None\<close> is
  running forever: \<open>pull_messages\<close>, \<open>do_send\<close>, \<open>accept\<close>, the blocking \<open>send\<close>, the read loop of a listener,
  \<open>stop\<close>, \<open>tls_emit_data\<close>.  For each of them it is proved that it returns under the assumption that the
  environment is finite: at most \<open>k\<close> non-empty portions in the receive queue (\<open>recv_finite\<close>), at most \<open>k\<close>
  connections (\<open>accept_finite\<close>), at most \<open>k\<close> requests to try again (\<open>write_live\<close>); \<open>k\<close> is arbitrary.  No fuel is used
  anywhere.  Waiting on a condition variable is \<open>None\<close> as well, or a step that is not possible yet.

  \<^bold>\<open>Threads.\<close>  In \<open>Tcp_Threads\<close>, \<open>Loop_Workers\<close>, \<open>Listener_Threads\<close> and \<open>Tls_Threads\<close> a method is a sequence of locations or
  instructions between which any other thread can run; in the last two a call of the socket, or of the channel, is one step.  In the other
  theories a method is one step, except that the calls of \<open>epoll_wait\<close> come with the
  changes other threads made in the meantime, that \<open>wait_send_queue_empty\<close> gives the socket as other threads have left
  it, and that the log of a disconnect says whether the listener's mutex is held.

  \<^bold>\<open>Not modelled.\<close>  The interleaving of threads inside the methods of \<open>TimeEventListener\<close> and of the delayed sender, and of the receiving
  half of \<open>TcpSocket\<close> (one worker at a time handles the events of a descriptor, because its registration is
  one-shot).  Calls of a Botan channel by two threads at once, which it does not support: \<open>received_data\<close>, called
  without the mutex, is not among the calls of \<open>Tls_Threads\<close>, and \<open>close\<close> only as a step of the exception handler of \<open>send\<close>.  The order of the \<open>unordered_map\<close> of listeners.  Logging.
  \<open>EventLoop::get_time\<close>, which only reads the
  clock.  \<open>yael.h\<close>, which only includes, and the tests and benchmarks, except for \<open>Peer\<close>.  In the theorems on the loop
  with its listeners the application's callbacks do not touch the listener (\<open>passive_app\<close>).
\<close>

section \<open>Two sockets and the network between them\<close>

text \<open>
  C1. Two sockets in datagram mode, each with any history of operations: if the network
  delivers the bytes of the one to the other in order (the receiver has read some prefix of what the
  sender wrote), the messages that the receiver has handed out or queued are a prefix of the messages that the
  sender's \<open>send\<close> calls accepted, whatever the sizes of writes and reads; and once the sender has
  nothing left to write and everything is delivered, they are all of them, in order and unchanged.
\<close>

theorem datagrams_end_to_end:
  assumes "tcp_run os1 net Datagram mx1 acc del1 s" and "posix os1" and "unat mx1 + 2 ^ 32 < 2 ^ 64"
    and "tcp_run os2 net Datagram mx2 acc2 del r" and "posix os2" and "unat mx2 + 2 ^ 32 < 2 ^ 64"
    and "acc = concat (map frame ms)" and "list_all valid_payload ms"
    and "prefix (bytes_received (trace r)) (bytes_sent (trace s))"
  shows "prefix (del @ slicer_msgs (m_slicer r)) ms \<and>
    (backlog s = [] \<and> bytes_received (trace r) = bytes_sent (trace s) \<longrightarrow>
     del @ slicer_msgs (m_slicer r) = ms)"
proof -
  have s: "bytes_sent (trace s) @ backlog s = concat (map frame ms)"
    using tcp_run_accounts [OF assms(1-3)] assms(7) by (simp add: accounts_def)
  have r: "fst (parse (bytes_received (trace r))) = del @ slicer_msgs (m_slicer r)"
    using tcp_run_accounts [OF assms(4-6)] by (simp add: accounts_def)
  have "prefix (bytes_received (trace r)) (concat (map frame ms))"
    using assms(9) s by (metis prefix_def append.assoc)
  from parse_prefix [OF this] show ?thesis
    using r s parse_all_frames [OF assms(8)] by auto
qed

theorem datagrams_end_to_end_witness:
  "\<exists>s r. tcp_run (feeding_os []) loopback_inet Datagram 100 (frame [7, 8]) [] s \<and>
    tcp_run (feeding_os [[6, 0], [0, 0, 7, 8]]) loopback_inet Datagram 100 [] [[7, 8]] r \<and>
    [[7, 8]] @ slicer_msgs (m_slicer r) = [[7, 8]]"
proof -
  obtain s where s: "tcp_run (feeding_os []) loopback_inet Datagram 100 (frame [7, 8]) [] s"
      "bytes_sent (trace s) = frame [7, 8]" "backlog s = []"
    using sent_run by blast
  obtain r where r: "tcp_run (feeding_os [[6, 0], [0, 0, 7, 8]]) loopback_inet Datagram 100 [] [[7, 8]] r"
      "bytes_received (trace r) = frame [7, 8]"
    using received_run by blast
  show ?thesis
    using s r datagrams_end_to_end [OF s(1) feeding_posix _ r(1) feeding_posix _, of "[[7, 8]]"]
    by (intro exI [of _ s] exI [of _ r]) (simp add: valid_payload_def)
qed

section \<open>Two listeners and the network between them\<close>

lemma subseq_map_ex: "subseq css (map f xs) \<Longrightarrow> \<exists>ys. subseq ys xs \<and> css = map f ys"
  by (auto simp: subseq_conv_nths nths_map)

lemma subseq_list_all: "subseq ys xs \<Longrightarrow> list_all P xs \<Longrightarrow> list_all P ys"
  by (auto simp: list_all_iff dest: list_emb_set)

lemma listeners_deliver:
  assumes "app_run os1 net1 Datagram app1 replies1 (map frame ms) l1" and "message_app os1 Datagram app1 replies1"
    and "posix os1" and "shutdown_ok os1"
    and "app_run os2 net2 Datagram app2 replies2 bss l2" and "message_app os2 Datagram app2 replies2"
    and "posix os2" and "shutdown_ok os2"
    and "list_all valid_payload ms" and "nl_socket l1 = Some s1" and "nl_socket l2 = Some s2"
    and "prefix (bytes_received (trace s2)) (bytes_sent (trace s1))"
  obtains ns where "subseq ns ms" "tcp_is_connected s1 \<longrightarrow> ns = ms" "prefix (delivered l2) ns"
    "backlog s1 = [] \<and> bytes_received (trace s2) = bytes_sent (trace s1) \<and> slicer_msgs (m_slicer s2) = [] \<longrightarrow>
      delivered l2 = ns"
proof -
  have "traffic (map frame ms) l1" using app_run_inv [OF assms(1-4)] ..
  then obtain css where css: "subseq css (map frame ms)" "outgoing s1 = concat css" "tcp_is_connected s1 \<longrightarrow> css = map frame ms"
    using assms(10) by (auto simp: traffic_def)
  obtain ns where ns: "subseq ns ms" "css = map frame ns" "tcp_is_connected s1 \<longrightarrow> ns = ms"
  proof (cases "tcp_is_connected s1")
    case True
    then show thesis using that [of ms] css by simp
  next
    case False
    then show thesis using that subseq_map_ex [OF css(1)] by blast
  qed
  have "nl_inv Datagram l2" using app_run_inv [OF assms(5-8)] ..
  then have r: "fst (parse (bytes_received (trace s2))) = delivered l2 @ slicer_msgs (m_slicer s2)"
    using assms(11) by (simp add: nl_inv_def socket_inv_def)
  have s: "bytes_sent (trace s1) @ backlog s1 = concat (map frame ns)" using css(2) ns(2) by (simp add: outgoing_def)
  have p: "parse (concat (map frame ns)) = (ns, [])" by (rule parse_all_frames [OF subseq_list_all [OF ns(1) assms(9)]])
  have "prefix (bytes_received (trace s2)) (concat (map frame ns))"
    using assms(12) s by (metis prefix_def append.assoc)
  from parse_prefix [OF this] have "prefix (delivered l2) ns" using r p append_prefixD by fastforce
  moreover have "backlog s1 = [] \<and> bytes_received (trace s2) = bytes_sent (trace s1) \<and> slicer_msgs (m_slicer s2) = [] \<longrightarrow>
      delivered l2 = ns"
    using r s p by auto
  ultimately show thesis using ns that by blast
qed





end
